(* ===== verification/Prelude.thy ===== *)
theory Prelude
  imports Main "HOL-Library.Word"
begin

unbundle bit_operations_syntax

text \<open>
  Shared vocabulary of the development.  The machine integers of
  \<^verbatim>\<open>src/include/types.h\<close> are words of their width, the ways in which a C
  function can fail to return a value are the constructors of \<open>cerror\<close>, and
  a fallible operation returns \<open>'a res\<close>, a sum whose left side is the
  failure.  A C object that the program reads through a pointer is the list of
  the bytes from that pointer to the end of the object, so that a read past the
  end is a failure of the model and never an unspecified value.
\<close>

section \<open>Machine integers and failures\<close>

type_synonym u8 = "8 word"
type_synonym u16 = "16 word"
type_synonym u32 = "32 word"
type_synonym u64 = "64 word"

type_synonym bytes = "u8 list"

datatype cerror =
    Out_of_bounds
  | Null_deref
  | No_return
  | Signed_overflow
  | Panic
  | Diverges
  | Div_by_zero

type_synonym 'a res = "cerror + 'a"

fun rbind :: "'a res \<Rightarrow> ('a \<Rightarrow> 'b res) \<Rightarrow> 'b res" where
  "rbind (Inl e) f = Inl e"
| "rbind (Inr x) f = f x"

definition rmap :: "('a \<Rightarrow> 'b) \<Rightarrow> 'a res \<Rightarrow> 'b res" where
  "rmap g m = rbind m (\<lambda>x. Inr (g x))"

definition rcheck :: "cerror \<Rightarrow> bool \<Rightarrow> unit res" where
  "rcheck e b = (if b then Inr () else Inl e)"

definition int_min :: int where "int_min = - (2 ^ 31)"
definition int_max :: int where "int_max = 2 ^ 31 - 1"

definition in_int :: "int \<Rightarrow> bool" where
  "in_int i \<longleftrightarrow> int_min \<le> i \<and> i \<le> int_max"

text \<open>The value of a signed \<^verbatim>\<open>int\<close> expression; leaving the range is undefined.\<close>

definition c_int :: "int \<Rightarrow> int res" where
  "c_int i = (if in_int i then Inr i else Inl Signed_overflow)"

definition bytes_of :: "string \<Rightarrow> bytes" where
  "bytes_of s = map of_char s"

lemma replicate_numeral: "replicate (numeral n) x = x # replicate (pred_numeral n) x"
  by (simp add: numeral_eq_Suc)

section \<open>Rule collections\<close>

named_theorems res_simps \<open>computation rules of the failure monad\<close>
named_theorems word_nat \<open>transfer of word facts to natural numbers\<close>

section \<open>The failure monad\<close>

lemma rbind_eq_Inr [res_simps]:
  "rbind m f = Inr y \<longleftrightarrow> (\<exists>x. m = Inr x \<and> f x = Inr y)"
  by (cases m) auto

lemma rbind_eq_Inl [res_simps]:
  "rbind m f = Inl e \<longleftrightarrow> m = Inl e \<or> (\<exists>x. m = Inr x \<and> f x = Inl e)"
  by (cases m) auto

lemma rbind_assoc: "rbind (rbind m f) g = rbind m (\<lambda>x. rbind (f x) g)"
  by (cases m) auto

lemma rmap_simps [simp]: "rmap g (Inl e) = Inl e" "rmap g (Inr x) = Inr (g x)"
  by (simp_all add: rmap_def)

lemma rmap_eq_Inr [res_simps]: "rmap g m = Inr y \<longleftrightarrow> (\<exists>x. m = Inr x \<and> y = g x)"
  by (cases m) auto

lemma rcheck_simps [simp]: "rcheck e True = Inr ()" "rcheck e False = Inl e"
  by (simp_all add: rcheck_def)

lemma c_int_in [simp]: "in_int i \<Longrightarrow> c_int i = Inr i"
  by (simp add: c_int_def)

lemma in_int_iff: "in_int i \<longleftrightarrow> - 2147483648 \<le> i \<and> i \<le> 2147483647"
  by (simp add: in_int_def int_min_def int_max_def)

section \<open>Words as natural numbers\<close>

lemma unat_of_nat32 [word_nat]: "n < 2 ^ 32 \<Longrightarrow> unat (of_nat n :: u32) = n"
  by (simp add: unat_of_nat take_bit_nat_eq_self_iff)

lemma u32_bound [simp]: "unat (w :: u32) < 2 ^ 32"
  using unsigned_less [of w] by simp

lemma u32_less: "unat (w :: u32) < 4294967296"
  using u32_bound [of w] by simp

lemma u32_induct [case_names zero suc]:
  fixes n :: u32
  assumes "P 0" and "\<And>n. n \<noteq> 0 \<Longrightarrow> P (n - 1) \<Longrightarrow> P n"
  shows "P n"
proof (induction "unat n" arbitrary: n)
  case 0
  then show ?case using assms(1) by (simp add: unat_eq_zero)
next
  case (Suc k)
  then have nz: "n \<noteq> 0" by auto
  then have "unat (n - 1) = k" using Suc.hyps(2) by (simp add: unat_minus_one)
  then show ?case using Suc.hyps(1) assms(2) nz by auto
qed

lemma sint32 [word_nat]:
  "sint (w :: u32) = (if unat w < 2147483648 then int (unat w) else int (unat w) - 4294967296)"
proof -
  have b: "uint w < 4294967296" "0 \<le> uint w" using uint_bounded[of w] by simp_all
  have u: "uint w = int (unat w)" by (rule uint_nat)
  have s: "sint w = (uint w + 2147483648) mod 4294967296 - 2147483648"
    by (simp add: sint_uint signed_take_bit_eq_take_bit_shift take_bit_eq_mod)
  show ?thesis
  proof (cases "unat w < 2147483648")
    case True
    then have "uint w < 2147483648" using u by linarith
    then have "(uint w + 2147483648) mod 4294967296 = uint w + 2147483648"
      using b by (intro mod_pos_pos_trivial) linarith+
    then have "sint w = int (unat w)" using s u by linarith
    with True show ?thesis by (simp only: if_True)
  next
    case False
    then have f: "uint w \<ge> 2147483648" using u by linarith
    have "(uint w + 2147483648) mod 4294967296 = (uint w - 2147483648 + 1 * 4294967296) mod 4294967296"
      by (simp add: add.commute)
    also have "\<dots> = (uint w - 2147483648) mod 4294967296" by (rule mod_mult_self1)
    also have "\<dots> = uint w - 2147483648" using b f by (intro mod_pos_pos_trivial) linarith+
    finally have "sint w = int (unat w) - 4294967296" using s u by linarith
    with False show ?thesis by (simp only: if_False)
  qed
qed
lemma in_int_sint [simp]: "in_int (sint (w :: u32))"
  using sint_greater_eq [of w] sint_less [of w] by (simp add: in_int_iff)

lemma sint32_neg:
  assumes "sint (w :: u32) < 0"
  shows "sint w = int (unat w) - 4294967296" "2147483648 \<le> unat w"
proof -
  show "2147483648 \<le> unat w"
  proof (rule ccontr)
    assume "\<not> ?thesis"
    then have "sint w = int (unat w)" using sint32 [of w] by (simp only: not_le if_True)
    then show False using assms by linarith
  qed
  then show "sint w = int (unat w) - 4294967296"
    using sint32 [of w] by (simp only: not_less [symmetric] if_False)
qed

lemma unat_minus32: "w \<noteq> 0 \<Longrightarrow> unat (- w :: u32) = 4294967296 - unat w"
proof -
  assume "w \<noteq> 0"
  then have p: "0 < unat w" by (simp add: unat_gt_0)
  have b: "unat w < 4294967296" using unsigned_less [of w] by simp
  have u: "uint w = int (unat w)" "uint (- w) = int (unat (- w))" by (rule uint_nat)+
  have "uint (- w) = (- uint w) mod 4294967296" by (simp add: uint_word_ariths)
  also have "\<dots> = (4294967296 - uint w) mod 4294967296" by simp
  also have "\<dots> = 4294967296 - uint w" using p b u by (intro mod_pos_pos_trivial) linarith+
  finally show ?thesis using u b by linarith
qed
section \<open>Masks\<close>

lemma and_mask_take_bit:
  fixes w :: u32
  shows "w AND 0xffff = take_bit 16 w" "w AND 0xff = take_bit 8 w" "w AND 0x0f = take_bit 4 w"
    "w AND 0xfff = take_bit 12 w" "w AND 0x3ff = take_bit 10 w"
  by (simp_all add: take_bit_eq_mask mask_eq_exp_minus_1)

section \<open>Page arithmetic\<close>

text \<open>\<^verbatim>\<open>addr & 0xfffff000\<close> rounds down to a page boundary.\<close>

abbreviation page_base :: "u32 \<Rightarrow> u32" where
  "page_base a \<equiv> a AND 0xfffff000"

definition page_aligned :: "u32 \<Rightarrow> bool" where
  "page_aligned a \<longleftrightarrow> unat a mod 4096 = 0"

lemma and_not_mask_eq: "(w :: 'a::len word) AND NOT (mask n) = push_bit n (drop_bit n w)"
  by (rule bit_eqI) (auto simp: bit_simps)

lemma and_not_mask12: "(w :: u32) AND 0xfffff000 = push_bit 12 (drop_bit 12 w)"
proof -
  have "(0xfffff000 :: u32) = NOT (mask 12)" by (simp add: mask_eq_exp_minus_1)
  then show ?thesis by (simp only: and_not_mask_eq)
qed

lemma unat_page_base [word_nat]: "unat (page_base w) = unat w div 4096 * 4096"
proof -
  have "unat w div 4096 * 4096 < 2 ^ 32"
    using u32_bound [of w] by (meson div_times_less_eq_dividend le_less_trans)
  then show ?thesis
    unfolding and_not_mask12
    by (simp add: drop_bit_eq_div push_bit_eq_mult unat_word_ariths unat_div)
qed

lemma page_alignedE:
  assumes "page_aligned p"
  obtains q where "unat p = 4096 * q"
  using assms by (auto simp: page_aligned_def elim: dvdE)

lemma page_base_aligned [simp]: "page_aligned (page_base w)"
  by (simp add: page_aligned_def unat_page_base)

lemma page_aligned_room: "page_aligned p \<Longrightarrow> unat p + 4096 \<le> 2 ^ 32"
proof -
  assume "page_aligned p"
  then obtain k where k: "unat p = 4096 * k" by (auto simp: page_aligned_def)
  have "4096 * k < 4096 * 1048576" using u32_bound [of p] k by simp
  then show ?thesis using k by simp
qed

lemma unat_page_off:
  "page_aligned p \<Longrightarrow> unat off < 4096 \<Longrightarrow> unat (p + off) = unat p + unat off"
  using page_aligned_room [of p] by (intro unat_add_lem [THEN iffD1]) simp

lemma page_base_off:
  assumes "page_aligned p" "unat off < 4096"
  shows "page_base (p + off) = p"
proof -
  have "unat (page_base (p + off)) = unat p"
    using assms by (auto simp: unat_page_base unat_page_off page_aligned_def div_add1_eq)
  then show ?thesis by (rule word_unat_eq_iff [THEN iffD2])
qed

section \<open>Lists\<close>

lemma dropWhile_eq_filter:
  "\<forall>x\<in>set (dropWhile P xs). \<not> P x \<Longrightarrow> dropWhile P xs = filter (\<lambda>x. \<not> P x) xs"
proof (induction xs)
  case (Cons x xs)
  show ?case
  proof (cases "P x")
    case False
    with Cons.prems have "filter (\<lambda>x. \<not> P x) xs = xs" by (intro filter_True) simp
    with False show ?thesis by (metis dropWhile.simps(2) filter.simps(2))
  next
    case True
    with Cons show ?thesis by (metis dropWhile.simps(2) filter.simps(2))
  qed
qed simp

lemma take_Suc_nth_update:
  "i < length xs \<Longrightarrow> take i xs @ v # drop (Suc i) xs = xs[i := v]"
  by (simp add: upd_conv_take_nth_drop)

end
