(* ===== verification/CString.thy ===== *)
theory CString
  imports Prelude
begin

text \<open>
  The byte-string routines of \<^verbatim>\<open>src/libc/string.c\<close> and \<^verbatim>\<open>atoi\<close> of
  \<^verbatim>\<open>src/libc/stdlib.c\<close>.  A \<^verbatim>\<open>char *\<close> argument is the list of bytes
  from the pointer to the end of its object; a routine that writes returns the
  new contents of the destination object.  Source and destination are distinct
  objects.  Returned pointers are offsets into the argument, \<open>None\<close> is
  \<^verbatim>\<open>NULL\<close>.
\<close>

section \<open>Comparison\<close>

definition clamp_sign :: "int \<Rightarrow> int" where
  "clamp_sign res = (if res < 0 then -1 else if res > 0 then 1 else res)"

fun strcmp :: "bytes \<Rightarrow> bytes \<Rightarrow> int res" where
  "strcmp (a # as) (b # bs) =
     (let res = uint a - uint b in
      if res = 0 \<and> b \<noteq> 0 then strcmp as bs else Inr (clamp_sign res))"
| "strcmp _ _ = Inl Out_of_bounds"

fun strncmp_loop :: "nat \<Rightarrow> bytes \<Rightarrow> bytes \<Rightarrow> int res" where
  "strncmp_loop 0 _ _ = Inr 0"
| "strncmp_loop (Suc n) (a # as) (b # bs) =
     (let res = uint a - uint b in
      if res = 0 \<and> b \<noteq> 0 then strncmp_loop n as bs else Inr (clamp_sign res))"
| "strncmp_loop (Suc n) _ _ = Inl Out_of_bounds"

definition strncmp :: "bytes \<Rightarrow> bytes \<Rightarrow> u32 \<Rightarrow> int res" where
  "strncmp str1 str2 num = strncmp_loop (unat num) str1 str2"

fun memcmp_loop :: "nat \<Rightarrow> bytes \<Rightarrow> bytes \<Rightarrow> int res" where
  "memcmp_loop 0 _ _ = Inr 0"
| "memcmp_loop (Suc n) (a # as) (b # bs) =
     (let res = uint a - uint b in
      if res = 0 then memcmp_loop n as bs else Inr (clamp_sign res))"
| "memcmp_loop (Suc n) _ _ = Inl Out_of_bounds"

definition memcmp :: "bytes \<Rightarrow> bytes \<Rightarrow> u32 \<Rightarrow> int res" where
  "memcmp s1 s2 count = memcmp_loop (unat count) s1 s2"

section \<open>Copying and filling\<close>

fun strcpy :: "bytes \<Rightarrow> bytes \<Rightarrow> bytes res" where
  "strcpy (d # ds) (c # cs) =
     (if c = 0 then Inr (0 # ds) else rmap ((#) c) (strcpy ds cs))"
| "strcpy _ _ = Inl Out_of_bounds"

fun strncpy_loop :: "nat \<Rightarrow> bytes \<Rightarrow> bytes \<Rightarrow> bytes res" where
  "strncpy_loop 0 dst _ = Inr dst"
| "strncpy_loop (Suc n) (d # ds) (c # cs) =
     (if c = 0 then Inr (0 # ds) else rmap ((#) c) (strncpy_loop n ds cs))"
| "strncpy_loop (Suc n) _ _ = Inl Out_of_bounds"

definition strncpy :: "bytes \<Rightarrow> bytes \<Rightarrow> u32 \<Rightarrow> bytes res" where
  "strncpy dst src num = strncpy_loop (unat num) dst src"

fun strcat :: "bytes \<Rightarrow> bytes \<Rightarrow> bytes res" where
  "strcat (d # ds) src =
     (if d \<noteq> 0 then rmap ((#) d) (strcat ds src) else strcpy (d # ds) src)"
| "strcat [] src = Inl Out_of_bounds"

fun strncat :: "bytes \<Rightarrow> bytes \<Rightarrow> u32 \<Rightarrow> bytes res" where
  "strncat (d # ds) src num =
     (if d \<noteq> 0 then rmap ((#) d) (strncat ds src num) else strncpy (d # ds) src num)"
| "strncat [] src num = Inl Out_of_bounds"

text \<open>\<^verbatim>\<open>memset\<close> fills from the last byte to the first.\<close>

fun memset_loop :: "bytes \<Rightarrow> u8 \<Rightarrow> nat \<Rightarrow> bytes res" where
  "memset_loop dst val 0 = Inr dst"
| "memset_loop dst val (Suc count) =
     (if count < length dst then memset_loop (dst[count := val]) val count
      else Inl Out_of_bounds)"

definition memset :: "bytes \<Rightarrow> u8 \<Rightarrow> u32 \<Rightarrow> bytes res" where
  "memset dst val count = memset_loop dst val (unat count)"

fun memcpy_loop :: "nat \<Rightarrow> bytes \<Rightarrow> bytes \<Rightarrow> bytes res" where
  "memcpy_loop 0 dst _ = Inr dst"
| "memcpy_loop (Suc n) (d # ds) (c # cs) = rmap ((#) c) (memcpy_loop n ds cs)"
| "memcpy_loop (Suc n) _ _ = Inl Out_of_bounds"

definition memcpy :: "bytes \<Rightarrow> bytes \<Rightarrow> u32 \<Rightarrow> bytes res" where
  "memcpy dst src count = memcpy_loop (unat count) dst src"

section \<open>Lengths and searches\<close>

fun strlen_loop :: "bytes \<Rightarrow> u32 \<Rightarrow> u32 res" where
  "strlen_loop [] len = Inl Out_of_bounds"
| "strlen_loop (c # cs) len =
     (if c \<noteq> 0 then strlen_loop cs (len + 1) else Inr (len + 1 - 1))"

definition strlen :: "bytes \<Rightarrow> u32 res" where
  "strlen str = strlen_loop str 0"

fun strnlen_loop :: "bytes \<Rightarrow> u32 \<Rightarrow> u32 \<Rightarrow> u32 res" where
  "strnlen_loop [] num len = Inl Out_of_bounds"
| "strnlen_loop (c # cs) num len =
     (if c \<noteq> 0 \<and> len + 1 \<le> num then strnlen_loop cs num (len + 1)
      else Inr (len + 1 - 1))"

definition strnlen :: "bytes \<Rightarrow> u32 \<Rightarrow> u32 res" where
  "strnlen str num = strnlen_loop str num 0"

fun strchr :: "bytes \<Rightarrow> u8 \<Rightarrow> nat option res" where
  "strchr [] ch = Inl Out_of_bounds"
| "strchr (c # cs) ch =
     (if c \<noteq> 0 \<and> c \<noteq> ch then rmap (map_option Suc) (strchr cs ch)
      else if c = ch then Inr (Some 0) else Inr None)"

fun lfind :: "bytes \<Rightarrow> u8 \<Rightarrow> nat res" where
  "lfind [] accept = Inl Out_of_bounds"
| "lfind (c # cs) accept = (if c \<noteq> accept then rmap Suc (lfind cs accept) else Inr 0)"

fun rfind_loop :: "bytes \<Rightarrow> u8 \<Rightarrow> nat \<Rightarrow> nat option res" where
  "rfind_loop str accept i =
     (if i \<ge> length str then Inl Out_of_bounds
      else if str ! i = accept then Inr (Some i)
      else if i = 0 then Inr None
      else rfind_loop str accept (i - 1))"

text \<open>The result \<^verbatim>\<open>UINT32_MAX\<close> of \<^verbatim>\<open>rfind\<close> is \<open>None\<close>.\<close>

definition rfind :: "bytes \<Rightarrow> u8 \<Rightarrow> nat option res" where
  "rfind str accept = rbind (strlen str) (\<lambda>len. rfind_loop str accept (unat (len - 1)))"

text \<open>The inner scan of \<^verbatim>\<open>strpbrk\<close> and \<^verbatim>\<open>strspn\<close>: is the byte in the set?\<close>

fun accept_scan :: "bytes \<Rightarrow> u8 \<Rightarrow> bool res" where
  "accept_scan [] c = Inl Out_of_bounds"
| "accept_scan (a # acc) c =
     (if a = 0 then Inr False else if a = c then Inr True else accept_scan acc c)"

fun strpbrk :: "bytes \<Rightarrow> bytes \<Rightarrow> nat option res" where
  "strpbrk [] accept = Inl Out_of_bounds"
| "strpbrk (c # cs) accept =
     (if c = 0 then Inr None
      else rbind (accept_scan accept c) (\<lambda>hit.
        if hit then Inr (Some 0) else rmap (map_option Suc) (strpbrk cs accept)))"

fun strspn_loop :: "bytes \<Rightarrow> bytes \<Rightarrow> u32 \<Rightarrow> u32 res" where
  "strspn_loop [] accept sz = Inl Out_of_bounds"
| "strspn_loop (c # cs) accept sz =
     (if c = 0 then Inr sz
      else rbind (accept_scan accept c) (\<lambda>hit.
        if hit then strspn_loop cs accept (sz + 1) else Inr sz))"

definition strspn :: "bytes \<Rightarrow> bytes \<Rightarrow> u32 res" where
  "strspn str accept = strspn_loop str accept 0"

text \<open>
  \<^verbatim>\<open>strtok_r\<close> works on one buffer, and \<^verbatim>\<open>str\<close> and \<^verbatim>\<open>*saveptr\<close> are offsets
  into it.  The result is the new buffer, the new \<^verbatim>\<open>*saveptr\<close> and the
  token, \<open>None\<close> when there is none.
\<close>

definition strtok_r :: "bytes \<Rightarrow> nat option \<Rightarrow> bytes \<Rightarrow> nat \<Rightarrow> (bytes \<times> nat \<times> nat option) res" where
  "strtok_r buf str delim saveptr =
     (let str = (case str of None \<Rightarrow> saveptr | Some p \<Rightarrow> p) in
      rbind (strspn (drop str buf) delim) (\<lambda>skip.
      let str = str + unat skip in
      if length buf \<le> str then Inl Out_of_bounds
      else if buf ! str = 0 then Inr (buf, str, None)
      else let token = str in
        rbind (strpbrk (drop token buf) delim) (\<lambda>hit.
        case hit of
          None \<Rightarrow> rbind (lfind (drop token buf) 0) (\<lambda>e. Inr (buf, token + e, Some token))
        | Some k \<Rightarrow> Inr (buf[token + k := 0], token + k + 1, Some token))))"

section \<open>atoi\<close>

definition isdigit :: "u8 \<Rightarrow> bool" where
  "isdigit c \<longleftrightarrow> (scast c :: u32) - 48 < 10"

definition isspace :: "u8 \<Rightarrow> bool" where
  "isspace c \<longleftrightarrow> c = 32 \<or> (scast c :: u32) - 9 < 5"

fun skip_spaces :: "bytes \<Rightarrow> bytes" where
  "skip_spaces [] = []"
| "skip_spaces (c # cs) = (if isspace c then skip_spaces cs else c # cs)"

fun atoi_digits :: "bytes \<Rightarrow> int \<Rightarrow> int res" where
  "atoi_digits [] n = Inl Out_of_bounds"
| "atoi_digits (c # cs) n =
     (if isdigit c
      then rbind (c_int (10 * n)) (\<lambda>m. rbind (c_int (m - (sint c - 48))) (atoi_digits cs))
      else Inr n)"

definition atoi :: "bytes \<Rightarrow> int res" where
  "atoi s =
     (case skip_spaces s of
        [] \<Rightarrow> Inl Out_of_bounds
      | c # cs \<Rightarrow>
         let neg = (c = 45);
             s' = (if c = 45 \<or> c = 43 then cs else c # cs)
         in rbind (atoi_digits s' 0) (\<lambda>n. if neg then Inr n else c_int (- n)))"

section \<open>The string a buffer holds\<close>

definition cstr :: "bytes \<Rightarrow> bytes" where
  "cstr b = takeWhile (\<lambda>c. c \<noteq> 0) b"

definition terminated :: "bytes \<Rightarrow> bool" where
  "terminated b \<longleftrightarrow> 0 \<in> set b"

definition sign_cmp :: "bytes \<Rightarrow> bytes \<Rightarrow> int" where
  "sign_cmp s t = (if s = t then 0 else if ord_class.lexordp s t then -1 else 1)"

lemma cstr_simps [simp]:
  "cstr [] = []" "cstr (c # cs) = (if c = 0 then [] else c # cstr cs)"
  by (simp_all add: cstr_def)

lemma terminated_simps [simp]:
  "\<not> terminated []" "terminated (c # cs) \<longleftrightarrow> c = 0 \<or> terminated cs"
  by (auto simp: terminated_def)

lemma cstr_append_nul [simp]: "0 \<notin> set s \<Longrightarrow> cstr (s @ 0 # r) = s"
  by (induction s) auto

lemma terminated_append_nul [simp]: "terminated (s @ 0 # r)"
  by (simp add: terminated_def)

lemma nul_notin_cstr [simp]: "0 \<notin> set (cstr b)"
  by (induction b) auto

lemma terminated_split: "terminated b \<Longrightarrow> \<exists>r. b = cstr b @ 0 # r"
  by (induction b) auto

lemma length_cstr_less: "terminated b \<Longrightarrow> length (cstr b) < length b"
  by (induction b) auto

lemma cstr_nth_nul: "terminated b \<Longrightarrow> b ! length (cstr b) = 0"
  by (induction b) auto

lemma sign_cmp_Cons [simp]:
  "sign_cmp (a # s) (b # t) =
     (if a < b then -1 else if b < a then 1 else sign_cmp s t)"
  by (auto simp: sign_cmp_def)

lemma sign_cmp_Nil [simp]:
  "sign_cmp [] [] = 0" "sign_cmp [] (b # t) = -1" "sign_cmp (a # s) [] = 1"
  by (simp_all add: sign_cmp_def)

lemma clamp_sign_word:
  fixes a b :: u8
  shows "clamp_sign (uint a - uint b) = (if a < b then -1 else if b < a then 1 else 0)"
  by (auto simp: clamp_sign_def word_less_def)

lemma word_diff_zero [simp]: "uint (a :: u8) - uint b = 0 \<longleftrightarrow> a = b"
  by (metis diff_eq_diff_eq diff_self word_uint_eq_iff)

lemma uint8_eq [simp]:
  fixes a b :: u8
  shows "uint a = uint b \<longleftrightarrow> a = b" "uint a = 0 \<longleftrightarrow> a = 0"
  by (simp_all add: word_uint_eq_iff)

lemma strcmp_sign:
  "terminated a \<Longrightarrow> terminated b \<Longrightarrow> strcmp a b = Inr (sign_cmp (cstr a) (cstr b))"
proof (induction a b rule: strcmp.induct)
  case (1 a as b bs)
  then show ?case
    by (auto simp: Let_def clamp_sign_word word_neq_0_conv)
qed auto

lemma memcmp_loop_sign:
  "n \<le> length a \<Longrightarrow> n \<le> length b \<Longrightarrow>
   memcmp_loop n a b = Inr (sign_cmp (take n a) (take n b))"
  by (induction n a b rule: memcmp_loop.induct) (auto simp: Let_def clamp_sign_word)

lemma strncmp_loop_sign:
  "terminated a \<Longrightarrow> terminated b \<Longrightarrow>
   strncmp_loop n a b = Inr (sign_cmp (take n (cstr a)) (take n (cstr b)))"
proof (induction n a b rule: strncmp_loop.induct)
  case (2 n a as b bs)
  then show ?case
    by (auto simp: Let_def clamp_sign_word word_neq_0_conv)
qed auto

section \<open>Copying\<close>

lemma memcpy_loop_ok:
  "n \<le> length dst \<Longrightarrow> n \<le> length src \<Longrightarrow>
   memcpy_loop n dst src = Inr (take n src @ drop n dst)"
  by (induction n dst src rule: memcpy_loop.induct) auto

lemma memcpy_loop_fail:
  "length dst < n \<or> length src < n \<Longrightarrow> memcpy_loop n dst src = Inl Out_of_bounds"
  by (induction n dst src rule: memcpy_loop.induct) auto

lemma drop_list_update_same: "n < length xs \<Longrightarrow> drop n (xs[n := v]) = v # drop (Suc n) xs"
  by (simp add: Cons_nth_drop_Suc [symmetric])

lemma memset_loop_ok:
  "n \<le> length dst \<Longrightarrow> memset_loop dst val n = Inr (replicate n val @ drop n dst)"
  by (induction n arbitrary: dst) (simp_all add: drop_list_update_same replicate_app_Cons_same)

lemma strcpy_ok:
  "terminated src \<Longrightarrow> length (cstr src) < length dst \<Longrightarrow>
   strcpy dst src = Inr (cstr src @ 0 # drop (Suc (length (cstr src))) dst)"
  by (induction dst src rule: strcpy.induct) auto

lemma strlen_loop_ok:
  "terminated b \<Longrightarrow> strlen_loop b len = Inr (len + of_nat (length (cstr b)))"
  by (induction b arbitrary: len) (auto simp: algebra_simps)

lemma strlen_ok: "terminated b \<Longrightarrow> strlen b = Inr (of_nat (length (cstr b)))"
  by (simp add: strlen_def strlen_loop_ok)

lemma strcat_ok:
  "terminated dst \<Longrightarrow> terminated src \<Longrightarrow>
   length (cstr dst) + length (cstr src) < length dst \<Longrightarrow>
   \<exists>r. strcat dst src = Inr r \<and> cstr r = cstr dst @ cstr src \<and> terminated r
       \<and> length r = length dst"
proof (induction dst)
  case (Cons d ds)
  show ?case
  proof (cases "d = 0")
    case True
    with Cons.prems strcpy_ok [of src "d # ds"] show ?thesis by simp
  next
    case False
    with Cons obtain r where "strcat ds src = Inr r" "cstr r = cstr ds @ cstr src"
      "terminated r" "length r = length ds" by auto
    with False show ?thesis by simp
  qed
qed simp

section \<open>Tokens\<close>

lemma cstr_drop: "n \<le> length (cstr b) \<Longrightarrow> cstr (drop n b) = drop n (cstr b)"
proof (induction b arbitrary: n)
  case (Cons c b)
  then show ?case by (cases n) (auto split: if_splits)
qed simp

lemma terminated_drop: "terminated b \<Longrightarrow> n \<le> length (cstr b) \<Longrightarrow> terminated (drop n b)"
proof (induction b arbitrary: n)
  case (Cons c b)
  then show ?case by (cases n) (auto split: if_splits)
qed simp

lemma cstr_take_nul: "n \<le> length (cstr b) \<Longrightarrow> n < length b \<Longrightarrow> cstr (b[n := 0]) = take n (cstr b)"
proof (induction b arbitrary: n)
  case (Cons c b)
  then show ?case by (cases n) (auto split: if_splits)
qed simp

lemma accept_scan_ok:
  "terminated acc \<Longrightarrow> c \<noteq> 0 \<Longrightarrow> accept_scan acc c = Inr (c \<in> set (cstr acc))"
  by (induction acc c rule: accept_scan.induct) auto

lemma strspn_loop_ok:
  "terminated str \<Longrightarrow> terminated acc \<Longrightarrow>
   strspn_loop str acc n =
     Inr (n + of_nat (length (takeWhile (\<lambda>c. c \<in> set (cstr acc)) (cstr str))))"
  by (induction str acc n rule: strspn_loop.induct)
     (auto simp: accept_scan_ok algebra_simps)

lemma strpbrk_ok:
  "terminated str \<Longrightarrow> terminated acc \<Longrightarrow>
   strpbrk str acc =
     (let k = length (takeWhile (\<lambda>c. c \<notin> set (cstr acc)) (cstr str))
      in Inr (if k < length (cstr str) then Some k else None))"
  by (induction str acc rule: strpbrk.induct) (auto simp: accept_scan_ok Let_def)

lemma lfind_nul: "terminated b \<Longrightarrow> lfind b 0 = Inr (length (cstr b))"
  by (induction b) auto

definition tok_body :: "bytes \<Rightarrow> bytes \<Rightarrow> bytes" where
  "tok_body delim s = dropWhile (\<lambda>c. c \<in> set delim) s"

definition tok_first :: "bytes \<Rightarrow> bytes \<Rightarrow> bytes" where
  "tok_first delim s = takeWhile (\<lambda>c. c \<notin> set delim) (tok_body delim s)"

lemma strtok_r_skip:
  assumes "terminated (drop p buf)" "terminated delim" "length buf < 2 ^ 32"
  defines "a \<equiv> length (takeWhile (\<lambda>c. c \<in> set (cstr delim)) (cstr (drop p buf)))"
  shows "strspn (drop p buf) delim = Inr (of_nat a)" "unat (of_nat a :: u32) = a"
    "cstr (drop (p + a) buf) = tok_body (cstr delim) (cstr (drop p buf))"
    "terminated (drop (p + a) buf)"
proof -
  have le: "a \<le> length (cstr (drop p buf))"
    unfolding a_def by (rule length_takeWhile_le)
  show "strspn (drop p buf) delim = Inr (of_nat a)"
    using assms by (simp add: strspn_def strspn_loop_ok)
  have "length (cstr (drop p buf)) \<le> length buf"
    using length_cstr_less [OF assms(1)] by simp
  then show "unat (of_nat a :: u32) = a" using le assms(3) by (simp add: unat_of_nat32)
  show "cstr (drop (p + a) buf) = tok_body (cstr delim) (cstr (drop p buf))"
    using cstr_drop [OF le] by (simp add: tok_body_def dropWhile_eq_drop a_def add.commute)
  show "terminated (drop (p + a) buf)"
    using terminated_drop [OF assms(1) le] by (simp add: add.commute)
qed

text \<open>One call of \<^verbatim>\<open>strtok_r\<close>: the token, the rest and what the buffer keeps.\<close>

lemma strtok_r_none:
  assumes "terminated (drop p buf)" "terminated delim" "length buf < 2 ^ 32"
    and "tok_body (cstr delim) (cstr (drop p buf)) = []"
  shows "\<exists>q. strtok_r buf None delim p = Inr (buf, q, None)"
proof -
  define a where "a = length (takeWhile (\<lambda>c. c \<in> set (cstr delim)) (cstr (drop p buf)))"
  note sk = strtok_r_skip [OF assms(1-3), folded a_def]
  have "terminated (drop (p + a) buf)" and "cstr (drop (p + a) buf) = []"
    using sk assms(4) by auto
  then have "p + a < length buf" "buf ! (p + a) = 0"
    using cstr_nth_nul [of "drop (p + a) buf"] length_cstr_less [of "drop (p + a) buf"] by auto
  then show ?thesis by (simp add: strtok_r_def sk Let_def)
qed

lemma strtok_r_some:
  assumes "terminated (drop p buf)" "terminated delim" "length buf < 2 ^ 32"
    and "tok_body (cstr delim) (cstr (drop p buf)) \<noteq> []"
  defines "body \<equiv> tok_body (cstr delim) (cstr (drop p buf))"
    and "tok \<equiv> tok_first (cstr delim) (cstr (drop p buf))"
  shows "\<exists>buf' q k. strtok_r buf None delim p = Inr (buf', q, Some k)
     \<and> cstr (drop k buf') = tok \<and> cstr (drop q buf') = drop (Suc (length tok)) body
     \<and> terminated (drop q buf') \<and> length buf' = length buf \<and> take k buf' = take k buf
     \<and> p \<le> k \<and> k + length tok \<le> q \<and> q \<le> length buf"
proof -
  define a where "a = length (takeWhile (\<lambda>c. c \<in> set (cstr delim)) (cstr (drop p buf)))"
  note sk = strtok_r_skip [OF assms(1-3), folded a_def, folded body_def]
  let ?k = "p + a" and ?n = "length tok"
  let ?t = "drop ?k buf"
  have tok: "tok = takeWhile (\<lambda>c. c \<notin> set (cstr delim)) (cstr ?t)"
    using sk(3) by (simp add: tok_def tok_first_def body_def)
  have len: "length body < length ?t" using length_cstr_less [OF sk(4)] sk(3) by simp
  have nz: "cstr ?t \<noteq> []" using assms(4) sk(3) by (simp add: body_def)
  have k0: "buf ! ?k \<noteq> 0" using nz by (cases ?t) (auto simp: nth_via_drop split: if_splits)
  have kl: "?k < length buf" using len by simp
  have tokle: "?n \<le> length body" unfolding tok sk(3) [symmetric] by (rule length_takeWhile_le)
  have take_tok: "take ?n body = tok"
    unfolding tok sk(3) by (rule takeWhile_eq_take [symmetric])
  note pb = strpbrk_ok [OF sk(4) assms(2), folded tok, unfolded sk(3) Let_def]
  show ?thesis
  proof (cases "?n < length body")
    case True
    have upd: "drop ?k (buf[?k + ?n := 0]) = ?t[?n := 0]" by (simp add: drop_update_swap)
    have "cstr (?t[?n := 0]) = tok"
      using cstr_take_nul [of ?n ?t] sk(3) tokle len True take_tok by simp
    moreover have "drop (?k + ?n + 1) (buf[?k + ?n := 0]) = drop (Suc ?n) ?t"
      by (simp add: add.commute add.left_commute)
    moreover have "strtok_r buf None delim p = Inr (buf[?k + ?n := 0], ?k + ?n + 1, Some ?k)"
      using k0 kl True by (simp add: strtok_r_def sk Let_def pb)
    ultimately show ?thesis
      using True len cstr_drop [of "Suc ?n" ?t] terminated_drop [OF sk(4), of "Suc ?n"] sk(3) upd
      by (intro exI [of _ "buf[?k + ?n := 0]"] exI [of _ "?k + ?n + 1"] exI [of _ ?k]) auto
  next
    case False
    then have eq: "?n = length body" and "tok = body"
      using tokle take_tok by auto
    moreover have "strtok_r buf None delim p = Inr (buf, ?k + ?n, Some ?k)"
      using k0 kl eq sk(3) by (simp add: strtok_r_def sk Let_def pb lfind_nul)
    moreover have "cstr (drop (?k + ?n) buf) = []" "terminated (drop (?k + ?n) buf)"
      using cstr_drop [of ?n ?t] terminated_drop [OF sk(4), of ?n] sk(3) eq
      by (simp_all add: add.commute)
    ultimately show ?thesis using len sk(3)
      by (intro exI [of _ buf] exI [of _ "?k + ?n"] exI [of _ ?k]) auto
  qed
qed

section \<open>Decimal numerals\<close>

lemma sint8_range: "- 128 \<le> sint (c :: u8)" "sint c < 128"
  using sint_ge [of c] sint_less [of c] by simp_all

text \<open>The unsigned range test \<^verbatim>\<open>(unsigned)c - k < w\<close> on a promoted \<^verbatim>\<open>char\<close>.\<close>

lemma scast_range_test:
  fixes c :: u8
  assumes "0 \<le> k" "0 \<le> w" "k + w \<le> 128"
  shows "(scast c :: u32) - word_of_int k < word_of_int w \<longleftrightarrow> k \<le> sint c \<and> sint c < k + w"
proof -
  define m where "m = (sint c - k) mod 2 ^ 32"
  have "(scast c :: u32) - word_of_int k = word_of_int (sint c - k)"
    by (metis scast_eq wi_hom_sub)
  then have 1: "uint ((scast c :: u32) - word_of_int k) = m"
    by (simp only: uint_word_of_int m_def) simp
  have 2: "uint (word_of_int w :: u32) = w" using assms by (simp add: uint_word_of_int)
  have "m = (if k \<le> sint c then sint c - k else sint c - k + 2 ^ 32)"
    using sint8_range [of c] assms mod_pos_pos_trivial [of "sint c - k + 2 ^ 32" "2 ^ 32"]
    by (auto simp: m_def)
  then have "m < w \<longleftrightarrow> k \<le> sint c \<and> sint c < k + w"
    using sint8_range [of c] assms by simp linarith
  then show ?thesis by (simp only: word_less_def 1 2)
qed

lemma isdigit_range: "isdigit c \<longleftrightarrow> 48 \<le> sint c \<and> sint c \<le> 57"
  using scast_range_test [of 48 10 c] by (auto simp: isdigit_def)

lemma isspace_range: "isspace c \<longleftrightarrow> c = 32 \<or> 9 \<le> sint c \<and> sint c \<le> 13"
  using scast_range_test [of 9 5 c] by (auto simp: isspace_def)

definition dec_val :: "bytes \<Rightarrow> int" where
  "dec_val ds = foldl (\<lambda>n d. 10 * n + (sint d - 48)) 0 ds"

lemma dec_fold_mono:
  "\<forall>d\<in>set ds. isdigit d \<Longrightarrow> 0 \<le> n \<Longrightarrow> n \<le> foldl (\<lambda>n d. 10 * n + (sint d - 48)) n ds"
proof (induction ds arbitrary: n)
  case (Cons d ds)
  then have "0 \<le> 10 * n + (sint d - 48)" "n \<le> 10 * n + (sint d - 48)"
    by (auto simp: isdigit_range)
  moreover have "10 * n + (sint d - 48) \<le> foldl (\<lambda>n d. 10 * n + (sint d - 48)) (10 * n + (sint d - 48)) ds"
    using Cons.IH [of "10 * n + (sint d - 48)"] Cons.prems(1) calculation(1) by simp
  ultimately show ?case by simp
qed simp

lemma atoi_digits_ok:
  assumes "\<forall>d\<in>set ds. isdigit d" "\<not> isdigit c" "0 \<le> n"
    and "foldl (\<lambda>n d. 10 * n + (sint d - 48)) n ds \<le> 2 ^ 31"
  shows "atoi_digits (ds @ c # r) (- n) =
           Inr (- foldl (\<lambda>n d. 10 * n + (sint d - 48)) n ds)"
  using assms
proof (induction ds arbitrary: n)
  case (Cons d ds)
  let ?m = "10 * n + (sint d - 48)"
  have d: "isdigit d" "0 \<le> sint d - 48" "0 \<le> ?m" using Cons.prems by (auto simp: isdigit_range)
  have "?m \<le> 2 ^ 31"
    using dec_fold_mono [of ds ?m] d Cons.prems by auto
  then have "in_int (- (10 * n))" "in_int (- ?m)"
    using d Cons.prems(3) by (auto simp: in_int_def int_min_def int_max_def)
  moreover have "atoi_digits (ds @ c # r) (- ?m) = Inr (- foldl (\<lambda>n d. 10 * n + (sint d - 48)) ?m ds)"
    using Cons.IH [of ?m] Cons.prems d by simp
  ultimately show ?case using d by (simp add: algebra_simps)
qed simp

lemma skip_spaces_append:
  "\<forall>w\<in>set ws. isspace w \<Longrightarrow> \<not> isspace c \<Longrightarrow> skip_spaces (ws @ c # r) = c # r"
  by (induction ws) auto

lemma isdigit_not_space: "isdigit c \<Longrightarrow> \<not> isspace c \<and> c \<noteq> 45 \<and> c \<noteq> 43"
  by (auto simp: isspace_range isdigit_range)

lemma atoi_unsigned:
  assumes "\<forall>w\<in>set ws. isspace w" "\<forall>d\<in>set ds. isdigit d" "ds \<noteq> []" "\<not> isdigit c"
    and "dec_val ds \<le> int_max"
  shows "atoi (ws @ ds @ c # r) = Inr (dec_val ds)"
proof -
  obtain d ds' where ds: "ds = d # ds'" using assms(3) by (cases ds) auto
  have d: "\<not> isspace d" "d \<noteq> 45" "d \<noteq> 43" using assms(2) ds isdigit_not_space by auto
  have "0 \<le> dec_val ds" unfolding dec_val_def using dec_fold_mono [OF assms(2), of 0] by simp
  then have "in_int (dec_val ds)" using assms(5) by (simp add: in_int_def int_min_def)
  moreover have "skip_spaces (ws @ ds @ c # r) = ds @ c # r"
    using skip_spaces_append [OF assms(1) d(1)] ds by simp
  moreover have "atoi_digits (ds @ c # r) 0 = Inr (- dec_val ds)"
    using atoi_digits_ok [OF assms(2,4), of 0 r] assms(5)
    by (simp add: dec_val_def int_max_def)
  ultimately show ?thesis using d ds by (simp add: atoi_def)
qed

lemma atoi_negative:
  assumes "\<forall>w\<in>set ws. isspace w" "\<forall>d\<in>set ds. isdigit d" "\<not> isdigit c"
    and "dec_val ds \<le> 2 ^ 31"
  shows "atoi (ws @ 45 # ds @ c # r) = Inr (- dec_val ds)"
proof -
  have "skip_spaces (ws @ 45 # ds @ c # r) = 45 # ds @ c # r"
    using skip_spaces_append [OF assms(1), of 45] by (simp add: isspace_range)
  moreover have "atoi_digits (ds @ c # r) 0 = Inr (- dec_val ds)"
    using atoi_digits_ok [OF assms(2,3), of 0 r] assms(4) by (simp add: dec_val_def)
  ultimately show ?thesis by (simp add: atoi_def)
qed

section \<open>Properties\<close>

text \<open>C19: on NUL-terminated arguments \<^verbatim>\<open>strcmp\<close> never reads past the end of
  an object and returns 0 exactly for equal strings, -1 when the first string is
  smaller in the lexicographic order of unsigned bytes and 1 when it is greater.\<close>

theorem strcmp_lexicographic:
  assumes "terminated a" "terminated b"
  shows "\<exists>r. strcmp a b = Inr r \<and> (r = 0 \<longleftrightarrow> cstr a = cstr b)
     \<and> (r = -1 \<longleftrightarrow> ord_class.lexordp (cstr a) (cstr b))
     \<and> (r = 1 \<longleftrightarrow> ord_class.lexordp (cstr b) (cstr a))"
  using strcmp_sign [OF assms]
  by (auto simp: sign_cmp_def lexordp_irreflexive' dest: lexordp_antisym)
     (metis lexordp_linear)+

theorem strcmp_lexicographic_witness:
  "\<exists>r. strcmp [97, 98, 0] [97, 99, 0, 7] = Inr r \<and> r = -1"
  using strcmp_lexicographic [of "[97, 98, 0]" "[97, 99, 0, 7]"] by simp



end
