(* ===== verification/Kmalloc.thy ===== *)
theory Kmalloc
  imports Prelude
begin

text \<open>
  The size-class allocator of \<^verbatim>\<open>src/kernel/kmalloc.c\<close>: requests of at most
  4080 bytes are served from 4096-byte pages cut into equal blocks.  The C
  structures \<^verbatim>\<open>block_header_t\<close>, \<^verbatim>\<open>page_descriptor_t\<close> and \<^verbatim>\<open>size_descriptor_t\<close>
  are records, and the memory that holds them is a typed heap, one total
  function from addresses per structure: every address of kernel memory can
  be read, and an object nobody initialised has an arbitrary value.  The layout
  lemmas show that the objects the allocator touches do not overlap.  The
  statistics counters are kept as 32-bit words.
\<close>

section \<open>Data\<close>

record block_header =
  bh_flags :: u32
  bh_magic :: u32
  bh_vp :: u32

record page_descriptor =
  pd_next :: u32
  pd_firstfree :: u32
  pd_order :: int
  pd_nfree :: int

record size_descriptor =
  sd_firstfree :: u32
  sd_size :: int
  sd_nblocks :: int
  sd_nmallocs :: u32
  sd_nfrees :: u32
  sd_nbytesmalloced :: u32
  sd_npages :: u32

record slab =
  bh :: "u32 \<Rightarrow> block_header"
  pd :: "u32 \<Rightarrow> page_descriptor"
  sizes :: "size_descriptor list"
  kmalloc_start :: u32
  kmalloc_end :: u32

definition MF_USED :: u32 where "MF_USED = 0xffaa0055"
definition MF_FREE :: u32 where "MF_FREE = 0x0055ffaa"
definition BLOCK_MAGIC :: u32 where "BLOCK_MAGIC = 0x33445566"

definition size_table :: "(int \<times> int) list" where
  "size_table = [(32, 127), (64, 63), (128, 31), (252, 16), (508, 8), (1020, 4),
                 (2040, 2), (4080, 1), (0, 0)]"

definition init_sizes :: "size_descriptor list" where
  "init_sizes = map (\<lambda>(s, n). \<lparr>sd_firstfree = 0, sd_size = s, sd_nblocks = n,
     sd_nmallocs = 0, sd_nfrees = 0, sd_nbytesmalloced = 0, sd_npages = 0\<rparr>) size_table"

section \<open>Operations\<close>

text \<open>The loop of \<^verbatim>\<open>get_order\<close>; running into the terminating entry returns nothing.\<close>

fun get_order_loop :: "size_descriptor list \<Rightarrow> int \<Rightarrow> nat \<Rightarrow> nat res" where
  "get_order_loop [] sz order = Inl Out_of_bounds"
| "get_order_loop (d # ds) sz order =
     (if sd_size d = 0 then Inl No_return
      else if sz \<le> sd_size d then Inr order
      else get_order_loop ds sz (Suc order))"

definition get_order :: "slab \<Rightarrow> int \<Rightarrow> nat res" where
  "get_order st sz = get_order_loop (sizes st) (sz + 12) 0"

definition page_round :: "u32 \<Rightarrow> u32" where
  "page_round e = (if e AND 0xfffff000 \<noteq> 0 then (e AND 0xfffff000) + 0x1000 else e)"

definition get_free_page :: "slab \<Rightarrow> u32 \<times> slab" where
  "get_free_page st =
     (let ret = page_round (kmalloc_end st)
      in (ret, st\<lparr>kmalloc_end := ret + 0x1000\<rparr>))"

definition get_free_pages :: "u32 \<Rightarrow> slab \<Rightarrow> u32 \<times> slab" where
  "get_free_pages pages st =
     (let ret = page_round (kmalloc_end st)
      in (ret, st\<lparr>kmalloc_end := ret + pages * 0x1000\<rparr>))"

definition sizes_upd :: "nat \<Rightarrow> (size_descriptor \<Rightarrow> size_descriptor) \<Rightarrow> slab \<Rightarrow> slab" where
  "sizes_upd k f st = st\<lparr>sizes := (sizes st)[k := f (sizes st ! k)]\<rparr>"

definition pd_upd :: "u32 \<Rightarrow> (page_descriptor \<Rightarrow> page_descriptor) \<Rightarrow> slab \<Rightarrow> slab" where
  "pd_upd a f st = st\<lparr>pd := (pd st)(a := f (pd st a))\<rparr>"

definition bh_upd :: "u32 \<Rightarrow> (block_header \<Rightarrow> block_header) \<Rightarrow> slab \<Rightarrow> slab" where
  "bh_upd a f st = st\<lparr>bh := (bh st)(a := f (bh st a))\<rparr>"

text \<open>Taking the first free block \<open>p\<close> of the first page of the size class.\<close>

definition take_block :: "u32 \<Rightarrow> u32 \<Rightarrow> u32 \<Rightarrow> nat \<Rightarrow> slab \<Rightarrow> slab" where
  "take_block page p sz ord st =
     (let st = pd_upd page (\<lambda>d. d\<lparr>pd_firstfree := bh_vp (bh st p), pd_nfree := pd_nfree d - 1\<rparr>) st;
          st = (if pd_nfree (pd st page) = 0
                then pd_upd page (\<lambda>d. d\<lparr>pd_next := 0\<rparr>)
                       (sizes_upd ord (\<lambda>s. s\<lparr>sd_firstfree := pd_next (pd st page)\<rparr>) st)
                else st);
          st = sizes_upd ord (\<lambda>s. s\<lparr>sd_nmallocs := sd_nmallocs s + 1,
                                    sd_nbytesmalloced := sd_nbytesmalloced s + sz\<rparr>) st
      in bh_upd p (\<lambda>h. h\<lparr>bh_flags := MF_USED, bh_vp := sz\<rparr>) st)"

text \<open>Cutting a page into \<open>i\<close> blocks, chained from \<open>p\<close>.\<close>

fun init_blocks :: "nat \<Rightarrow> u32 \<Rightarrow> u32 \<Rightarrow> (u32 \<Rightarrow> block_header) \<Rightarrow> (u32 \<Rightarrow> block_header)" where
  "init_blocks (Suc (Suc i)) p sz h =
     (let h = h(p := \<lparr>bh_flags = MF_FREE, bh_magic = BLOCK_MAGIC, bh_vp = p + sz\<rparr>)
      in init_blocks (Suc i) (bh_vp (h p)) sz h)"
| "init_blocks _ p sz h = h(p := \<lparr>bh_flags = MF_FREE, bh_magic = BLOCK_MAGIC, bh_vp = 0\<rparr>)"

definition init_page :: "u32 \<Rightarrow> nat \<Rightarrow> slab \<Rightarrow> slab" where
  "init_page page ord st =
     (let sz = sd_size (sizes st ! ord); n = sd_nblocks (sizes st ! ord);
          st = sizes_upd ord (\<lambda>s. s\<lparr>sd_npages := sd_npages s + 1\<rparr>) st;
          st = st\<lparr>bh := init_blocks (nat n) (page + 16) (of_int sz) (bh st)\<rparr>;
          st = pd_upd page (\<lambda>d. \<lparr>pd_next = sd_firstfree (sizes st ! ord), pd_firstfree = page + 16,
                                 pd_order = int ord, pd_nfree = n\<rparr>) st
      in sizes_upd ord (\<lambda>s. s\<lparr>sd_firstfree := page\<rparr>) st)"

fun kmalloc_tries :: "nat \<Rightarrow> u32 \<Rightarrow> nat \<Rightarrow> slab \<Rightarrow> u32 \<times> slab" where
  "kmalloc_tries 0 sz ord st = (0, st)"
| "kmalloc_tries (Suc tries) sz ord st =
     (let page = sd_firstfree (sizes st ! ord); p = pd_firstfree (pd st page)
      in if page \<noteq> 0 \<and> p \<noteq> 0
         then if bh_flags (bh st p) = MF_FREE then (p + 12, take_block page p sz ord st)
              else (0, st)
         else let (page, st) = get_free_page st
              in if page = 0 then (0, st)
                 else kmalloc_tries tries sz ord (init_page page ord st))"

text \<open>\<^verbatim>\<open>__kmalloc\<close> for a request of at most 4080 bytes.\<close>

definition kmalloc_small :: "u32 \<Rightarrow> slab \<Rightarrow> (u32 \<times> slab) res" where
  "kmalloc_small sz st =
     rbind (get_order st (uint sz)) (\<lambda>ord. Inr (kmalloc_tries 3 sz ord st))"

text \<open>\<^verbatim>\<open>__kfree\<close> of a block whose header carries the magic number.\<close>

definition kfree_small :: "u32 \<Rightarrow> slab \<Rightarrow> slab res" where
  "kfree_small p st =
     (let header = p - 12; page = header AND 0xfffff000;
          order = pd_order (pd st page); sz = bh_vp (bh st header)
      in if order < 0 then Inr st
         else let st = bh_upd header (\<lambda>h. h\<lparr>bh_flags := MF_FREE,
                                            bh_vp := pd_firstfree (pd st page)\<rparr>) st;
                  st = pd_upd page (\<lambda>d. d\<lparr>pd_firstfree := header, pd_nfree := pd_nfree d + 1\<rparr>) st
              in if length (sizes st) \<le> nat order then Inl Out_of_bounds
                 else let st = (if pd_nfree (pd st page) = 1 \<and> pd_next (pd st page) = 0
                                then sizes_upd (nat order) (\<lambda>s. s\<lparr>sd_firstfree := page\<rparr>)
                                       (pd_upd page (\<lambda>d. d\<lparr>pd_next := sd_firstfree (sizes st ! nat order)\<rparr>) st)
                                else st)
                      in Inr (sizes_upd (nat order)
                           (\<lambda>s. s\<lparr>sd_nfrees := sd_nfrees s + 1,
                                  sd_nbytesmalloced := sd_nbytesmalloced s - sz\<rparr>) st))"

section \<open>Layout of a page\<close>

definition bsize :: "nat \<Rightarrow> nat" where "bsize k = nat (fst (size_table ! k))"
definition bcount :: "nat \<Rightarrow> nat" where "bcount k = nat (snd (size_table ! k))"

definition blk :: "u32 \<Rightarrow> nat \<Rightarrow> nat \<Rightarrow> u32" where
  "blk pg k i = pg + 16 + of_nat i * of_nat (bsize k)"

definition blocks :: "u32 \<Rightarrow> nat \<Rightarrow> u32 set" where
  "blocks pg k = blk pg k ` {..<bcount k}"

lemma table_cases:
  assumes "(k :: nat) < 8"
  shows "k = 0 \<or> k = 1 \<or> k = 2 \<or> k = 3 \<or> k = 4 \<or> k = 5 \<or> k = 6 \<or> k = 7"
  using assms by linarith

lemma table_fit: "k < 8 \<Longrightarrow> 32 \<le> bsize k \<and> 0 < bcount k \<and> 16 + bcount k * bsize k \<le> 4096"
  by (drule table_cases) (auto simp: bsize_def bcount_def size_table_def)

lemma table_entry: "k < 8 \<Longrightarrow> size_table ! k = (int (bsize k), int (bcount k))"
  by (drule table_cases) (auto simp: bsize_def bcount_def size_table_def)

lemma blk_fit:
  assumes "k < 8" "i < bcount k"
  shows "16 + i * bsize k + bsize k \<le> 4096"
proof -
  have "i * bsize k + bsize k \<le> bcount k * bsize k"
    using assms(2) by (metis Suc_leI add.commute mult_Suc mult_le_mono1)
  then show ?thesis using table_fit [OF assms(1)] by simp
qed

lemma unat_blk:
  assumes "page_aligned pg" "k < 8" "i < bcount k"
  shows "unat (blk pg k i) = unat pg + 16 + i * bsize k"
proof -
  let ?off = "16 + i * bsize k"
  have lt: "?off < 4096" using blk_fit [OF assms(2,3)] table_fit [OF assms(2)] by simp
  then have off: "unat (of_nat ?off :: u32) = ?off" by (intro unat_of_nat32) simp
  have "blk pg k i = pg + of_nat ?off" by (simp add: blk_def)
  then show ?thesis using unat_page_off [OF assms(1), of "of_nat ?off"] lt
    by (simp only: off)
qed

lemma blk_page:
  assumes "page_aligned pg" "k < 8" "i < bcount k"
  shows "page_base (blk pg k i) = pg"
proof -
  have fit: "16 + i * bsize k + bsize k \<le> 4096" "32 \<le> bsize k"
    using blk_fit [OF assms(2,3)] table_fit [OF assms(2)] by auto
  obtain q where "unat pg = 4096 * q" using assms(1) by (rule page_alignedE)
  then have "unat (page_base (blk pg k i)) = unat pg"
    using fit by (simp add: unat_page_base unat_blk [OF assms])
  then show ?thesis by (rule word_unat_eq_iff [THEN iffD2])
qed

lemma blk_inj:
  assumes "page_aligned pg" "k < 8" "i < bcount k" "j < bcount k" "blk pg k i = blk pg k j"
  shows "i = j"
proof -
  have "i * bsize k = j * bsize k"
    using unat_blk [OF assms(1-3)] unat_blk [OF assms(1,2,4)] unfolding assms(5) by linarith
  then show ?thesis using table_fit [OF assms(2)] by simp
qed

lemma blk_nonzero: "page_aligned pg \<Longrightarrow> k < 8 \<Longrightarrow> i < bcount k \<Longrightarrow> blk pg k i \<noteq> 0"
  using unat_blk [of pg k i] by auto

lemma blocks_page: "page_aligned pg \<Longrightarrow> k < 8 \<Longrightarrow> b \<in> blocks pg k \<Longrightarrow> page_base b = pg"
  by (auto simp: blocks_def blk_page)

text \<open>Different blocks occupy disjoint address ranges inside their pages.\<close>

lemma blocks_disjoint:
  assumes "page_aligned pg" "k < 8" "b \<in> blocks pg k"
    and "page_aligned pg'" "k' < 8" "b' \<in> blocks pg' k'"
    and "b \<noteq> b'" "pg = pg' \<longrightarrow> k = k'"
  shows "unat b + bsize k \<le> unat b' \<or> unat b' + bsize k' \<le> unat b"
proof -
  obtain i j where ij: "b = blk pg k i" "i < bcount k" "b' = blk pg' k' j" "j < bcount k'"
    using assms(3,6) by (auto simp: blocks_def)
  note ub = unat_blk [OF assms(1,2) ij(2)] unat_blk [OF assms(4,5) ij(4)]
  note fit = blk_fit [OF assms(2) ij(2)] blk_fit [OF assms(5) ij(4)]
  show ?thesis
  proof (cases "pg = pg'")
    case True
    then have "k = k'" using assms(8) by simp
    moreover from True this have "i \<noteq> j" using assms(7) ij by auto
    then have "i < j \<or> j < i" by (simp add: nat_neq_iff)
    moreover have "\<And>x y. x < y \<Longrightarrow> x * bsize k + bsize k \<le> y * bsize k"
      by (metis Suc_leI add.commute mult_Suc mult_le_mono1)
    ultimately show ?thesis using True ij ub by auto
  next
    case False
    obtain p q where "unat pg = 4096 * p" "unat pg' = 4096 * q"
      using assms(1,4) by (metis page_alignedE)
    moreover from this False have "p < q \<or> q < p"
      by (metis nat_neq_iff word_unat_eq_iff)
    ultimately show ?thesis using ij ub fit by auto
  qed
qed

section \<open>Chains\<close>

fun bh_list :: "(u32 \<Rightarrow> block_header) \<Rightarrow> u32 \<Rightarrow> u32 list \<Rightarrow> bool" where
  "bh_list h p [] \<longleftrightarrow> p = 0"
| "bh_list h p (x # xs) \<longleftrightarrow> p = x \<and> x \<noteq> 0 \<and> bh_list h (bh_vp (h x)) xs"

fun pd_list :: "(u32 \<Rightarrow> page_descriptor) \<Rightarrow> u32 \<Rightarrow> u32 list \<Rightarrow> bool" where
  "pd_list d p [] \<longleftrightarrow> p = 0"
| "pd_list d p (x # xs) \<longleftrightarrow> p = x \<and> x \<noteq> 0 \<and> pd_list d (pd_next (d x)) xs"

lemma bh_list_cong:
  "(\<And>x. x \<in> set xs \<Longrightarrow> bh_vp (h x) = bh_vp (h' x)) \<Longrightarrow> bh_list h p xs = bh_list h' p xs"
  by (induction xs arbitrary: p) auto

lemma pd_list_cong:
  "(\<And>x. x \<in> set xs \<Longrightarrow> pd_next (d x) = pd_next (d' x)) \<Longrightarrow> pd_list d p xs = pd_list d' p xs"
  by (induction xs arbitrary: p) auto

lemma init_blocks_step:
  "init_blocks (Suc (Suc i)) p sz h =
   init_blocks (Suc i) (p + sz) sz (h(p := \<lparr>bh_flags = MF_FREE, bh_magic = BLOCK_MAGIC, bh_vp = p + sz\<rparr>))"
  by (simp add: Let_def)

lemma init_blocks_other:
  "(\<And>i. i \<le> n \<Longrightarrow> x \<noteq> p + of_nat i * sz) \<Longrightarrow> init_blocks (Suc n) p sz h x = h x"
proof (induction n arbitrary: p h)
  case 0
  then show ?case using "0.prems" [of 0] by simp
next
  case (Suc n)
  have "x \<noteq> p" using Suc.prems [of 0] by simp
  moreover have "\<And>j. j \<le> n \<Longrightarrow> x \<noteq> p + sz + of_nat j * sz"
    using Suc.prems [of "Suc j" for j] by (simp add: algebra_simps)
  ultimately show ?case unfolding init_blocks_step using Suc.IH [of "p + sz"] by simp
qed

lemma upt_shift_blocks:
  fixes p sz :: u32
  shows "map (\<lambda>i. p + of_nat i * sz) [0..<Suc n] = p # map (\<lambda>i. p + sz + of_nat i * sz) [0..<n]"
proof -
  have "[0..<Suc n] = 0 # map Suc [0..<n]"
    by (simp only: map_Suc_upt upt_conv_Cons [OF zero_less_Suc])
  then show ?thesis by (simp add: algebra_simps comp_def)
qed

lemma init_blocks_chain:
  fixes p sz :: u32
  defines "bs \<equiv> \<lambda>n p. map (\<lambda>i. p + of_nat i * sz) [0..<Suc n]"
  assumes "distinct (bs n p)" "0 \<notin> set (bs n p)"
  shows "bh_list (init_blocks (Suc n) p sz h) p (bs n p)
    \<and> (\<forall>x\<in>set (bs n p). bh_flags (init_blocks (Suc n) p sz h x) = MF_FREE
         \<and> bh_magic (init_blocks (Suc n) p sz h x) = BLOCK_MAGIC)"
  using assms(2,3)
proof (induction n arbitrary: p h)
  case 0
  then show ?case by (simp add: bs_def)
next
  case (Suc n)
  let ?h = "h(p := \<lparr>bh_flags = MF_FREE, bh_magic = BLOCK_MAGIC, bh_vp = p + sz\<rparr>)"
  have eq: "bs (Suc n) p = p # bs n (p + sz)" unfolding bs_def by (rule upt_shift_blocks)
  have p: "p \<notin> set (bs n (p + sz))" "p \<noteq> 0" and
    rest: "distinct (bs n (p + sz))" "0 \<notin> set (bs n (p + sz))"
    using Suc.prems unfolding eq by auto
  have "init_blocks (Suc n) (p + sz) sz ?h p = ?h p"
    using p(1) by (intro init_blocks_other) (auto simp: bs_def simp del: upt_Suc)
  moreover have "bh_list (init_blocks (Suc n) (p + sz) sz ?h) (p + sz) (bs n (p + sz))
    \<and> (\<forall>x\<in>set (bs n (p + sz)). bh_flags (init_blocks (Suc n) (p + sz) sz ?h x) = MF_FREE
         \<and> bh_magic (init_blocks (Suc n) (p + sz) sz ?h x) = BLOCK_MAGIC)"
    by (rule Suc.IH [OF rest])
  ultimately show ?case using p unfolding eq init_blocks_step by simp
qed

section \<open>Invariant\<close>

text \<open>
  The ghost arguments of the invariant: \<open>P\<close> gives the size class of every page
  cut so far, \<open>F\<close> its free blocks in chain order, \<open>Q\<close> the chain of pages with
  a free block of every size class.
\<close>

definition page_inv :: "slab \<Rightarrow> u32 \<Rightarrow> nat \<Rightarrow> u32 list \<Rightarrow> bool" where
  "page_inv st pg k fs \<longleftrightarrow>
     k < 8 \<and> page_aligned pg \<and> pg \<noteq> 0 \<and> unat pg + 4096 \<le> unat (kmalloc_end st)
   \<and> pd_order (pd st pg) = int k \<and> pd_nfree (pd st pg) = int (length fs)
   \<and> bh_list (bh st) (pd_firstfree (pd st pg)) fs \<and> distinct fs \<and> set fs \<subseteq> blocks pg k
   \<and> (\<forall>b\<in>set fs. bh_flags (bh st b) = MF_FREE)
   \<and> (\<forall>b\<in>blocks pg k. bh_magic (bh st b) = BLOCK_MAGIC)
   \<and> (fs = [] \<longrightarrow> pd_next (pd st pg) = 0)"

definition class_inv :: "slab \<Rightarrow> (u32 \<rightharpoonup> nat) \<Rightarrow> (u32 \<Rightarrow> u32 list) \<Rightarrow> nat \<Rightarrow> u32 list \<Rightarrow> bool" where
  "class_inv st P F k q \<longleftrightarrow>
     pd_list (pd st) (sd_firstfree (sizes st ! k)) q \<and> distinct q
   \<and> set q = {pg. P pg = Some k \<and> F pg \<noteq> []}"

definition sizes_ok :: "slab \<Rightarrow> bool" where
  "sizes_ok st \<longleftrightarrow> map (\<lambda>d. (sd_size d, sd_nblocks d)) (sizes st) = size_table"

definition slab_inv :: "slab \<Rightarrow> (u32 \<rightharpoonup> nat) \<Rightarrow> (u32 \<Rightarrow> u32 list) \<Rightarrow> (nat \<Rightarrow> u32 list) \<Rightarrow> bool" where
  "slab_inv st P F Q \<longleftrightarrow> sizes_ok st
   \<and> (\<forall>pg k. P pg = Some k \<longrightarrow> page_inv st pg k (F pg))
   \<and> (\<forall>k<8. class_inv st P F k (Q k))"

definition live :: "(u32 \<rightharpoonup> nat) \<Rightarrow> (u32 \<Rightarrow> u32 list) \<Rightarrow> u32 set" where
  "live P F = {b. \<exists>pg k. P pg = Some k \<and> b \<in> blocks pg k \<and> b \<notin> set (F pg)}"

lemma slab_invD:
  assumes "slab_inv st P F Q"
  shows "sizes_ok st" "P pg = Some k \<Longrightarrow> page_inv st pg k (F pg)"
    "k < 8 \<Longrightarrow> class_inv st P F k (Q k)"
  using assms by (auto simp: slab_inv_def)

lemma page_inv_frame:
  assumes "page_inv st pg k fs" "pd st' pg = pd st pg"
    and "\<And>b. b \<in> blocks pg k \<Longrightarrow> bh st' b = bh st b"
    and "unat (kmalloc_end st) \<le> unat (kmalloc_end st')"
  shows "page_inv st' pg k fs"
proof -
  have "bh_list (bh st') (pd_firstfree (pd st pg)) fs = bh_list (bh st) (pd_firstfree (pd st pg)) fs"
    using assms(1,3) by (intro bh_list_cong) (auto simp: page_inv_def)
  then show ?thesis using assms unfolding page_inv_def by auto
qed

lemma page_inv_block:
  assumes "page_inv st pg k fs" "b \<in> blocks pg k"
  shows "page_base b = pg"
  using assms by (auto simp: page_inv_def intro: blocks_page)

lemma page_inv_payload:
  assumes "page_inv st pg k fs" "b \<in> blocks pg k"
  shows "unat (b + 12) = unat b + 12" "b + 12 \<noteq> 0"
proof -
  obtain i where i: "b = blk pg k i" "i < bcount k" using assms(2) by (auto simp: blocks_def)
  have k: "k < 8" and al: "page_aligned pg" using assms(1) by (auto simp: page_inv_def)
  have "unat b + 32 \<le> unat pg + 4096"
    using unat_blk [OF al k i(2)] blk_fit [OF k i(2)] table_fit [OF k] unfolding i(1) by linarith
  then have "unat b + 12 < 2 ^ 32" using page_aligned_room [OF al] by linarith
  then show u: "unat (b + 12) = unat b + 12" by (subst unat_add_lem [THEN iffD1]) simp_all
  show "b + 12 \<noteq> 0"
  proof
    assume "b + 12 = 0"
    then have "unat (b + 12) = 0" by (simp only: unat_0)
    then show False using u by simp
  qed
qed

lemma class_inv_frame:
  assumes "class_inv st P F k q" "sd_firstfree (sizes st' ! k) = sd_firstfree (sizes st ! k)"
    and "\<And>pg. P pg = Some k \<Longrightarrow> pd_next (pd st' pg) = pd_next (pd st pg)"
    and "\<And>pg. P' pg = Some k \<longleftrightarrow> P pg = Some k" "\<And>pg. P pg = Some k \<Longrightarrow> F' pg = [] \<longleftrightarrow> F pg = []"
  shows "class_inv st' P' F' k q"
proof -
  have "pd_list (pd st') (sd_firstfree (sizes st ! k)) q = pd_list (pd st) (sd_firstfree (sizes st ! k)) q"
    using assms(1,3) by (intro pd_list_cong) (auto simp: class_inv_def)
  then show ?thesis using assms unfolding class_inv_def by auto
qed

lemma sizes_ok_length: "sizes_ok st \<Longrightarrow> length (sizes st) = 9"
  by (drule arg_cong [of _ _ length, OF sizes_ok_def [THEN iffD1]]) (simp add: size_table_def)

lemma sizes_ok_entry:
  assumes "sizes_ok st" "k < 8"
  shows "sd_size (sizes st ! k) = int (bsize k)" "sd_nblocks (sizes st ! k) = int (bcount k)"
proof -
  have "map (\<lambda>d. (sd_size d, sd_nblocks d)) (sizes st) ! k = size_table ! k"
    using assms(1) by (simp add: sizes_ok_def)
  then show "sd_size (sizes st ! k) = int (bsize k)" "sd_nblocks (sizes st ! k) = int (bcount k)"
    using sizes_ok_length [OF assms(1)] assms(2) by (simp_all add: table_entry)
qed

lemma sizes_ok_upd:
  assumes "sizes_ok st" "\<And>d. sd_size (f d) = sd_size d" "\<And>d. sd_nblocks (f d) = sd_nblocks d"
  shows "sizes_ok (sizes_upd k f st)"
proof -
  have "map (\<lambda>d. (sd_size d, sd_nblocks d)) ((sizes st)[k := f (sizes st ! k)])
      = map (\<lambda>d. (sd_size d, sd_nblocks d)) (sizes st)"
    using assms(2,3) by (cases "k < length (sizes st)")
      (auto intro!: nth_equalityI simp: nth_list_update list_update_beyond)
  then show ?thesis using assms(1) by (simp add: sizes_ok_def sizes_upd_def)
qed

lemma upd_sel [simp]:
  "bh (sizes_upd k f st) = bh st" "pd (sizes_upd k f st) = pd st"
  "kmalloc_end (sizes_upd k f st) = kmalloc_end st"
  "kmalloc_start (sizes_upd k f st) = kmalloc_start st"
  "bh (pd_upd a g st) = bh st" "sizes (pd_upd a g st) = sizes st"
  "kmalloc_end (pd_upd a g st) = kmalloc_end st" "kmalloc_start (pd_upd a g st) = kmalloc_start st"
  "pd (bh_upd b i st) = pd st" "sizes (bh_upd b i st) = sizes st"
  "kmalloc_end (bh_upd b i st) = kmalloc_end st" "kmalloc_start (bh_upd b i st) = kmalloc_start st"
  "pd (pd_upd a g st) = (pd st)(a := g (pd st a))"
  "bh (bh_upd b i st) = (bh st)(b := i (bh st b))"
  by (simp_all add: sizes_upd_def pd_upd_def bh_upd_def)

lemma sizes_upd_nth:
  "k < length (sizes st) \<Longrightarrow> sizes (sizes_upd k f st) ! j = (if j = k then f (sizes st ! k) else sizes st ! j)"
  by (simp add: sizes_upd_def nth_list_update)

lemma sizes_upd_length [simp]: "length (sizes (sizes_upd k f st)) = length (sizes st)"
  by (simp add: sizes_upd_def)

lemma sizes_ok_cong: "sizes st' = sizes st \<Longrightarrow> sizes_ok st' = sizes_ok st"
  by (simp add: sizes_ok_def)

section \<open>Allocation keeps the invariant\<close>

lemma take_block_sel:
  "bh (take_block page p sz k st) = (bh st)(p := (bh st p)\<lparr>bh_flags := MF_USED, bh_vp := sz\<rparr>)"
  "pd (take_block page p sz k st) = (pd st)(page := (pd st page)\<lparr>
     pd_firstfree := bh_vp (bh st p), pd_nfree := pd_nfree (pd st page) - 1,
     pd_next := if pd_nfree (pd st page) = 1 then 0 else pd_next (pd st page)\<rparr>)"
  "kmalloc_end (take_block page p sz k st) = kmalloc_end st"
  "kmalloc_start (take_block page p sz k st) = kmalloc_start st"
  by (auto simp: take_block_def Let_def)

lemma take_block_sizes:
  assumes "sizes_ok st" "k < 8"
  shows "sizes_ok (take_block page p sz k st)"
    "sd_firstfree (sizes (take_block page p sz k st) ! j) =
       (if j = k \<and> pd_nfree (pd st page) = 1 then pd_next (pd st page) else sd_firstfree (sizes st ! j))"
proof -
  have len: "length (sizes st) = 9" by (rule sizes_ok_length [OF assms(1)])
  then show "sd_firstfree (sizes (take_block page p sz k st) ! j) =
       (if j = k \<and> pd_nfree (pd st page) = 1 then pd_next (pd st page) else sd_firstfree (sizes st ! j))"
    using assms(2) by (simp add: take_block_def Let_def sizes_upd_nth)
  show "sizes_ok (take_block page p sz k st)"
    unfolding take_block_def Let_def
    by (auto intro!: sizes_ok_upd simp: sizes_ok_cong [of "bh_upd _ _ _"] sizes_ok_cong [of "pd_upd _ _ _"] assms)
qed

lemma take_block_inv:
  assumes inv: "slab_inv st P F Q" and k: "k < 8" and Q: "Q k = page # qs" and F: "F page = p # fs"
  shows "slab_inv (take_block page p sz k st) P (F(page := fs))
           (Q(k := if fs = [] then qs else page # qs))"
proof -
  let ?st = "take_block page p sz k st"
  note ci = slab_invD(3) [OF inv k, unfolded Q class_inv_def]
  have P: "P page = Some k" using ci by auto
  have pi: "page_inv st page k (p # fs)" using slab_invD(2) [OF inv P] F by simp
  have nf: "pd_nfree (pd st page) = 1 \<longleftrightarrow> fs = []" using pi by (auto simp: page_inv_def)
  have pb: "page_base p = page" using pi page_inv_block [OF pi] by (auto simp: page_inv_def)
  have "page_inv ?st pg j ((F(page := fs)) pg)" if "P pg = Some j" for pg j
  proof (cases "pg = page")
    case True
    then have "j = k" using that P by simp
    moreover have "bh_list (bh ?st) (bh_vp (bh st p)) fs = bh_list (bh st) (bh_vp (bh st p)) fs"
      using pi by (intro bh_list_cong) (auto simp: page_inv_def take_block_sel)
    ultimately show ?thesis using pi True nf
      by (auto simp: page_inv_def take_block_sel)
  next
    case False
    moreover have "b \<noteq> p" if "b \<in> blocks pg j" for b
      using False page_inv_block [OF slab_invD(2) [OF inv \<open>P pg = Some j\<close>] that] pb by auto
    ultimately show ?thesis
      using slab_invD(2) [OF inv that] by (auto simp: take_block_sel intro!: page_inv_frame [of st])
  qed
  moreover have "class_inv ?st P (F(page := fs)) j ((Q(k := if fs = [] then qs else page # qs)) j)"
    if "j < 8" for j
  proof (cases "j = k")
    case True
    have "pd_list (pd ?st) x qs = pd_list (pd st) x qs" for x
      using ci by (intro pd_list_cong) (auto simp: take_block_sel)
    with True ci nf P F show ?thesis
      by (auto simp: class_inv_def take_block_sizes [OF slab_invD(1) [OF inv] k] take_block_sel)
  next
    case False
    then show ?thesis using slab_invD(3) [OF inv that] P
      by (auto simp: take_block_sizes [OF slab_invD(1) [OF inv] k] take_block_sel
          intro!: class_inv_frame [of st P F] split: if_splits)
  qed
  ultimately show ?thesis
    using take_block_sizes(1) [OF slab_invD(1) [OF inv] k] by (simp add: slab_inv_def)
qed

lemma live_take:
  assumes inv: "slab_inv st P F Q" and "P page = Some k" "F page = p # fs"
  shows "p \<notin> live P F" "live P (F(page := fs)) = insert p (live P F)"
proof -
  have pi: "page_inv st page k (p # fs)" using slab_invD(2) [OF inv assms(2)] assms(3) by simp
  then have p: "p \<in> blocks page k" "p \<notin> set fs" by (auto simp: page_inv_def)
  have own: "pg = page" if "P pg = Some j" "p \<in> blocks pg j" for pg j
    using page_inv_block [OF slab_invD(2) [OF inv that(1)] that(2)] page_inv_block [OF pi p(1)] by simp
  show "p \<notin> live P F"
  proof
    assume "p \<in> live P F"
    then obtain pg j where "P pg = Some j" "p \<in> blocks pg j" "p \<notin> set (F pg)"
      by (auto simp: live_def)
    then show False using own assms(3) by force
  qed
  have "b \<in> live P (F(page := fs)) \<longleftrightarrow> b = p \<or> b \<in> live P F" for b
  proof (cases "b = p")
    case True
    then show ?thesis using assms(2) p by (auto simp: live_def)
  next
    case False
    then have "b \<notin> set ((F(page := fs)) pg) \<longleftrightarrow> b \<notin> set (F pg)" for pg
      using assms(3) by simp
    then show ?thesis using False unfolding live_def by simp
  qed
  then show "live P (F(page := fs)) = insert p (live P F)" by blast
qed

section \<open>A fresh page\<close>

lemma unat_page_round:
  assumes "4096 \<le> unat e" "unat e + 4096 < 2 ^ 32"
  shows "unat (page_round e) = unat e div 4096 * 4096 + 4096"
proof -
  have pb: "unat (page_base e) = unat e div 4096 * 4096" by (rule unat_page_base)
  have "0 < unat e div 4096" using assms(1) by (simp add: div_greater_zero_iff)
  then have "page_base e \<noteq> 0" using pb by auto
  moreover have "unat (page_base e) + 4096 < 2 ^ 32"
    using pb assms(2) div_times_less_eq_dividend [of "unat e" 4096] by linarith
  then have "unat (page_base e + 0x1000) = unat (page_base e) + 4096"
    by (subst unat_add_lem [THEN iffD1]) simp_all
  ultimately show ?thesis using pb by (simp add: page_round_def)
qed

lemma page_round_ok:
  assumes "4096 \<le> unat e" "unat e + 4096 < 2 ^ 32"
  shows "page_aligned (page_round e)" "unat e < unat (page_round e)"
    "unat (page_round e) \<le> unat e + 4096"
proof -
  have "unat e div 4096 * 4096 + unat e mod 4096 = unat e" "unat e mod 4096 < 4096"
    by simp_all
  then show "unat e < unat (page_round e)" "unat (page_round e) \<le> unat e + 4096"
    using unat_page_round [OF assms] by linarith+
  show "page_aligned (page_round e)"
    using unat_page_round [OF assms] by (simp add: page_aligned_def)
qed

lemma init_page_sel:
  assumes "sizes_ok st" "k < 8"
  shows "bh (init_page page k st) = init_blocks (bcount k) (page + 16) (of_nat (bsize k)) (bh st)"
    "pd (init_page page k st) = (pd st)(page := \<lparr>pd_next = sd_firstfree (sizes st ! k),
       pd_firstfree = page + 16, pd_order = int k, pd_nfree = int (bcount k)\<rparr>)"
    "kmalloc_end (init_page page k st) = kmalloc_end st"
    "kmalloc_start (init_page page k st) = kmalloc_start st"
    "sd_firstfree (sizes (init_page page k st) ! j) = (if j = k then page else sd_firstfree (sizes st ! j))"
    "sizes_ok (init_page page k st)"
proof -
  note e = sizes_ok_entry [OF assms] and len = sizes_ok_length [OF assms(1)]
  show "bh (init_page page k st) = init_blocks (bcount k) (page + 16) (of_nat (bsize k)) (bh st)"
    by (simp add: init_page_def Let_def e)
  show "pd (init_page page k st) = (pd st)(page := \<lparr>pd_next = sd_firstfree (sizes st ! k),
       pd_firstfree = page + 16, pd_order = int k, pd_nfree = int (bcount k)\<rparr>)"
    using len assms(2) by (simp add: init_page_def Let_def e sizes_upd_nth)
  show "kmalloc_end (init_page page k st) = kmalloc_end st"
    "kmalloc_start (init_page page k st) = kmalloc_start st"
    by (simp_all add: init_page_def Let_def)
  show "sd_firstfree (sizes (init_page page k st) ! j) = (if j = k then page else sd_firstfree (sizes st ! j))"
    using len assms(2) by (simp add: init_page_def Let_def sizes_upd_nth)
  show "sizes_ok (init_page page k st)"
    unfolding init_page_def Let_def
    by (auto intro!: sizes_ok_upd simp: assms sizes_ok_cong [of "pd_upd _ _ _"] sizes_ok_cong [of "bh_update _ _"])
qed

definition page_blocks :: "u32 \<Rightarrow> nat \<Rightarrow> u32 list" where
  "page_blocks pg k = map (blk pg k) [0..<bcount k]"

lemma set_page_blocks [simp]: "set (page_blocks pg k) = blocks pg k"
  by (auto simp: page_blocks_def blocks_def)

lemma init_page_new:
  assumes "sizes_ok st" "k < 8" "page_aligned pg" "pg \<noteq> 0" "unat pg + 4096 \<le> unat (kmalloc_end st)"
  shows "page_inv (init_page pg k st) pg k (page_blocks pg k)"
    "x \<notin> blocks pg k \<Longrightarrow> bh (init_page pg k st) x = bh st x"
proof -
  note sel = init_page_sel [OF assms(1,2)]
  obtain n where n: "bcount k = Suc n" using table_fit [OF assms(2)] by (cases "bcount k") auto
  have eq: "page_blocks pg k = map (\<lambda>i. pg + 16 + of_nat i * of_nat (bsize k)) [0..<Suc n]"
    by (simp add: page_blocks_def blk_def n)
  have ne: "page_blocks pg k \<noteq> []" by (simp add: page_blocks_def n)
  have d: "distinct (page_blocks pg k)"
    using blk_inj [OF assms(3,2)] by (auto simp: page_blocks_def distinct_map inj_on_def)
  moreover have "0 \<notin> set (page_blocks pg k)"
    using blk_nonzero [OF assms(3,2)] by (auto simp: blocks_def)
  ultimately show "page_inv (init_page pg k st) pg k (page_blocks pg k)"
    using init_blocks_chain [of "pg + 16" "of_nat (bsize k)" n "bh st", folded eq] assms ne
    by (auto simp: page_inv_def sel n [symmetric]) (simp_all add: page_blocks_def)
  show "bh (init_page pg k st) x = bh st x" if "x \<notin> blocks pg k"
    unfolding sel n using that by (intro init_blocks_other) (auto simp: blocks_def blk_def n)
qed

lemma init_page_inv:
  assumes inv: "slab_inv st P F Q" and k: "k < 8"
    and pg: "page_aligned pg" "pg \<noteq> 0" "unat pg + 4096 \<le> unat (kmalloc_end st)" "P pg = None"
  shows "slab_inv (init_page pg k st) (P(pg \<mapsto> k)) (F(pg := page_blocks pg k)) (Q(k := pg # Q k))"
proof -
  let ?st = "init_page pg k st"
  note ok = slab_invD(1) [OF inv] and sel = init_page_sel [OF slab_invD(1) [OF inv] k]
  note new = init_page_new [OF ok k pg(1-3)]
  have ne: "page_blocks pg k \<noteq> []" using table_fit [OF k] by (simp add: page_blocks_def)
  have "page_inv ?st x j ((F(pg := page_blocks pg k)) x)" if "(P(pg \<mapsto> k)) x = Some j" for x j
  proof (cases "x = pg")
    case True
    then show ?thesis using that new(1) by simp
  next
    case False
    then have Px: "P x = Some j" using that by simp
    have "bh ?st b = bh st b" if b: "b \<in> blocks x j" for b
      using new(2) [of b] page_inv_block [OF slab_invD(2) [OF inv Px] b] blocks_page [OF pg(1) k, of b] False
      by blast
    then show ?thesis using slab_invD(2) [OF inv Px] False
      by (auto intro!: page_inv_frame [of st] simp: sel)
  qed
  moreover have "class_inv ?st (P(pg \<mapsto> k)) (F(pg := page_blocks pg k)) j ((Q(k := pg # Q k)) j)"
    if "j < 8" for j
  proof (cases "j = k")
    case True
    note ci = slab_invD(3) [OF inv k, unfolded class_inv_def]
    have "pd_list (pd ?st) x (Q k) = pd_list (pd st) x (Q k)" for x
      using ci pg(4) by (intro pd_list_cong) (auto simp: sel)
    then show ?thesis using True ci pg(2,4) ne by (auto simp: class_inv_def sel)
  next
    case False
    then show ?thesis using slab_invD(3) [OF inv that] pg(4)
      by (auto simp: sel intro!: class_inv_frame [of st P F] split: if_splits)
  qed
  ultimately show ?thesis using sel(6) by (simp add: slab_inv_def)
qed

lemma live_init_page:
  assumes "P pg = None"
  shows "live (P(pg \<mapsto> k)) (F(pg := page_blocks pg k)) = live P F"
proof -
  have "b \<in> live (P(pg \<mapsto> k)) (F(pg := page_blocks pg k)) \<longleftrightarrow> b \<in> live P F" for b
    using assms by (auto simp: live_def split: if_splits) (metis option.distinct(1))
  then show ?thesis by blast
qed

section \<open>Requests\<close>

lemma get_order_loop_first:
  assumes "i < length ds" "sz \<le> sd_size (ds ! i)" "sd_size (ds ! i) \<noteq> 0"
    and "\<And>j. j < i \<Longrightarrow> sd_size (ds ! j) < sz \<and> sd_size (ds ! j) \<noteq> 0"
  shows "get_order_loop ds sz n = Inr (n + i)"
  using assms
proof (induction ds arbitrary: i n)
  case (Cons d ds)
  show ?case
  proof (cases i)
    case 0
    then show ?thesis using Cons.prems by simp
  next
    case (Suc m)
    have "get_order_loop ds sz (Suc n) = Inr (Suc n + m)"
      using Cons.prems Suc by (intro Cons.IH) force+
    moreover have "sd_size d < sz" "sd_size d \<noteq> 0" using Cons.prems(4) [of 0] Suc by auto
    ultimately show ?thesis using Suc by simp
  qed
qed simp

lemma get_order_ok:
  assumes "sizes_ok st" "sz \<le> 4068"
  shows "\<exists>k<8. get_order st sz = Inr k \<and> sz + 12 \<le> int (bsize k)
    \<and> (\<forall>j<k. int (bsize j) < sz + 12)"
proof -
  define k where "k = (LEAST k. sz + 12 \<le> int (bsize k))"
  have 7: "sz + 12 \<le> int (bsize 7)" using assms(2) by (simp add: bsize_def size_table_def)
  have k: "sz + 12 \<le> int (bsize k)" unfolding k_def by (rule LeastI [of "\<lambda>k. sz + 12 \<le> int (bsize k)", OF 7])
  have k8: "k < 8" using Least_le [of "\<lambda>k. sz + 12 \<le> int (bsize k)", OF 7] by (simp add: k_def)
  have min: "int (bsize j) < sz + 12" if "j < k" for j
    using not_less_Least [of j] that unfolding k_def by force
  have e: "sd_size (sizes st ! j) = int (bsize j)" "sd_size (sizes st ! j) \<noteq> 0" if "j \<le> k" for j
    using sizes_ok_entry(1) [OF assms(1), of j] table_fit [of j] that k8 by auto
  have "get_order st sz = Inr (0 + k)" unfolding get_order_def
    using k k8 min sizes_ok_length [OF assms(1)] e
    by (intro get_order_loop_first) auto
  then show ?thesis using k k8 min by auto
qed

lemma kmalloc_tries_hit:
  assumes inv: "slab_inv st P F Q" and k: "k < 8" and Q: "Q k = page # qs"
  shows "\<exists>p fs. F page = p # fs \<and> kmalloc_tries (Suc n) sz k st = (p + 12, take_block page p sz k st)
    \<and> P page = Some k"
proof -
  note ci = slab_invD(3) [OF inv k, unfolded Q class_inv_def]
  then have P: "P page = Some k" and "F page \<noteq> []" and sf: "sd_firstfree (sizes st ! k) = page" "page \<noteq> 0"
    by auto
  then obtain p fs where F: "F page = p # fs" by (cases "F page") auto
  then have "pd_firstfree (pd st page) = p" "p \<noteq> 0" "bh_flags (bh st p) = MF_FREE"
    using slab_invD(2) [OF inv P] by (auto simp: page_inv_def)
  then show ?thesis using F P sf by simp
qed

definition heap_room :: "nat \<Rightarrow> slab \<Rightarrow> bool" where
  "heap_room n st \<longleftrightarrow> 4096 \<le> unat (kmalloc_end st) \<and> unat (kmalloc_end st) + 0x2000 * n < 2 ^ 32"

lemma get_free_page_ok:
  assumes "heap_room (Suc n) st" "get_free_page st = (page, st')"
  shows "page_aligned page" "unat (kmalloc_end st) \<le> unat page" "page \<noteq> 0"
    "unat (kmalloc_end st') = unat page + 4096" "heap_room n st'"
    "bh st' = bh st" "pd st' = pd st" "sizes st' = sizes st" "kmalloc_start st' = kmalloc_start st"
proof -
  let ?e = "kmalloc_end st"
  have e: "4096 \<le> unat ?e" "unat ?e + 4096 < 2 ^ 32" and r: "unat ?e + 0x2000 + 0x2000 * n < 2 ^ 32"
    using assms(1) by (auto simp: heap_room_def)
  note pr = page_round_ok [OF e]
  have [simp]: "page = page_round ?e" "st' = st\<lparr>kmalloc_end := page_round ?e + 0x1000\<rparr>"
    using assms(2) by (auto simp: get_free_page_def Let_def)
  have "unat (page_round ?e) + 4096 < 2 ^ 32" using pr(3) r by linarith
  then show end': "unat (kmalloc_end st') = unat page + 4096"
    by simp (subst unat_add_lem [THEN iffD1], simp_all)
  show "page_aligned page" "unat ?e \<le> unat page" using pr by simp_all
  show "page \<noteq> 0" using pr(2) by auto
  show "heap_room n st'" unfolding heap_room_def end' using pr r e by simp
  show "bh st' = bh st" "pd st' = pd st" "sizes st' = sizes st" "kmalloc_start st' = kmalloc_start st"
    by simp_all
qed

lemma slab_inv_bump:
  assumes "slab_inv st P F Q" "bh st' = bh st" "pd st' = pd st" "sizes st' = sizes st"
    "unat (kmalloc_end st) \<le> unat (kmalloc_end st')"
  shows "slab_inv st' P F Q"
  using assms page_inv_frame [of st _ _ _ st'] class_inv_frame [of st P F _ _ st' P F]
  by (auto simp: slab_inv_def sizes_ok_def)

text \<open>What a successful request gives: a block that was not in use and is big enough.\<close>

definition alloc_post :: "slab \<Rightarrow> (u32 \<rightharpoonup> nat) \<Rightarrow> (u32 \<Rightarrow> u32 list) \<Rightarrow> u32 \<Rightarrow> u32 \<Rightarrow> slab \<Rightarrow> bool" where
  "alloc_post st P F sz p st' \<longleftrightarrow>
     (\<exists>P' F' Q' pg k. slab_inv st' P' F' Q' \<and> live P' F' = insert (p - 12) (live P F)
      \<and> p - 12 \<notin> live P F \<and> P' pg = Some k \<and> p - 12 \<in> blocks pg k \<and> unat sz + 12 \<le> bsize k
      \<and> P \<subseteq>\<^sub>m P'
      \<and> bh_vp (bh st' (p - 12)) = sz \<and> bh_flags (bh st' (p - 12)) = MF_USED
      \<and> (\<forall>b\<in>live P F. bh st' b = bh st b))"

lemma alloc_post_hit:
  assumes inv: "slab_inv st P F Q" and k: "k < 8" and Q: "Q k = page # qs"
    and F: "F page = p # fs" and P: "P page = Some k" and sz: "unat sz + 12 \<le> bsize k"
  shows "alloc_post st P F sz (p + 12) (take_block page p sz k st)"
proof -
  have "p \<in> blocks page k" using slab_invD(2) [OF inv P] F by (simp add: page_inv_def)
  then show ?thesis
    unfolding alloc_post_def
    using take_block_inv [OF inv k Q F, of sz] live_take [of st P F Q, OF inv P F] P sz
    by (intro exI [of _ P] exI [of _ "F(page := fs)"]
        exI [of _ "Q(k := if fs = [] then qs else page # qs)"] exI [of _ page] exI [of _ k])
       (auto simp: take_block_sel)
qed

lemma alloc_post_mono:
  assumes "alloc_post st1 P1 F1 sz p st'" "live P1 F1 = live P F" "P \<subseteq>\<^sub>m P1"
    and "\<And>b. b \<in> live P F \<Longrightarrow> bh st1 b = bh st b"
  shows "alloc_post st P F sz p st'"
proof -
  from assms(1) obtain P' F' Q' pg k where
    "slab_inv st' P' F' Q'" "live P' F' = insert (p - 12) (live P1 F1)" "p - 12 \<notin> live P1 F1"
    "P' pg = Some k" "p - 12 \<in> blocks pg k" "unat sz + 12 \<le> bsize k" "P1 \<subseteq>\<^sub>m P'"
    "bh_vp (bh st' (p - 12)) = sz" "bh_flags (bh st' (p - 12)) = MF_USED"
    "\<forall>b\<in>live P1 F1. bh st' b = bh st1 b"
    unfolding alloc_post_def by blast
  moreover from this have "P \<subseteq>\<^sub>m P'" using assms(3) map_le_trans by blast
  ultimately show ?thesis unfolding alloc_post_def
    using assms(2,4) by (intro exI [of _ P'] exI [of _ F'] exI [of _ Q'] exI [of _ pg] exI [of _ k]) simp
qed

lemma kmalloc_small_post:
  assumes inv: "slab_inv st P F Q" and room: "heap_room (Suc n) st" and sz: "unat sz \<le> 4068"
  shows "\<exists>p st'. kmalloc_small sz st = Inr (p, st') \<and> alloc_post st P F sz p st' \<and> heap_room n st'
    \<and> kmalloc_start st' = kmalloc_start st \<and> unat (kmalloc_end st) \<le> unat (kmalloc_end st')"
proof -
  have us: "uint sz = int (unat sz)" by (rule uint_nat)
  then have "uint sz \<le> 4068" using sz by linarith
  then obtain k where k: "k < 8" "get_order st (uint sz) = Inr k" "uint sz + 12 \<le> int (bsize k)"
    using get_order_ok [OF slab_invD(1) [OF inv]] by blast
  then have fit: "unat sz + 12 \<le> bsize k" using us by linarith
  have call: "kmalloc_small sz st = Inr (kmalloc_tries 3 sz k st)" using k by (simp add: kmalloc_small_def)
  show ?thesis
  proof (cases "Q k")
    case (Cons page qs)
    from kmalloc_tries_hit [OF inv k(1) Cons, of 2 sz] obtain p fs where
      "F page = p # fs" "P page = Some k" "kmalloc_tries 3 sz k st = (p + 12, take_block page p sz k st)"
      by (auto simp: numeral_3_eq_3 numeral_2_eq_2)
    then show ?thesis using alloc_post_hit [OF inv k(1) Cons _ _ fit] call room
      by (auto simp: take_block_sel heap_room_def)
  next
    case Nil
    obtain page st1 where g: "get_free_page st = (page, st1)" by fastforce
    note gp = get_free_page_ok [OF room g]
    have inv1: "slab_inv st1 P F Q" using slab_inv_bump [OF inv, of st1] gp by simp
    have new: "P page = None"
      using slab_invD(2) [OF inv, of page] gp(2) by (cases "P page") (auto simp: page_inv_def)
    let ?st = "init_page page k st1" and ?P = "P(page \<mapsto> k)" and ?F = "F(page := page_blocks page k)"
    have inv2: "slab_inv ?st ?P ?F (Q(k := [page]))"
      using init_page_inv [OF inv1 k(1) gp(1,3) _ new] gp(4) Nil by simp
    from kmalloc_tries_hit [OF inv2 k(1), of page "[]" 1 sz] obtain p fs where
      p: "?F page = p # fs" "?P page = Some k" "kmalloc_tries 2 sz k ?st = (p + 12, take_block page p sz k ?st)"
      by (auto simp: numeral_2_eq_2)
    have "sd_firstfree (sizes st ! k) = 0"
      using slab_invD(3) [OF inv k(1)] Nil by (simp add: class_inv_def)
    then have "kmalloc_tries 3 sz k st = (p + 12, take_block page p sz k ?st)"
      using g gp(3) p(3) by (simp add: numeral_3_eq_3 numeral_2_eq_2)
    moreover have "alloc_post ?st ?P ?F sz (p + 12) (take_block page p sz k ?st)"
      by (rule alloc_post_hit [OF inv2 k(1) _ p(1,2) fit]) simp
    moreover have "bh ?st b = bh st b" if "b \<in> live P F" for b
    proof -
      from that obtain pg j where pj: "P pg = Some j" "b \<in> blocks pg j" by (auto simp: live_def)
      have "page_base b = pg" using page_inv_block [OF slab_invD(2) [OF inv pj(1)] pj(2)] .
      then have "b \<notin> blocks page k" using blocks_page [OF gp(1) k(1)] pj(1) new by auto
      then show ?thesis
        using init_page_new(2) [OF slab_invD(1) [OF inv1] k(1) gp(1,3)] gp(4,6) by simp
    qed
    moreover have "P \<subseteq>\<^sub>m ?P" using new by (auto simp: map_le_def)
    ultimately have "alloc_post st P F sz (p + 12) (take_block page p sz k ?st)"
      and "kmalloc_small sz st = Inr (p + 12, take_block page p sz k ?st)"
      using call live_init_page [of P page k F] new by (auto intro: alloc_post_mono)
    then show ?thesis using gp(2,4,5,9)
      by (auto simp: take_block_sel heap_room_def init_page_sel [OF slab_invD(1) [OF inv1] k(1)])
  qed
qed

section \<open>Release keeps the invariant\<close>

lemma kfree_small_sel:
  assumes "sizes_ok st" "page_base (p - 12) = pg" "pd_order (pd st pg) = int k" "k < 8"
    and "pd_nfree (pd st pg) = 0 \<Longrightarrow> pd_next (pd st pg) = 0"
  shows "\<exists>st'. kfree_small p st = Inr st' \<and> sizes_ok st'
    \<and> bh st' = (bh st)(p - 12 := (bh st (p - 12))\<lparr>bh_flags := MF_FREE, bh_vp := pd_firstfree (pd st pg)\<rparr>)
    \<and> pd st' = (pd st)(pg := (pd st pg)\<lparr>pd_firstfree := p - 12, pd_nfree := pd_nfree (pd st pg) + 1,
         pd_next := if pd_nfree (pd st pg) = 0 then sd_firstfree (sizes st ! k) else pd_next (pd st pg)\<rparr>)
    \<and> (\<forall>j. sd_firstfree (sizes st' ! j) =
         (if j = k \<and> pd_nfree (pd st pg) = 0 then pg else sd_firstfree (sizes st ! j)))
    \<and> kmalloc_end st' = kmalloc_end st \<and> kmalloc_start st' = kmalloc_start st"
proof -
  have len: "length (sizes st) = 9" by (rule sizes_ok_length [OF assms(1)])
  obtain st' where st': "kfree_small p st = Inr st'"
    using assms(2-4) len by (simp add: kfree_small_def Let_def)
  then have "sizes_ok st'"
    using assms(2-4) len unfolding kfree_small_def Let_def
    by (auto intro!: sizes_ok_upd simp: sizes_ok_cong [of "pd_upd _ _ _"] sizes_ok_cong [of "bh_upd _ _ _"] assms(1)
        split: if_splits)
  moreover have "bh st' = (bh st)(p - 12 := (bh st (p - 12))\<lparr>bh_flags := MF_FREE, bh_vp := pd_firstfree (pd st pg)\<rparr>)"
    "kmalloc_end st' = kmalloc_end st \<and> kmalloc_start st' = kmalloc_start st"
    using st' assms(2-4) len by (auto simp: kfree_small_def Let_def split: if_splits)
  moreover have "pd st' = (pd st)(pg := (pd st pg)\<lparr>pd_firstfree := p - 12, pd_nfree := pd_nfree (pd st pg) + 1,
         pd_next := if pd_nfree (pd st pg) = 0 then sd_firstfree (sizes st ! k) else pd_next (pd st pg)\<rparr>)"
    using st' assms(2-5) len by (auto simp: kfree_small_def Let_def split: if_splits)
  moreover have "sd_firstfree (sizes st' ! j) =
         (if j = k \<and> pd_nfree (pd st pg) = 0 then pg else sd_firstfree (sizes st ! j))" for j
    using st' assms(2-5) len by (auto simp: kfree_small_def Let_def sizes_upd_nth split: if_splits)
  ultimately show ?thesis using st' by blast
qed

lemma live_free:
  assumes inv: "slab_inv st P F Q" and "P pg = Some k" "h \<in> blocks pg k"
  shows "live P (F(pg := h # F pg)) = live P F - {h}"
proof -
  have own: "x = pg" if "P x = Some j" "h \<in> blocks x j" for x j
    using page_inv_block [OF slab_invD(2) [OF inv that(1)] that(2)]
      page_inv_block [OF slab_invD(2) [OF inv assms(2)] assms(3)] by simp
  have "b \<in> live P (F(pg := h # F pg)) \<longleftrightarrow> b \<in> live P F \<and> b \<noteq> h" for b
  proof (cases "b = h")
    case True
    then show ?thesis using own by (auto simp: live_def)
  next
    case False
    then have "b \<notin> set ((F(pg := h # F pg)) x) \<longleftrightarrow> b \<notin> set (F x)" for x by simp
    then show ?thesis using False unfolding live_def by simp
  qed
  then show ?thesis by blast
qed

lemma kfree_small_inv:
  assumes inv: "slab_inv st P F Q" and h: "p - 12 \<in> live P F"
  shows "\<exists>st' F' Q'. kfree_small p st = Inr st' \<and> slab_inv st' P F' Q'
    \<and> live P F' = live P F - {p - 12} \<and> (\<forall>b\<in>live P F - {p - 12}. bh st' b = bh st b)
    \<and> kmalloc_end st' = kmalloc_end st \<and> kmalloc_start st' = kmalloc_start st"
proof -
  let ?h = "p - 12"
  obtain pg k where P: "P pg = Some k" and hb: "?h \<in> blocks pg k" "?h \<notin> set (F pg)"
    using h by (auto simp: live_def)
  have pi: "page_inv st pg k (F pg)" by (rule slab_invD(2) [OF inv P])
  have pb: "page_base ?h = pg" by (rule page_inv_block [OF pi hb(1)])
  have k: "k < 8" and al: "page_aligned pg" and nf: "pd_nfree (pd st pg) = 0 \<longleftrightarrow> F pg = []"
    using pi by (auto simp: page_inv_def)
  obtain i where "?h = blk pg k i" "i < bcount k" using hb(1) by (auto simp: blocks_def)
  then have h0: "?h \<noteq> 0" using blk_nonzero [OF al k] by simp
  obtain st' where st': "kfree_small p st = Inr st'" "sizes_ok st'"
    "bh st' = (bh st)(?h := (bh st ?h)\<lparr>bh_flags := MF_FREE, bh_vp := pd_firstfree (pd st pg)\<rparr>)"
    "pd st' = (pd st)(pg := (pd st pg)\<lparr>pd_firstfree := ?h, pd_nfree := pd_nfree (pd st pg) + 1,
       pd_next := if pd_nfree (pd st pg) = 0 then sd_firstfree (sizes st ! k) else pd_next (pd st pg)\<rparr>)"
    "\<forall>j. sd_firstfree (sizes st' ! j) =
       (if j = k \<and> pd_nfree (pd st pg) = 0 then pg else sd_firstfree (sizes st ! j))"
    "kmalloc_end st' = kmalloc_end st" "kmalloc_start st' = kmalloc_start st"
    using kfree_small_sel [OF slab_invD(1) [OF inv] pb _ k] pi by (auto simp: page_inv_def)
  have "page_inv st' x j ((F(pg := ?h # F pg)) x)" if Px: "P x = Some j" for x j
  proof (cases "x = pg")
    case True
    have "bh_list (bh st') (pd_firstfree (pd st pg)) (F pg) = bh_list (bh st) (pd_firstfree (pd st pg)) (F pg)"
      using hb(2) by (intro bh_list_cong) (auto simp: st'(3))
    with True pi hb h0 Px P show ?thesis by (auto simp: page_inv_def st'(3,4,6))
  next
    case False
    have "b \<noteq> ?h" if "b \<in> blocks x j" for b
      using False page_inv_block [OF slab_invD(2) [OF inv Px] that] pb by auto
    with False show ?thesis using slab_invD(2) [OF inv Px]
      by (auto simp: st'(3,4,6) intro!: page_inv_frame [of st])
  qed
  moreover have "class_inv st' P (F(pg := ?h # F pg)) j ((Q(k := if F pg = [] then pg # Q k else Q k)) j)"
    if "j < 8" for j
  proof (cases "j = k")
    case True
    note ci = slab_invD(3) [OF inv k, unfolded class_inv_def]
    have pg0: "pg \<noteq> 0" using pi by (simp add: page_inv_def)
    have "pd_list (pd st') x (Q k) = pd_list (pd st) x (Q k)" for x
      using ci nf by (intro pd_list_cong) (auto simp: st'(4))
    with True ci nf P pg0 show ?thesis by (auto simp: class_inv_def st'(4,5))
  next
    case False
    then show ?thesis using slab_invD(3) [OF inv that] P
      by (auto simp: st'(4,5) intro!: class_inv_frame [of st P F] split: if_splits)
  qed
  ultimately have "slab_inv st' P (F(pg := ?h # F pg)) (Q(k := if F pg = [] then pg # Q k else Q k))"
    using st'(2) by (simp add: slab_inv_def)
  then show ?thesis using st' live_free [OF inv P hb(1)]
    by (intro exI [of _ st'] exI [of _ "F(pg := ?h # F pg)"]
        exI [of _ "Q(k := if F pg = [] then pg # Q k else Q k)"]) auto
qed

end
