(* ===== verification/DList.thy ===== *)
theory DList
  imports Prelude
begin

text \<open>
  The doubly linked list of \<^verbatim>\<open>src/common/list.c\<close>.  Nodes live in an explicit heap,
  a partial map from addresses to \<^verbatim>\<open>list_node_t\<close> records, so that the aliasing of
  \<^verbatim>\<open>prev\<close> and \<^verbatim>\<open>next\<close> pointers is part of the model; following a pointer to no
  node is a failure.  The operations that create a node take the kernel
  allocator as an argument; the interface they rely on is the locale
  \<open>allocator\<close>.
\<close>

section \<open>Data and operations\<close>

record list_node =
  ln_prev :: u32
  ln_next :: u32
  ln_value :: u32

record list_t =
  l_head :: u32
  l_tail :: u32
  l_length :: int

type_synonym nodes = "u32 \<rightharpoonup> list_node"
type_synonym 'k kmalloc_fn = "u32 \<Rightarrow> 'k \<Rightarrow> (u32 \<times> 'k) res"

definition deref :: "nodes \<Rightarrow> u32 \<Rightarrow> list_node res" where
  "deref h a = (case h a of None \<Rightarrow> Inl Null_deref | Some n \<Rightarrow> Inr n)"

definition upd_node :: "u32 \<Rightarrow> (list_node \<Rightarrow> list_node) \<Rightarrow> nodes \<Rightarrow> nodes res" where
  "upd_node a f h = rmap (\<lambda>n. h(a \<mapsto> f n)) (deref h a)"

definition list_create :: list_t where
  "list_create = \<lparr>l_head = 0, l_tail = 0, l_length = 0\<rparr>"

definition list_delete :: "list_t \<Rightarrow> nodes \<Rightarrow> u32 \<Rightarrow> (list_t \<times> nodes) res" where
  "list_delete l h n =
     rbind (deref h n) (\<lambda>nd.
     let l = (if n = l_head l then l\<lparr>l_head := ln_next nd\<rparr> else l);
         l = (if n = l_tail l then l\<lparr>l_tail := ln_prev nd\<rparr> else l)
     in rbind (if ln_prev nd \<noteq> 0
               then upd_node (ln_prev nd) (\<lambda>m. m\<lparr>ln_next := ln_next nd\<rparr>) h else Inr h) (\<lambda>h.
        rbind (deref h n) (\<lambda>nd.
        rbind (if ln_next nd \<noteq> 0
               then upd_node (ln_next nd) (\<lambda>m. m\<lparr>ln_prev := ln_prev nd\<rparr>) h else Inr h) (\<lambda>h.
        Inr (l\<lparr>l_length := l_length l - 1\<rparr>, h)))))"

fun list_nth_loop :: "nodes \<Rightarrow> u32 \<Rightarrow> nat \<Rightarrow> u32 res" where
  "list_nth_loop h n 0 = Inr n"
| "list_nth_loop h n (Suc i) = rbind (deref h n) (\<lambda>nd. list_nth_loop h (ln_next nd) i)"

text \<open>
  \<^verbatim>\<open>size_t i < int index\<close> compares unsigned, so a negative index walks
  \<open>2 ^ 32 + index\<close> nodes.
\<close>

definition list_remove :: "list_t \<Rightarrow> nodes \<Rightarrow> int \<Rightarrow> (list_t \<times> nodes) res" where
  "list_remove l h index =
     (if index > l_length l then Inr (l, h)
      else rbind (list_nth_loop h (l_head l) (unat (of_int index :: u32))) (list_delete l h))"

definition list_push_back ::
  "'k kmalloc_fn \<Rightarrow> u32 \<Rightarrow> list_t \<times> nodes \<times> 'k \<Rightarrow> (list_t \<times> nodes \<times> 'k) res" where
  "list_push_back alloc value s = (case s of (l, h, k) \<Rightarrow>
     rbind (alloc 12 k) (\<lambda>(n, k).
     if n = 0 then Inl Null_deref
     else let h = h(n \<mapsto> \<lparr>ln_prev = 0, ln_next = 0, ln_value = value\<rparr>)
       in if l_tail l = 0
          then Inr (l\<lparr>l_head := n, l_tail := n, l_length := l_length l + 1\<rparr>, h, k)
          else rbind (upd_node (l_tail l) (\<lambda>m. m\<lparr>ln_next := n\<rparr>) h) (\<lambda>h.
               rbind (upd_node n (\<lambda>m. m\<lparr>ln_prev := l_tail l\<rparr>) h) (\<lambda>h.
               Inr (l\<lparr>l_tail := n, l_length := l_length l + 1\<rparr>, h, k)))))"

definition list_push_front ::
  "'k kmalloc_fn \<Rightarrow> u32 \<Rightarrow> list_t \<times> nodes \<times> 'k \<Rightarrow> (list_t \<times> nodes \<times> 'k) res" where
  "list_push_front alloc value s = (case s of (l, h, k) \<Rightarrow>
     rbind (alloc 12 k) (\<lambda>(n, k).
     if n = 0 then Inl Null_deref
     else let h = h(n \<mapsto> \<lparr>ln_prev = 0, ln_next = 0, ln_value = value\<rparr>)
       in if l_head l = 0
          then Inr (l\<lparr>l_tail := n, l_head := n, l_length := l_length l + 1\<rparr>, h, k)
          else rbind (upd_node (l_head l) (\<lambda>m. m\<lparr>ln_prev := n\<rparr>) h) (\<lambda>h.
               rbind (upd_node n (\<lambda>m. m\<lparr>ln_next := l_head l\<rparr>) h) (\<lambda>h.
               Inr (l\<lparr>l_head := n, l_length := l_length l + 1\<rparr>, h, k)))))"

definition list_pop_front :: "list_t \<Rightarrow> nodes \<Rightarrow> (u32 \<times> list_t \<times> nodes) res" where
  "list_pop_front l h =
     (if l_head l = 0 then Inr (0, l, h)
      else let n = l_head l in rbind (list_delete l h n) (\<lambda>(l, h). Inr (n, l, h)))"

definition list_pop_back :: "list_t \<Rightarrow> nodes \<Rightarrow> (u32 \<times> list_t \<times> nodes) res" where
  "list_pop_back l h =
     (if l_tail l = 0 then Inr (0, l, h)
      else let n = l_tail l in rbind (list_delete l h n) (\<lambda>(l, h). Inr (n, l, h)))"

definition list_insert_after ::
  "'k kmalloc_fn \<Rightarrow> u32 \<Rightarrow> u32 \<Rightarrow> list_t \<times> nodes \<times> 'k \<Rightarrow> (list_t \<times> nodes \<times> 'k) res" where
  "list_insert_after alloc prev value s =
     (if prev = 0 then list_push_front alloc value s
      else case s of (l, h, k) \<Rightarrow>
        rbind (alloc 12 k) (\<lambda>(n, k).
        if n = 0 then Inl Null_deref
        else let h = h(n \<mapsto> \<lparr>ln_prev = 0, ln_next = 0, ln_value = value\<rparr>)
          in rbind (deref h prev) (\<lambda>p.
             rbind (upd_node n (\<lambda>m. m\<lparr>ln_next := ln_next p, ln_prev := prev\<rparr>) h) (\<lambda>h.
             rbind (upd_node prev (\<lambda>m. m\<lparr>ln_next := n\<rparr>) h) (\<lambda>h.
             Inr (l\<lparr>l_length := l_length l + 1\<rparr>, h, k))))))"

text \<open>\<^verbatim>\<open>list_destroy\<close> releases the values; the nodes themselves stay allocated.\<close>

fun list_destroy_loop :: "(u32 \<Rightarrow> 'k \<Rightarrow> 'k res) \<Rightarrow> nat \<Rightarrow> u32 \<Rightarrow> nodes \<Rightarrow> 'k \<Rightarrow> 'k res" where
  "list_destroy_loop free 0 n h k = (if n = 0 then Inr k else Inl Diverges)"
| "list_destroy_loop free (Suc fuel) n h k =
     (if n = 0 then Inr k
      else rbind (deref h n) (\<lambda>nd. rbind (free (ln_value nd) k) (list_destroy_loop free fuel (ln_next nd) h)))"

definition list_destroy :: "(u32 \<Rightarrow> 'k \<Rightarrow> 'k res) \<Rightarrow> nat \<Rightarrow> list_t \<Rightarrow> nodes \<Rightarrow> 'k \<Rightarrow> 'k res" where
  "list_destroy free fuel l h k = list_destroy_loop free fuel (l_head l) h k"

text \<open>
  The dequeue pattern of the kernel's queues (\<^verbatim>\<open>sched_dequeue\<close>, \<^verbatim>\<open>wakeup_from\<close>): pop the
  last node, read its value, release the node.  The result 0 is \<^verbatim>\<open>NULL\<close>.
\<close>

definition take_back ::
  "(u32 \<Rightarrow> 'k \<Rightarrow> 'k res) \<Rightarrow> list_t \<times> nodes \<times> 'k \<Rightarrow> (u32 \<times> (list_t \<times> nodes \<times> 'k)) res" where
  "take_back free s = (case s of (l, h, k) \<Rightarrow>
     rbind (list_pop_back l h) (\<lambda>(n, l, h).
     if n = 0 then Inr (0, (l, h, k))
     else rbind (deref h n) (\<lambda>nd. rbind (free n k) (\<lambda>k. Inr (ln_value nd, (l, h, k))))))"

section \<open>The list a structure represents\<close>

text \<open>\<open>dseg h p a xs q\<close>: from \<open>a\<close> the heap holds the nodes \<open>xs\<close> (address and value),
  the first one pointing back to \<open>p\<close> and the last one pointing on to \<open>q\<close>.\<close>

fun dseg :: "nodes \<Rightarrow> u32 \<Rightarrow> u32 \<Rightarrow> (u32 \<times> u32) list \<Rightarrow> u32 \<Rightarrow> bool" where
  "dseg h p a [] q \<longleftrightarrow> a = q"
| "dseg h p a ((n, v) # xs) q \<longleftrightarrow>
     a = n \<and> n \<noteq> 0 \<and> (\<exists>nx. h n = Some \<lparr>ln_prev = p, ln_next = nx, ln_value = v\<rparr> \<and> dseg h n nx xs q)"

definition last_addr :: "u32 \<Rightarrow> (u32 \<times> u32) list \<Rightarrow> u32" where
  "last_addr p xs = (if xs = [] then p else fst (last xs))"

definition dlist :: "list_t \<Rightarrow> nodes \<Rightarrow> (u32 \<times> u32) list \<Rightarrow> bool" where
  "dlist l h xs \<longleftrightarrow> dseg h 0 (l_head l) xs 0 \<and> distinct (map fst xs)
     \<and> l_tail l = last_addr 0 xs \<and> l_length l = int (length xs)"

lemma last_addr_simps [simp]:
  "last_addr p [] = p" "last_addr p (xs @ [x]) = fst x"
  "last_addr p (x # xs) = last_addr (fst x) xs"
  by (auto simp: last_addr_def)

lemma last_addr_append [simp]: "last_addr p (xs @ ys) = last_addr (last_addr p xs) ys"
  by (auto simp: last_addr_def)


lemma dseg_append:
  "dseg h p a (xs @ ys) q \<longleftrightarrow> (\<exists>b. dseg h p a xs b \<and> dseg h (last_addr p xs) b ys q)"
proof (induction xs arbitrary: p a)
  case (Cons x xs)
  then show ?case by (cases x) auto
qed simp

lemma dseg_frame:
  "(\<And>a. a \<in> fst ` set xs \<Longrightarrow> h' a = h a) \<Longrightarrow> dseg h' p a xs q = dseg h p a xs q"
  by (induction xs arbitrary: p a) auto

lemma dseg_nonzero: "dseg h p a xs q \<Longrightarrow> 0 \<notin> fst ` set xs"
  by (induction xs arbitrary: p a) force+

lemma last_addr_nonzero: "dseg h p a xs q \<Longrightarrow> xs \<noteq> [] \<Longrightarrow> last_addr p xs \<noteq> 0 \<and> last_addr p xs \<in> fst ` set xs"
  using dseg_nonzero [of h p a xs q] by (auto simp: last_addr_def image_iff)

lemma dlist_frame:
  "(\<And>a. a \<in> fst ` set xs \<Longrightarrow> h' a = h a) \<Longrightarrow> dlist l h' xs = dlist l h xs"
  using dseg_frame [of xs h' h 0 "l_head l" 0] by (simp add: dlist_def)

section \<open>The operations on the represented list\<close>

lemma deref_simps [simp]: "h a = Some n \<Longrightarrow> deref h a = Inr n" "h a = None \<Longrightarrow> deref h a = Inl Null_deref"
  by (simp_all add: deref_def)

lemma upd_node_simps [simp]: "h a = Some n \<Longrightarrow> upd_node a f h = Inr (h(a \<mapsto> f n))"
  by (simp add: upd_node_def)

lemma dseg_set_prev:
  assumes "dseg h p a ((m, w) # ys) q" "m \<notin> fst ` set ys"
  shows "\<exists>nd. h m = Some nd \<and> dseg (h(m \<mapsto> nd\<lparr>ln_prev := p'\<rparr>)) p' a ((m, w) # ys) q"
proof -
  obtain nx where "h m = Some \<lparr>ln_prev = p, ln_next = nx, ln_value = w\<rparr>" "dseg h m nx ys q" "a = m" "m \<noteq> 0"
    using assms(1) by auto
  moreover from this assms(2) have "dseg (h(m \<mapsto> \<lparr>ln_prev = p', ln_next = nx, ln_value = w\<rparr>)) m nx ys q"
    by (subst dseg_frame [of ys _ h]) auto
  ultimately show ?thesis by simp
qed

lemma dseg_set_next:
  assumes "dseg h p a xs q" "xs \<noteq> []" "distinct (map fst xs)"
  shows "\<exists>nd. h (last_addr p xs) = Some nd \<and> ln_next nd = q
    \<and> dseg (h(last_addr p xs \<mapsto> nd\<lparr>ln_next := q'\<rparr>)) p a xs q'"
proof -
  obtain ys m w where xs: "xs = ys @ [(m, w)]" using assms(2) by (metis rev_exhaust surj_pair)
  then obtain b where b: "dseg h p a ys b" "b = m" "m \<noteq> 0"
    "h m = Some \<lparr>ln_prev = last_addr p ys, ln_next = q, ln_value = w\<rparr>"
    using assms(1) by (auto simp: dseg_append)
  let ?h = "h(m \<mapsto> \<lparr>ln_prev = last_addr p ys, ln_next = q', ln_value = w\<rparr>)"
  have "dseg ?h p a ys m" using b(1,2) assms(3) xs by (subst dseg_frame [of ys _ h]) auto
  then show ?thesis using b xs by (auto simp: dseg_append)
qed

lemma list_push_front_ok:
  assumes "dlist l h xs" "alloc 12 k = Inr (n, k')" "n \<noteq> 0" "n \<notin> fst ` set xs"
  shows "\<exists>l' h'. list_push_front alloc v (l, h, k) = Inr (l', h', k') \<and> dlist l' h' ((n, v) # xs)
    \<and> (\<forall>a. a \<noteq> n \<longrightarrow> a \<notin> fst ` set xs \<longrightarrow> h' a = h a)"
proof (cases xs)
  case Nil
  then show ?thesis using assms by (simp add: list_push_front_def dlist_def Let_def)
next
  case (Cons x ys)
  obtain m w where x: "x = (m, w)" by fastforce
  let ?h = "h(n \<mapsto> \<lparr>ln_prev = 0, ln_next = 0, ln_value = v\<rparr>)"
  have hd: "l_head l = m" "m \<noteq> 0" "m \<notin> fst ` set ys" "n \<noteq> m" "n \<notin> fst ` set ys"
    using assms(1,4) Cons x by (auto simp: dlist_def)
  have "dseg ?h 0 m ((m, w) # ys) 0"
    using assms(1,4) Cons x hd by (subst dseg_frame [of _ _ h]) (auto simp: dlist_def)
  from dseg_set_prev [OF this hd(3), of n] obtain nd where nd: "h m = Some nd"
    "dseg (?h(m \<mapsto> nd\<lparr>ln_prev := n\<rparr>)) n m ((m, w) # ys) 0" using hd(4) by auto
  let ?h' = "?h(m \<mapsto> nd\<lparr>ln_prev := n\<rparr>, n \<mapsto> \<lparr>ln_prev = 0, ln_next = m, ln_value = v\<rparr>)"
  have "dseg ?h' n m ((m, w) # ys) 0"
    using nd(2) hd by (subst dseg_frame [of _ _ "?h(m \<mapsto> nd\<lparr>ln_prev := n\<rparr>)"]) auto
  then have "dseg ?h' 0 n ((n, v) # (m, w) # ys) 0" using assms(3) by simp
  moreover have "list_push_front alloc v (l, h, k) = Inr (l\<lparr>l_head := n, l_length := l_length l + 1\<rparr>, ?h', k')"
    using assms(2,3) hd nd(1) by (simp add: list_push_front_def Let_def)
  ultimately show ?thesis using assms(1,4) Cons x hd by (auto simp: dlist_def)
qed

lemma list_push_back_ok:
  assumes "dlist l h xs" "alloc 12 k = Inr (n, k')" "n \<noteq> 0" "n \<notin> fst ` set xs"
  shows "\<exists>l' h'. list_push_back alloc v (l, h, k) = Inr (l', h', k') \<and> dlist l' h' (xs @ [(n, v)])
    \<and> (\<forall>a. a \<noteq> n \<longrightarrow> a \<notin> fst ` set xs \<longrightarrow> h' a = h a)"
proof (cases "xs = []")
  case True
  then show ?thesis using assms by (simp add: list_push_back_def dlist_def Let_def)
next
  case False
  let ?t = "last_addr 0 xs"
  let ?h = "h(n \<mapsto> \<lparr>ln_prev = 0, ln_next = 0, ln_value = v\<rparr>)"
  have seg: "dseg h 0 (l_head l) xs 0" "distinct (map fst xs)" "l_tail l = ?t"
    using assms(1) by (auto simp: dlist_def)
  have t: "?t \<noteq> 0" "?t \<in> fst ` set xs" "?t \<noteq> n" using last_addr_nonzero [OF seg(1) False] assms(4) by auto
  have "dseg ?h 0 (l_head l) xs 0" using seg(1) assms(4) by (subst dseg_frame [of _ _ h]) auto
  from dseg_set_next [OF this False seg(2), of n] obtain nd where nd: "h ?t = Some nd"
    "dseg (?h(?t \<mapsto> nd\<lparr>ln_next := n\<rparr>)) 0 (l_head l) xs n" using t(3) by auto
  let ?h' = "?h(?t \<mapsto> nd\<lparr>ln_next := n\<rparr>, n \<mapsto> \<lparr>ln_prev = ?t, ln_next = 0, ln_value = v\<rparr>)"
  have "dseg ?h' 0 (l_head l) xs n"
    using nd(2) assms(4) t(3) by (subst dseg_frame [of _ _ "?h(?t \<mapsto> nd\<lparr>ln_next := n\<rparr>)"]) auto
  then have "dseg ?h' 0 (l_head l) (xs @ [(n, v)]) 0" using assms(3) by (simp add: dseg_append)
  moreover have "list_push_back alloc v (l, h, k) = Inr (l\<lparr>l_tail := n, l_length := l_length l + 1\<rparr>, ?h', k')"
    using assms(2,3) seg(3) nd(1) t by (simp add: list_push_back_def Let_def)
  ultimately show ?thesis using assms(1,4) seg t by (auto simp: dlist_def)
qed

definition head_addr :: "(u32 \<times> u32) list \<Rightarrow> u32" where
  "head_addr ys = (if ys = [] then 0 else fst (hd ys))"

lemma dseg_head: "dseg h p a ys 0 \<Longrightarrow> a = head_addr ys"
  by (cases ys) (auto simp: head_addr_def)

text \<open>Unlinking the node between two segments.\<close>

lemma unlink_prev:
  assumes "dseg h 0 a xs n" "distinct (map fst xs)" "n \<notin> fst ` set xs"
    and "fst ` set xs \<inter> fst ` set ys = {}" "dseg h n nx ys 0"
  defines "p \<equiv> last_addr 0 xs"
  shows "\<exists>h'. (if p \<noteq> 0 then upd_node p (\<lambda>m. m\<lparr>ln_next := nx\<rparr>) h else Inr h) = Inr h'
    \<and> dseg h' 0 (if xs = [] then nx else a) xs nx \<and> dseg h' n nx ys 0
    \<and> (\<forall>b. b \<notin> fst ` set xs \<longrightarrow> h' b = h b)"
proof (cases "xs = []")
  case True
  then show ?thesis using assms by simp
next
  case False
  have p: "p \<noteq> 0" "p \<in> fst ` set xs" using last_addr_nonzero [OF assms(1) False] by (auto simp: p_def)
  from dseg_set_next [OF assms(1) False assms(2), of nx] obtain nd where nd: "h p = Some nd"
    "dseg (h(p \<mapsto> nd\<lparr>ln_next := nx\<rparr>)) 0 a xs nx" by (auto simp: p_def)
  moreover have "dseg (h(p \<mapsto> nd\<lparr>ln_next := nx\<rparr>)) n nx ys 0"
    using assms(4,5) p by (subst dseg_frame [of _ _ h]) auto
  ultimately show ?thesis using p False by auto
qed

lemma unlink_next:
  assumes "dseg h n nx ys 0" "dseg h 0 a xs nx" "distinct (map fst ys)"
    and "fst ` set xs \<inter> fst ` set ys = {}"
  shows "\<exists>h'. (if nx \<noteq> 0 then upd_node nx (\<lambda>m. m\<lparr>ln_prev := p\<rparr>) h else Inr h) = Inr h'
    \<and> dseg h' 0 a xs nx \<and> dseg h' p nx ys 0 \<and> (\<forall>b. b \<notin> fst ` set ys \<longrightarrow> h' b = h b)"
proof (cases ys)
  case Nil
  then show ?thesis using assms by simp
next
  case (Cons y zs)
  obtain m w where y: "y = (m, w)" by fastforce
  have nx: "nx = m" "m \<noteq> 0" "m \<notin> fst ` set zs" using assms(1,3) Cons y by auto
  from dseg_set_prev [OF assms(1) [unfolded Cons y] nx(3), of p] obtain nd where nd: "h m = Some nd"
    "dseg (h(m \<mapsto> nd\<lparr>ln_prev := p\<rparr>)) p nx ys 0" by (auto simp: Cons y)
  moreover have "dseg (h(m \<mapsto> nd\<lparr>ln_prev := p\<rparr>)) 0 a xs nx"
    using assms(2,4) Cons y by (subst dseg_frame [of _ _ h]) auto
  ultimately show ?thesis using nx Cons y by auto
qed

lemma list_delete_ok:
  assumes "dlist l h (xs @ (n, v) # ys)"
  shows "\<exists>l' h'. list_delete l h n = Inr (l', h') \<and> dlist l' h' (xs @ ys)
    \<and> h' n = h n \<and> (\<forall>a. a \<notin> fst ` set (xs @ ys) \<longrightarrow> h' a = h a)"
proof -
  let ?p = "last_addr 0 xs" and ?a = "l_head l"
  obtain nx where seg: "dseg h 0 ?a xs n" "h n = Some \<lparr>ln_prev = ?p, ln_next = nx, ln_value = v\<rparr>"
    "dseg h n nx ys 0" "n \<noteq> 0" using assms by (auto simp: dlist_def dseg_append)
  have d: "distinct (map fst xs)" "distinct (map fst ys)" "n \<notin> fst ` set xs" "n \<notin> fst ` set ys"
    "fst ` set xs \<inter> fst ` set ys = {}" using assms by (auto simp: dlist_def)
  from unlink_prev [OF seg(1) d(1,3,5) seg(3)] obtain h1 where h1:
    "(if ?p \<noteq> 0 then upd_node ?p (\<lambda>m. m\<lparr>ln_next := nx\<rparr>) h else Inr h) = Inr h1"
    "dseg h1 0 (if xs = [] then nx else ?a) xs nx" "dseg h1 n nx ys 0" "\<forall>b. b \<notin> fst ` set xs \<longrightarrow> h1 b = h b" by blast
  from unlink_next [OF h1(3,2) d(2,5), of ?p] obtain h2 where h2:
    "(if nx \<noteq> 0 then upd_node nx (\<lambda>m. m\<lparr>ln_prev := ?p\<rparr>) h1 else Inr h1) = Inr h2"
    "dseg h2 0 (if xs = [] then nx else ?a) xs nx" "dseg h2 ?p nx ys 0" "\<forall>b. b \<notin> fst ` set ys \<longrightarrow> h2 b = h1 b" by blast
  have head: "n = ?a \<longleftrightarrow> xs = []" using seg(1) d(3) by (cases xs) auto
  have tail: "n = l_tail l \<longleftrightarrow> ys = []"
    using assms last_addr_nonzero [OF seg(3)] d(4) by (auto simp: dlist_def)
  let ?l = "\<lparr>l_head = if xs = [] then nx else ?a, l_tail = if ys = [] then ?p else l_tail l, l_length = l_length l - 1\<rparr>"
  have "h1 n = h n" using h1(4) d(3) by blast
  then have "list_delete l h n = Inr (?l, h2)"
    using seg(2) h1(1) h2(1) head tail unfolding list_delete_def
    by (auto simp: Let_def)
  moreover have "dlist ?l h2 (xs @ ys)"
    using assms h2(2,3) d by (auto simp: dlist_def dseg_append last_addr_def)
  moreover have "h2 a = h a" if "a \<notin> fst ` set (xs @ ys)" for a
  proof -
    have "a \<notin> fst ` set xs" "a \<notin> fst ` set ys" using that by auto
    then show ?thesis using h1(4) h2(4) by simp
  qed
  ultimately show ?thesis using d(3,4) by (intro exI [of _ ?l] exI [of _ h2]) auto
qed

lemma list_pop_front_ok:
  assumes "dlist l h ((n, v) # xs)"
  shows "\<exists>l' h'. list_pop_front l h = Inr (n, l', h') \<and> dlist l' h' xs
    \<and> h' n = h n \<and> (\<forall>a. a \<notin> fst ` set xs \<longrightarrow> h' a = h a)"
proof -
  have "l_head l = n" "n \<noteq> 0" using assms by (auto simp: dlist_def)
  then show ?thesis using list_delete_ok [of l h "[]" n v xs] assms
    by (auto simp: list_pop_front_def Let_def)
qed

lemma list_pop_back_ok:
  assumes "dlist l h (xs @ [(n, v)])"
  shows "\<exists>l' h'. list_pop_back l h = Inr (n, l', h') \<and> dlist l' h' xs
    \<and> h' n = h n \<and> (\<forall>a. a \<notin> fst ` set xs \<longrightarrow> h' a = h a)"
proof -
  have "l_tail l = n" "n \<noteq> 0" using assms by (auto simp: dlist_def dseg_append)
  then show ?thesis using list_delete_ok [of l h xs n v "[]"] assms
    by (auto simp: list_pop_back_def Let_def)
qed

lemma list_pop_empty:
  assumes "dlist l h []"
  shows "list_pop_front l h = Inr (0, l, h)" "list_pop_back l h = Inr (0, l, h)"
  using assms by (simp_all add: dlist_def list_pop_front_def list_pop_back_def)

lemma list_nth_loop_ok:
  "dseg h p a xs 0 \<Longrightarrow> i < length xs \<Longrightarrow> list_nth_loop h a i = Inr (fst (xs ! i))"
proof (induction xs arbitrary: p a i)
  case (Cons x xs)
  obtain n v where x: "x = (n, v)" by fastforce
  with Cons.prems obtain nx where "h a = Some \<lparr>ln_prev = p, ln_next = nx, ln_value = v\<rparr>" "dseg h n nx xs 0" "a = n"
    by auto
  then show ?case using Cons.IH [of n nx] Cons.prems(2) x by (cases i) auto
qed simp

lemma list_remove_ok:
  assumes "dlist l h xs" "i < length xs" "length xs < 2 ^ 31"
  shows "\<exists>l' h'. list_remove l h (int i) = Inr (l', h') \<and> dlist l' h' (take i xs @ drop (Suc i) xs)"
proof -
  obtain n v where nv: "xs ! i = (n, v)" by fastforce
  have split: "xs = take i xs @ (n, v) # drop (Suc i) xs" using assms(2) nv by (metis id_take_nth_drop)
  have "unat (of_int (int i) :: u32) = i" using assms(2,3) by (simp add: unat_of_nat32)
  moreover have "list_nth_loop h (l_head l) i = Inr n"
    using list_nth_loop_ok [of h 0 "l_head l" xs i] assms nv by (simp add: dlist_def)
  moreover have "\<not> int i > l_length l" using assms(1,2) by (simp add: dlist_def)
  ultimately show ?thesis
    using list_delete_ok [of l h "take i xs" n v "drop (Suc i) xs"] assms(1) split
    by (auto simp: list_remove_def)
qed

section \<open>The forward view\<close>

text \<open>
  \<^verbatim>\<open>list_insert_after\<close> maintains neither the \<^verbatim>\<open>prev\<close> pointer of the following node
  nor \<^verbatim>\<open>tail\<close>.  What it does keep is the list seen by following \<^verbatim>\<open>next\<close> from
  \<^verbatim>\<open>head\<close>, which is all that \<^verbatim>\<open>foreach\<close> and \<^verbatim>\<open>list_pop_front\<close> use.
\<close>

fun fseg :: "nodes \<Rightarrow> u32 \<Rightarrow> (u32 \<times> u32) list \<Rightarrow> u32 \<Rightarrow> bool" where
  "fseg h a [] q \<longleftrightarrow> a = q"
| "fseg h a ((n, v) # xs) q \<longleftrightarrow>
     a = n \<and> n \<noteq> 0 \<and> (\<exists>nd. h n = Some nd \<and> ln_value nd = v \<and> fseg h (ln_next nd) xs q)"

definition flist :: "list_t \<Rightarrow> nodes \<Rightarrow> (u32 \<times> u32) list \<Rightarrow> bool" where
  "flist l h xs \<longleftrightarrow> fseg h (l_head l) xs 0 \<and> distinct (map fst xs)
     \<and> (xs \<noteq> [] \<longrightarrow> map_option ln_prev (h (l_head l)) = Some 0) \<and> l_length l = int (length xs)"

lemma fseg_append: "fseg h a (xs @ ys) q \<longleftrightarrow> (\<exists>b. fseg h a xs b \<and> fseg h b ys q)"
proof (induction xs arbitrary: a)
  case (Cons x xs)
  then show ?case by (cases x) auto
qed simp

lemma fseg_frame:
  "(\<And>a. a \<in> fst ` set xs \<Longrightarrow> \<exists>nd nd'. h a = Some nd \<and> h' a = Some nd' \<and> ln_next nd' = ln_next nd \<and> ln_value nd' = ln_value nd)
   \<Longrightarrow> fseg h' a xs q = fseg h a xs q"
proof (induction xs arbitrary: a)
  case (Cons x xs)
  obtain n v where x: "x = (n, v)" by fastforce
  obtain nd nd' where "h n = Some nd" "h' n = Some nd'" "ln_next nd' = ln_next nd" "ln_value nd' = ln_value nd"
    using Cons.prems [of n] x by auto
  moreover have "\<And>b. fseg h' b xs q = fseg h b xs q" using Cons.prems by (intro Cons.IH) auto
  ultimately show ?case by (simp add: x)
qed simp

lemma fseg_mapped: "fseg h a xs q \<Longrightarrow> b \<in> fst ` set xs \<Longrightarrow> \<exists>nd. h b = Some nd"
proof (induction xs arbitrary: a)
  case (Cons x xs)
  then show ?case by (cases x) auto
qed simp

lemma dseg_fseg: "dseg h p a xs q \<Longrightarrow> fseg h a xs q"
proof (induction xs arbitrary: p a)
  case (Cons x xs)
  then show ?case by (cases x) auto
qed simp

lemma dlist_flist: "dlist l h xs \<Longrightarrow> flist l h xs"
  by (cases xs) (auto simp: dlist_def flist_def dest: dseg_fseg)

lemma flist_frame:
  assumes "flist l h xs" "\<And>a. a \<in> fst ` set xs \<Longrightarrow> h' a = h a"
  shows "flist l h' xs"
proof -
  have seg: "fseg h (l_head l) xs 0" using assms(1) by (simp add: flist_def)
  have "fseg h' (l_head l) xs 0 = fseg h (l_head l) xs 0"
    using assms(2) fseg_mapped [OF seg] by (intro fseg_frame) force
  moreover have "h' (l_head l) = h (l_head l)" if "xs \<noteq> []"
    using that seg assms(2) by (cases xs) auto
  ultimately show ?thesis using assms(1) by (auto simp: flist_def)
qed

lemma fseg_fresh:
  assumes "fseg h a xs q" "n \<notin> fst ` set xs"
  shows "fseg (h(n \<mapsto> nd)) a xs q"
proof -
  have "fseg (h(n \<mapsto> nd)) a xs q = fseg h a xs q"
    using assms fseg_mapped [OF assms(1)] by (intro fseg_frame) force
  then show ?thesis using assms(1) by simp
qed

lemma flist_push_front:
  assumes "flist l h xs" "alloc 12 k = Inr (n, k')" "n \<noteq> 0" "n \<notin> fst ` set xs"
  shows "\<exists>l' h'. list_push_front alloc v (l, h, k) = Inr (l', h', k') \<and> flist l' h' ((n, v) # xs)
    \<and> (\<forall>a. a \<noteq> n \<longrightarrow> a \<notin> fst ` set xs \<longrightarrow> h' a = h a)"
proof (cases xs)
  case Nil
  then show ?thesis using assms by (simp add: list_push_front_def flist_def Let_def)
next
  case (Cons x ys)
  obtain m w where x: "x = (m, w)" by fastforce
  obtain nd where nd: "l_head l = m" "m \<noteq> 0" "h m = Some nd" "ln_value nd = w" "fseg h (ln_next nd) ys 0"
    "m \<notin> fst ` set ys" "n \<noteq> m" "n \<notin> fst ` set ys"
    using assms(1,4) Cons x by (auto simp: flist_def)
  let ?h = "h(n \<mapsto> \<lparr>ln_prev = 0, ln_next = 0, ln_value = v\<rparr>, m \<mapsto> nd\<lparr>ln_prev := n\<rparr>,
              n \<mapsto> \<lparr>ln_prev = 0, ln_next = m, ln_value = v\<rparr>)"
  have "fseg ?h (ln_next nd) ys 0" by (intro fseg_fresh nd)
  moreover have "list_push_front alloc v (l, h, k) = Inr (l\<lparr>l_head := n, l_length := l_length l + 1\<rparr>, ?h, k')"
    using assms(2,3) nd by (simp add: list_push_front_def Let_def)
  ultimately show ?thesis using assms(1,3,4) Cons x nd by (auto simp: flist_def)
qed

lemma flist_insert_after:
  assumes "flist l h (xs @ (m, w) # ys)" "alloc 12 k = Inr (n, k')" "n \<noteq> 0"
    and "n \<notin> fst ` set (xs @ (m, w) # ys)"
  shows "\<exists>l' h'. list_insert_after alloc m v (l, h, k) = Inr (l', h', k')
    \<and> flist l' h' (xs @ (m, w) # (n, v) # ys)
    \<and> (\<forall>a. a \<noteq> n \<longrightarrow> a \<notin> fst ` set (xs @ (m, w) # ys) \<longrightarrow> h' a = h a)"
proof -
  obtain nd where nd: "fseg h (l_head l) xs m" "m \<noteq> 0" "h m = Some nd" "ln_value nd = w" "fseg h (ln_next nd) ys 0"
    using assms(1) by (auto simp: flist_def fseg_append)
  have d: "m \<notin> fst ` set ys" "m \<notin> fst ` set xs" "n \<noteq> m" "n \<notin> fst ` set ys" "n \<notin> fst ` set xs"
    using assms(1,4) by (auto simp: flist_def)
  let ?h = "h(n \<mapsto> \<lparr>ln_prev = 0, ln_next = 0, ln_value = v\<rparr>,
              n \<mapsto> \<lparr>ln_prev = m, ln_next = ln_next nd, ln_value = v\<rparr>, m \<mapsto> nd\<lparr>ln_next := n\<rparr>)"
  have "fseg ?h (ln_next nd) ys 0" "fseg ?h (l_head l) xs m" by (intro fseg_fresh nd d)+
  then have "fseg ?h (l_head l) (xs @ (m, w) # (n, v) # ys) 0"
    using nd assms(3) d by (auto simp: fseg_append)
  moreover have "list_insert_after alloc m v (l, h, k) = Inr (l\<lparr>l_length := l_length l + 1\<rparr>, ?h, k')"
    using assms(2,3) nd d by (simp add: list_insert_after_def Let_def)
  moreover have "map_option ln_prev (?h (l_head l)) = Some 0"
    using assms(1,4) nd d by (cases xs) (auto simp: flist_def)
  ultimately show ?thesis using assms(1,4) by (auto simp: flist_def)
qed

lemma flist_pop_front:
  assumes "flist l h ((n, v) # xs)"
  shows "\<exists>l' h'. list_pop_front l h = Inr (n, l', h') \<and> flist l' h' xs \<and> h' n = h n
    \<and> (\<forall>a. a \<notin> fst ` set xs \<longrightarrow> h' a = h a)"
proof -
  obtain nd where nd: "l_head l = n" "n \<noteq> 0" "h n = Some nd" "ln_value nd = v" "ln_prev nd = 0"
    "fseg h (ln_next nd) xs 0" "n \<notin> fst ` set xs" using assms by (auto simp: flist_def)
  let ?l = "l\<lparr>l_head := ln_next nd, l_tail := if n = l_tail l then 0 else l_tail l, l_length := l_length l - 1\<rparr>"
  show ?thesis
  proof (cases xs)
    case Nil
    then have "list_pop_front l h = Inr (n, ?l, h)"
      using nd by (simp add: list_pop_front_def list_delete_def Let_def)
    then show ?thesis using assms nd Nil by (auto simp: flist_def)
  next
    case (Cons x ys)
    obtain m w where x: "x = (m, w)" by fastforce
    obtain md where md: "ln_next nd = m" "m \<noteq> 0" "h m = Some md" "ln_value md = w" "fseg h (ln_next md) ys 0"
      "m \<notin> fst ` set ys" "m \<noteq> n" using assms nd Cons x by (auto simp: flist_def)
    let ?h = "h(m \<mapsto> md\<lparr>ln_prev := 0\<rparr>)"
    have "fseg ?h (ln_next md) ys 0" by (intro fseg_fresh md)
    moreover have "list_pop_front l h = Inr (n, ?l, ?h)"
      using nd md by (simp add: list_pop_front_def list_delete_def Let_def)
    ultimately show ?thesis using assms md Cons x by (auto simp: flist_def)
  qed
qed

section \<open>Queues over an allocator\<close>

text \<open>The list state represents \<open>xs\<close>, and its nodes are among the addresses in use.\<close>

definition queue_rep ::
  "('k \<Rightarrow> u32 set \<Rightarrow> bool) \<Rightarrow> list_t \<times> nodes \<times> 'k \<Rightarrow> u32 set \<Rightarrow> (u32 \<times> u32) list \<Rightarrow> bool" where
  "queue_rep rep s L xs \<longleftrightarrow> (case s of (l, h, k) \<Rightarrow> rep k L \<and> dlist l h xs \<and> fst ` set xs \<subseteq> L)"

text \<open>
  What the lists need of the kernel heap: a request for a node succeeds with an
  address not in use while there is room, and an address in use can be
  released.  \<open>rep k L\<close> reads: in allocator state \<open>k\<close> the addresses in use are \<open>L\<close>.
\<close>

locale allocator =
  fixes alloc :: "u32 \<Rightarrow> 'k \<Rightarrow> (u32 \<times> 'k) res"
    and release :: "u32 \<Rightarrow> 'k \<Rightarrow> 'k res"
    and rep :: "'k \<Rightarrow> u32 set \<Rightarrow> bool"
    and room :: "nat \<Rightarrow> 'k \<Rightarrow> bool"
  assumes alloc_fresh: "rep k L \<Longrightarrow> room (Suc n) k \<Longrightarrow> unat sz \<le> 4068 \<Longrightarrow>
      \<exists>a k'. alloc sz k = Inr (a, k') \<and> rep k' (insert a L) \<and> a \<notin> L \<and> a \<noteq> 0 \<and> room n k'"
    and release_used: "rep k L \<Longrightarrow> a \<in> L \<Longrightarrow>
      \<exists>k'. release a k = Inr k' \<and> rep k' (L - {a}) \<and> (\<forall>n. room n k \<longrightarrow> room n k')"
begin

lemma queue_push:
  assumes "queue_rep rep (l, h, k) L xs" "room (Suc n) k"
  shows "\<exists>a l' h' k'. list_push_front alloc v (l, h, k) = Inr (l', h', k') \<and> a \<notin> L \<and> room n k'
    \<and> queue_rep rep (l', h', k') (insert a L) ((a, v) # xs) \<and> (\<forall>b\<in>L - fst ` set xs. h' b = h b)"
proof -
  obtain a k' where a: "alloc 12 k = Inr (a, k')" "rep k' (insert a L)" "a \<notin> L" "a \<noteq> 0" "room n k'"
    using alloc_fresh [of k L n 12] assms by (auto simp: queue_rep_def)
  moreover have "a \<notin> fst ` set xs" using a(3) assms(1) by (auto simp: queue_rep_def)
  ultimately obtain l' h' where "list_push_front alloc v (l, h, k) = Inr (l', h', k')" "dlist l' h' ((a, v) # xs)"
    "\<forall>b. b \<noteq> a \<longrightarrow> b \<notin> fst ` set xs \<longrightarrow> h' b = h b"
    using list_push_front_ok [of l h xs alloc k a k' v] assms(1) by (auto simp: queue_rep_def)
  moreover have "fst ` set ((a, v) # xs) \<subseteq> insert a L" using assms(1) by (auto simp: queue_rep_def)
  ultimately show ?thesis using a
    by (intro exI [of _ a] exI [of _ l'] exI [of _ h'] exI [of _ k']) (auto simp: queue_rep_def)
qed

lemma queue_take:
  assumes "queue_rep rep (l, h, k) L (xs @ [(a, v)])"
  shows "\<exists>l' h' k'. take_back release (l, h, k) = Inr (v, (l', h', k'))
    \<and> queue_rep rep (l', h', k') (L - {a}) xs \<and> (\<forall>n. room n k \<longrightarrow> room n k')
    \<and> (\<forall>b\<in>L - fst ` set (xs @ [(a, v)]). h' b = h b)"
proof -
  have d: "dlist l h (xs @ [(a, v)])" and aL: "a \<in> L" "fst ` set xs \<subseteq> L"
    using assms by (auto simp: queue_rep_def)
  obtain l' h' where pop: "list_pop_back l h = Inr (a, l', h')" "dlist l' h' xs" "h' a = h a"
    "\<forall>b. b \<notin> fst ` set xs \<longrightarrow> h' b = h b" using list_pop_back_ok [OF d] by blast
  obtain nd where nd: "h a = Some nd" "ln_value nd = v" "a \<noteq> 0" "a \<notin> fst ` set xs"
    using d by (auto simp: dlist_def dseg_append)
  obtain k' where "release a k = Inr k'" "rep k' (L - {a})" "\<forall>n. room n k \<longrightarrow> room n k'"
    using release_used [of k L a] assms aL by (auto simp: queue_rep_def)
  moreover have "fst ` set xs \<subseteq> L - {a}" using aL(2) nd(4) by blast
  ultimately show ?thesis using pop nd by (auto simp: take_back_def queue_rep_def)
qed

lemma queue_take_empty:
  "queue_rep rep (l, h, k) L [] \<Longrightarrow> take_back release (l, h, k) = Inr (0, (l, h, k))"
  by (simp add: queue_rep_def take_back_def list_pop_empty(2))

end

end
