(* ===== verification/Frame.thy ===== *)
theory Frame
  imports Prelude
begin

text \<open>
  The physical frame allocator of \<^verbatim>\<open>src/kernel/frame.c\<close>: a bitmap with one bit per
  4096-byte frame, a counter of used frames and the placement pointer of the
  boot-time allocator \<^verbatim>\<open>pre_alloc\<close>.  The bitmap is the list of the words that
  \<^verbatim>\<open>frame_init\<close> clears; an access outside it is a failure.
\<close>

section \<open>State and operations\<close>

record frames =
  frame_map :: "u32 list"
  used_frames :: u32
  max_frames :: u32
  placement_addr :: u32

definition word_of :: "int \<Rightarrow> nat" where "word_of b = nat (b div 32)"
definition mask_of :: "int \<Rightarrow> u32" where "mask_of b = push_bit (nat (b mod 32)) 1"

definition bit_ok :: "frames \<Rightarrow> int \<Rightarrow> bool" where
  "bit_ok st b \<longleftrightarrow> 0 \<le> b \<and> word_of b < length (frame_map st)"

definition bitmap_set :: "int \<Rightarrow> frames \<Rightarrow> frames res" where
  "bitmap_set b st =
     (if bit_ok st b
      then Inr (st\<lparr>frame_map := (frame_map st)[word_of b := frame_map st ! word_of b OR mask_of b]\<rparr>)
      else Inl Out_of_bounds)"

definition bitmap_unset :: "int \<Rightarrow> frames \<Rightarrow> frames res" where
  "bitmap_unset b st =
     (if bit_ok st b
      then Inr (st\<lparr>frame_map := (frame_map st)[word_of b := frame_map st ! word_of b AND NOT (mask_of b)]\<rparr>)
      else Inl Out_of_bounds)"

definition bitmap_test :: "int \<Rightarrow> frames \<Rightarrow> bool res" where
  "bitmap_test b st =
     (if bit_ok st b then Inr (frame_map st ! word_of b AND mask_of b \<noteq> 0) else Inl Out_of_bounds)"

definition get_frame_count :: "frames \<Rightarrow> u32" where
  "get_frame_count st = max_frames st"

text \<open>The result is the address and the new placement pointer; \<^verbatim>\<open>*phys\<close> is the address.\<close>

definition pre_alloc :: "u32 \<Rightarrow> bool \<Rightarrow> frames \<Rightarrow> u32 \<times> frames" where
  "pre_alloc sz align st =
     (let p = placement_addr st;
          p = (if align \<and> p AND 0xfff \<noteq> 0 then (p AND 0xfffff000) + 0x1000 else p)
      in (p, st\<lparr>placement_addr := p + sz\<rparr>))"

fun region_init_loop :: "nat \<Rightarrow> u32 \<Rightarrow> frames \<Rightarrow> frames res" where
  "region_init_loop 0 b st = Inr st"
| "region_init_loop (Suc n) b st =
     rbind (bitmap_unset (sint b) st) (\<lambda>st.
       region_init_loop n (b + 1) (st\<lparr>used_frames := used_frames st - 1\<rparr>))"

definition memory_region_init :: "u32 \<Rightarrow> u64 \<Rightarrow> frames \<Rightarrow> frames res" where
  "memory_region_init base sz st = region_init_loop (unat (drop_bit 12 sz)) (drop_bit 12 base) st"

fun region_deinit_loop :: "nat \<Rightarrow> int \<Rightarrow> frames \<Rightarrow> frames res" where
  "region_deinit_loop 0 align st = Inr st"
| "region_deinit_loop (Suc n) align st =
     rbind (bitmap_set align st) (\<lambda>st.
       region_deinit_loop n (align + 1) (st\<lparr>used_frames := used_frames st + 1\<rparr>))"

text \<open>\<^verbatim>\<open>int frames = size / FRAME_SIZE\<close> truncates to 32 bits; a negative count is no iteration.\<close>

definition memory_region_deinit :: "u32 \<Rightarrow> u64 \<Rightarrow> frames \<Rightarrow> frames res" where
  "memory_region_deinit base sz st =
     region_deinit_loop (nat (sint (ucast (sz div 4096) :: u32))) (sint (base div 4096)) st"

fun first_clear :: "u32 \<Rightarrow> nat \<Rightarrow> nat \<Rightarrow> nat option" where
  "first_clear w j 0 = None"
| "first_clear w j (Suc n) = (if w AND push_bit j 1 = 0 then Some j else first_clear w (Suc j) n)"

text \<open>\<open>n\<close> words are left to scan from word \<open>i\<close>; leaving the loop returns no value.\<close>

fun first_frame_loop :: "frames \<Rightarrow> nat \<Rightarrow> nat \<Rightarrow> u32 res" where
  "first_frame_loop st i 0 = Inl No_return"
| "first_frame_loop st i (Suc n) =
     (if length (frame_map st) \<le> i then Inl Out_of_bounds
      else if frame_map st ! i \<noteq> 0xffffffff
      then case first_clear (frame_map st ! i) 0 32 of
             Some j \<Rightarrow> Inr (of_nat i * 32 + of_nat j)
           | None \<Rightarrow> first_frame_loop st (Suc i) n
      else first_frame_loop st (Suc i) n)"

definition get_first_frame :: "frames \<Rightarrow> u32 res" where
  "get_first_frame st = first_frame_loop st 0 (unat (get_frame_count st))"

definition alloc_frame :: "frames \<Rightarrow> (u32 \<times> frames) res" where
  "alloc_frame st =
     (if get_frame_count st \<le> 0 then Inl Panic
      else rbind (get_first_frame st) (\<lambda>frame.
        if frame = -1 then Inl Panic
        else rbind (bitmap_set (sint frame) st) (\<lambda>st.
          Inr (frame, st\<lparr>used_frames := used_frames st + 1\<rparr>))))"

definition get_frame :: "u32 \<Rightarrow> frames \<Rightarrow> frames res" where
  "get_frame frame st =
     (if frame > max_frames st then Inr st
      else rbind (bitmap_test (sint frame) st) (\<lambda>used.
        if used then Inl Panic
        else rbind (bitmap_set (sint frame) st) (\<lambda>st. Inr (st\<lparr>used_frames := used_frames st + 1\<rparr>))))"

definition free_frame :: "u32 \<Rightarrow> frames \<Rightarrow> frames res" where
  "free_frame frame st =
     rbind (bitmap_unset (sint frame) st) (\<lambda>st. Inr (st\<lparr>used_frames := used_frames st - 1\<rparr>))"

definition free_pages :: "frames \<Rightarrow> u32" where
  "free_pages st = max_frames st - used_frames st"

text \<open>
  \<^verbatim>\<open>get_first_frames\<close>: the inner loop over \<^verbatim>\<open>count\<close>, the loop over the bits of a
  word and the loop over the words.  The inner loops return \<open>None\<close> when they
  finish without a \<^verbatim>\<open>return\<close>.
\<close>

fun count_loop :: "frames \<Rightarrow> u32 \<Rightarrow> u32 \<Rightarrow> u32 \<Rightarrow> nat \<Rightarrow> u32 \<Rightarrow> bool res" where
  "count_loop st sz b count 0 free = Inr False"
| "count_loop st sz b count (Suc n) free =
     rbind (bitmap_test (sint (b + count)) st) (\<lambda>used.
     let free = (if used then free + 1 else free)
     in if free = sz then Inr True else count_loop st sz b (count + 1) n free)"

fun first_frames_bits :: "frames \<Rightarrow> u32 \<Rightarrow> nat \<Rightarrow> nat \<Rightarrow> nat \<Rightarrow> u32 option res" where
  "first_frames_bits st sz i j 0 = Inr None"
| "first_frames_bits st sz i j (Suc n) =
     (if frame_map st ! i AND push_bit j 1 = 0
      then rbind (count_loop st sz (of_nat i * 32 + push_bit j 1) 0 (Suc (unat sz)) 0) (\<lambda>found.
             if found then Inr (Some (of_nat i * 32 + of_nat j))
             else first_frames_bits st sz i (Suc j) n)
      else first_frames_bits st sz i (Suc j) n)"

fun first_frames_loop :: "frames \<Rightarrow> u32 \<Rightarrow> nat \<Rightarrow> nat \<Rightarrow> u32 res" where
  "first_frames_loop st sz i 0 = Inr (-1)"
| "first_frames_loop st sz i (Suc n) =
     (if length (frame_map st) \<le> i then Inl Out_of_bounds
      else if frame_map st ! i \<noteq> 0xffffffff
      then rbind (first_frames_bits st sz i 0 32) (\<lambda>r.
             case r of Some f \<Rightarrow> Inr f | None \<Rightarrow> first_frames_loop st sz (Suc i) n)
      else first_frames_loop st sz (Suc i) n)"

definition get_first_frames :: "u32 \<Rightarrow> frames \<Rightarrow> u32 res" where
  "get_first_frames sz st = first_frames_loop st sz 0 (unat (get_frame_count st))"

fun set_range :: "nat \<Rightarrow> u32 \<Rightarrow> frames \<Rightarrow> frames res" where
  "set_range 0 frame st = Inr st"
| "set_range (Suc n) frame st = rbind (bitmap_set (sint frame) st) (set_range n (frame + 1))"

definition alloc_frames :: "u32 \<Rightarrow> frames \<Rightarrow> (u32 \<times> frames) res" where
  "alloc_frames sz st =
     (if get_frame_count st \<le> 0 then Inl Panic
      else rbind (get_first_frames sz st) (\<lambda>frame.
        if frame = -1 then Inl Panic
        else rbind (set_range (unat sz) frame st) (\<lambda>st.
          Inr (frame, st\<lparr>used_frames := used_frames st + sz\<rparr>))))"

text \<open>
  \<^verbatim>\<open>frame_init\<close> on the fields of the multiboot structure it reads: the end of the
  last module, the flags and the memory sizes in KB.
\<close>

definition frame_init :: "u32 \<Rightarrow> u32 \<Rightarrow> u32 \<Rightarrow> u32 \<Rightarrow> frames \<Rightarrow> frames" where
  "frame_init mod_end flags mem_lower mem_upper st =
     (let st = st\<lparr>placement_addr := mod_end + 0x1000\<rparr>
      in if flags AND 1 = 0 then st
         else if flags AND 64 = 0 then st
         else let st = st\<lparr>max_frames := (mem_lower + mem_upper) div 4\<rparr>;
                  (a, st) = pre_alloc (max_frames st div 32) False st
              in st\<lparr>frame_map := replicate (unat (max_frames st div 8) div 4) 0\<rparr>)"

section \<open>The set of used frames\<close>

definition frame_used :: "frames \<Rightarrow> nat \<Rightarrow> bool" where
  "frame_used st f \<longleftrightarrow> f < 32 * length (frame_map st) \<and> bit (frame_map st ! (f div 32)) (f mod 32)"

definition small_map :: "frames \<Rightarrow> bool" where
  "small_map st \<longleftrightarrow> 32 * length (frame_map st) < 2 ^ 31"

lemma word_of_nat_simps [simp]:
  "word_of (int f) = f div 32" "mask_of (int f) = push_bit (f mod 32) 1"
proof -
  have "nat (int f mod 32) = f mod 32" "nat (int f div 32) = f div 32"
    by (metis nat_int of_nat_mod of_nat_numeral, metis nat_int of_nat_div of_nat_numeral)
  then show "word_of (int f) = f div 32" "mask_of (int f) = push_bit (f mod 32) 1"
    by (simp_all only: word_of_def mask_of_def)
qed

lemma bit_ok_nat [simp]: "bit_ok st (int f) \<longleftrightarrow> f < 32 * length (frame_map st)"
  by (simp add: bit_ok_def less_mult_imp_div_less) (metis div_less_iff_less_mult mult.commute zero_less_numeral)

lemma bitmap_test_used:
  "f < 32 * length (frame_map st) \<Longrightarrow> bitmap_test (int f) st = Inr (frame_used st f)"
  by (simp add: bitmap_test_def frame_used_def and_exp_eq_0_iff_not_bit)

lemma bitmap_set_ok:
  assumes "f < 32 * length (frame_map st)"
  shows "\<exists>st'. bitmap_set (int f) st = Inr st' \<and> (\<forall>g. frame_used st' g \<longleftrightarrow> g = f \<or> frame_used st g)
    \<and> length (frame_map st') = length (frame_map st)
    \<and> used_frames st' = used_frames st \<and> max_frames st' = max_frames st \<and> placement_addr st' = placement_addr st"
proof -
  have "f div 32 < length (frame_map st)" using assms by (simp add: less_mult_imp_div_less mult.commute)
  moreover have "g = f \<longleftrightarrow> g div 32 = f div 32 \<and> g mod 32 = f mod 32" for g
    by (metis div_mult_mod_eq)
  ultimately show ?thesis using assms
    by (auto simp: bitmap_set_def frame_used_def nth_list_update bit_simps)
qed

lemma bitmap_unset_ok:
  assumes "f < 32 * length (frame_map st)"
  shows "\<exists>st'. bitmap_unset (int f) st = Inr st' \<and> (\<forall>g. frame_used st' g \<longleftrightarrow> g \<noteq> f \<and> frame_used st g)
    \<and> length (frame_map st') = length (frame_map st)
    \<and> used_frames st' = used_frames st \<and> max_frames st' = max_frames st \<and> placement_addr st' = placement_addr st"
proof -
  have "f div 32 < length (frame_map st)" using assms by (simp add: less_mult_imp_div_less mult.commute)
  moreover have "g = f \<longleftrightarrow> g div 32 = f div 32 \<and> g mod 32 = f mod 32" for g
    by (metis div_mult_mod_eq)
  ultimately show ?thesis using assms
    by (auto simp: bitmap_unset_def frame_used_def nth_list_update bit_simps)
qed

section \<open>The lowest free frame\<close>

lemma first_clear_spec:
  "first_clear w j n = (if \<forall>i. j \<le> i \<and> i < j + n \<longrightarrow> bit w i then None
     else Some (LEAST i. j \<le> i \<and> \<not> bit w i))"
proof (induction n arbitrary: j)
  case (Suc n)
  show ?case
  proof (cases "bit w j")
    case True
    then have "(j \<le> i \<and> \<not> bit w i) = (Suc j \<le> i \<and> \<not> bit w i)" for i
      by (metis Suc_leI Suc_leD le_neq_implies_less)
    moreover have "(\<forall>i. j \<le> i \<and> i < j + Suc n \<longrightarrow> bit w i) = (\<forall>i. Suc j \<le> i \<and> i < Suc j + n \<longrightarrow> bit w i)"
      using True by (metis Suc_leI add_Suc_right add_Suc_shift le_neq_implies_less Suc_leD)
    ultimately show ?thesis using True Suc.IH [of "Suc j"] by (simp add: and_exp_eq_0_iff_not_bit)
  next
    case False
    then have "(LEAST i. j \<le> i \<and> \<not> bit w i) = j" by (intro Least_equality) auto
    then show ?thesis using False by (auto simp: and_exp_eq_0_iff_not_bit)
  qed
qed simp

lemma first_clear_none: "first_clear w 0 32 = None \<longleftrightarrow> (w :: u32) = 0xffffffff"
proof -
  have "first_clear w 0 32 = None \<longleftrightarrow> (\<forall>i<32. bit w i)" by (simp add: first_clear_spec)
  also have "\<dots> \<longleftrightarrow> w = -1" by (auto simp: bit_eq_iff)
  also have "(- 1 :: u32) = 0xffffffff" by simp
  finally show ?thesis .
qed

lemma first_clear_some:
  "first_clear w 0 32 = Some j \<Longrightarrow> j < 32 \<and> \<not> bit w j \<and> (\<forall>i<j. bit (w :: u32) i)"
proof -
  assume "first_clear w 0 32 = Some j"
  then obtain i where i: "i < 32" "\<not> bit w i" and j: "j = (LEAST i. \<not> bit w i)"
    by (auto simp: first_clear_spec split: if_splits)
  have "j \<le> i" unfolding j using i(2) by (rule Least_le)
  moreover have "\<not> bit w j" unfolding j using i(2) by (rule LeastI)
  moreover have "\<forall>i<j. bit w i" unfolding j using not_less_Least by blast
  ultimately show ?thesis using i(1) by simp
qed

lemma first_frame_loop_ok:
  assumes "i + n \<ge> length (frame_map st)" "f < 32 * length (frame_map st)" "\<not> frame_used st f"
    and "\<forall>g < 32 * i. frame_used st g"
  shows "\<exists>m. first_frame_loop st i n = Inr (of_nat m) \<and> m \<le> f \<and> \<not> frame_used st m \<and> (\<forall>g<m. frame_used st g)"
  using assms
proof (induction n arbitrary: i)
  case 0
  then have "f < 32 * i" by simp
  then show ?case using 0 by blast
next
  case (Suc n)
  have fi: "32 * i \<le> f" using Suc.prems(3,4) by (meson not_le)
  then have i: "i < length (frame_map st)" using Suc.prems(2) by linarith
  let ?w = "frame_map st ! i"
  have use: "frame_used st (32 * i + j) \<longleftrightarrow> bit ?w j" if "j < 32" for j
    using i that by (simp add: frame_used_def)
  have dec: "\<exists>j<32. g = 32 * i + j" if "32 * i \<le> g" "g < 32 * Suc i" for g
    using that by (intro exI [of _ "g - 32 * i"]) auto
  show ?case
  proof (cases "first_clear ?w 0 32")
    case None
    then have w: "?w = 0xffffffff" by (simp add: first_clear_none)
    then have "bit ?w j" if "j < 32" for j
      using None that by (simp add: first_clear_spec split: if_splits)
    then have "frame_used st g" if "g < 32 * Suc i" for g
      using that Suc.prems(4) use dec [of g] by (cases "g < 32 * i") auto
    then show ?thesis using Suc.IH [of "Suc i"] Suc.prems i w by simp
  next
    case (Some j)
    note j = first_clear_some [OF Some]
    have "frame_used st g" if "g < 32 * i + j" for g
    proof (cases "g < 32 * i")
      case True
      then show ?thesis using Suc.prems(4) by blast
    next
      case False
      then obtain d where d: "g = 32 * i + d" by (metis le_Suc_ex not_le)
      then have "d < j" using that by simp
      then show ?thesis using d use [of d] j by simp
    qed
    moreover have "\<not> frame_used st (32 * i + j)" using use j by blast
    moreover have "32 * i + j \<le> f" using calculation(1) Suc.prems(3) not_le by blast
    moreover have "?w \<noteq> 0xffffffff" using Some by (simp flip: first_clear_none)
    ultimately show ?thesis using i Some
      by (intro exI [of _ "32 * i + j"]) (simp add: mult.commute)
  qed
qed

lemma sint_of_nat32: "n < 2 ^ 31 \<Longrightarrow> sint (of_nat n :: u32) = int n"
  by (simp add: sint_uint unat_of_nat32 uint_nat signed_take_bit_int_eq_self
      del: of_nat_unat flip: word_of_nat_eq_iff)

definition used_set :: "frames \<Rightarrow> nat set" where
  "used_set st = {f. frame_used st f}"

definition frame_inv :: "frames \<Rightarrow> bool" where
  "frame_inv st \<longleftrightarrow> small_map st \<and> length (frame_map st) \<le> unat (max_frames st)
     \<and> used_frames st = of_nat (card (used_set st))"

lemma finite_used_set [simp]: "finite (used_set st)"
  by (rule finite_subset [of _ "{..<32 * length (frame_map st)}"]) (auto simp: used_set_def frame_used_def)

lemma alloc_frame_ok:
  assumes inv: "small_map st" "length (frame_map st) \<le> unat (max_frames st)"
    and free: "f < 32 * length (frame_map st)" "\<not> frame_used st f"
  shows "\<exists>m st'. alloc_frame st = Inr (of_nat m, st') \<and> \<not> frame_used st m \<and> (\<forall>g<m. frame_used st g)
    \<and> m < 32 * length (frame_map st) \<and> used_set st' = insert m (used_set st)
    \<and> used_frames st' = used_frames st + 1 \<and> max_frames st' = max_frames st
    \<and> length (frame_map st') = length (frame_map st)"
proof -
  have max: "max_frames st \<noteq> 0" using inv(2) free(1) by auto
  obtain m where m: "get_first_frame st = Inr (of_nat m)" "m \<le> f" "\<not> frame_used st m" "\<forall>g<m. frame_used st g"
    using first_frame_loop_ok [of st 0 "unat (max_frames st)" f] inv(2) free
    by (auto simp: get_first_frame_def get_frame_count_def)
  have ml: "m < 32 * length (frame_map st)" "m < 2 ^ 31" using m(2) free(1) inv(1) by (auto simp: small_map_def)
  note si = sint_of_nat32 [OF ml(2)]
  have ne: "(of_nat m :: u32) \<noteq> - 1"
  proof
    assume "(of_nat m :: u32) = - 1"
    then have "sint (of_nat m :: u32) = -1" by simp
    then show False using si by simp
  qed
  obtain st' where "bitmap_set (int m) st = Inr st'" "\<forall>g. frame_used st' g \<longleftrightarrow> g = m \<or> frame_used st g"
    "length (frame_map st') = length (frame_map st)" "used_frames st' = used_frames st" "max_frames st' = max_frames st"
    using bitmap_set_ok [OF ml(1)] by blast
  then show ?thesis using m ml ne max si
    by (intro exI [of _ m] exI [of _ "st'\<lparr>used_frames := used_frames st' + 1\<rparr>"])
       (auto simp: alloc_frame_def get_frame_count_def used_set_def frame_used_def)
qed

lemma free_frame_ok:
  assumes "small_map st" "frame_used st f"
  shows "\<exists>st'. free_frame (of_nat f) st = Inr st' \<and> used_set st' = used_set st - {f}
    \<and> used_frames st' = used_frames st - 1 \<and> max_frames st' = max_frames st
    \<and> length (frame_map st') = length (frame_map st)"
proof -
  have f: "f < 32 * length (frame_map st)" "f < 2 ^ 31"
    using assms by (auto simp: frame_used_def small_map_def)
  obtain st' where "bitmap_unset (int f) st = Inr st'" "\<forall>g. frame_used st' g \<longleftrightarrow> g \<noteq> f \<and> frame_used st g"
    "length (frame_map st') = length (frame_map st)" "used_frames st' = used_frames st" "max_frames st' = max_frames st"
    using bitmap_unset_ok [OF f(1)] by blast
  then show ?thesis using sint_of_nat32 [OF f(2)]
    by (intro exI [of _ "st'\<lparr>used_frames := used_frames st' - 1\<rparr>"])
       (auto simp: free_frame_def used_set_def frame_used_def)
qed

lemma get_frame_ok:
  assumes "small_map st" "f < 32 * length (frame_map st)" "f \<le> unat (max_frames st)" "\<not> frame_used st f"
  shows "\<exists>st'. get_frame (of_nat f) st = Inr st' \<and> used_set st' = insert f (used_set st)
    \<and> used_frames st' = used_frames st + 1 \<and> max_frames st' = max_frames st
    \<and> length (frame_map st') = length (frame_map st)"
proof -
  have f: "f < 2 ^ 31" using assms(1,2) by (auto simp: small_map_def)
  have "\<not> of_nat f > max_frames st" using assms(3) f by (simp add: word_less_nat_alt unat_of_nat32)
  moreover obtain st' where "bitmap_set (int f) st = Inr st'" "\<forall>g. frame_used st' g \<longleftrightarrow> g = f \<or> frame_used st g"
    "length (frame_map st') = length (frame_map st)" "used_frames st' = used_frames st" "max_frames st' = max_frames st"
    using bitmap_set_ok [OF assms(2)] by blast
  ultimately show ?thesis using sint_of_nat32 [OF f] assms(2,4)
    by (intro exI [of _ "st'\<lparr>used_frames := used_frames st' + 1\<rparr>"])
       (auto simp: get_frame_def bitmap_test_used used_set_def frame_used_def)
qed

lemma region_deinit_loop_ok:
  assumes "a + n \<le> 32 * length (frame_map st)"
  shows "\<exists>st'. region_deinit_loop n (int a) st = Inr st' \<and> used_set st' = used_set st \<union> {a..<a + n}
    \<and> used_frames st' = used_frames st + of_nat n \<and> length (frame_map st') = length (frame_map st)"
  using assms
proof (induction n arbitrary: a st)
  case (Suc n)
  obtain st1 where st1: "bitmap_set (int a) st = Inr st1" "\<forall>g. frame_used st1 g \<longleftrightarrow> g = a \<or> frame_used st g"
    "length (frame_map st1) = length (frame_map st)" "used_frames st1 = used_frames st"
    using bitmap_set_ok [of a st] Suc.prems by auto
  let ?st = "st1\<lparr>used_frames := used_frames st1 + 1\<rparr>"
  obtain st' where "region_deinit_loop n (int (Suc a)) ?st = Inr st'"
    "used_set st' = used_set ?st \<union> {Suc a..<Suc a + n}" "used_frames st' = used_frames ?st + of_nat n"
    "length (frame_map st') = length (frame_map ?st)"
    using Suc.IH [of "Suc a" ?st] Suc.prems st1(3) by auto
  moreover have "used_set ?st = insert a (used_set st)"
    using st1(2) by (auto simp: used_set_def frame_used_def)
  ultimately show ?case using st1 by (auto simp: add.commute add.left_commute)
qed simp

section \<open>The failing search for several frames\<close>

lemma count_loop_clear:
  assumes "used_set st = {}" "sz \<noteq> 0"
  shows "count_loop st sz b c n 0 = Inr False \<or> count_loop st sz b c n 0 = Inl Out_of_bounds"
proof (induction n arbitrary: c)
  case (Suc n)
  have "bitmap_test x st = Inr False \<or> bitmap_test x st = Inl Out_of_bounds" for x
  proof (cases "bit_ok st x")
    case True
    then obtain f where x: "x = int f" by (metis bit_ok_def nonneg_int_cases)
    then show ?thesis using True assms(1) by (simp add: bitmap_test_used used_set_def)
  qed (simp add: bitmap_test_def)
  from this [of "sint (b + c)"] show ?case using Suc.IH [of "c + 1"] assms(2) by auto
qed simp

lemma first_frames_bits_clear:
  assumes "used_set st = {}" "sz \<noteq> 0"
  shows "first_frames_bits st sz i j n = Inr None \<or> first_frames_bits st sz i j n = Inl Out_of_bounds"
proof (induction n arbitrary: j)
  case (Suc n)
  show ?case
    using count_loop_clear [OF assms, of "of_nat i * 32 + push_bit j 1" 0 "Suc (unat sz)"] Suc.IH [of "Suc j"]
    by (auto simp del: count_loop.simps)
qed simp

lemma first_frames_loop_clear:
  assumes "used_set st = {}" "sz \<noteq> 0"
  shows "first_frames_loop st sz i n = Inr (-1) \<or> first_frames_loop st sz i n = Inl Out_of_bounds"
proof (induction n arbitrary: i)
  case (Suc n)
  show ?case
    using first_frames_bits_clear [OF assms, of i 0 32] Suc.IH [of "Suc i"]
    by (auto simp del: first_frames_bits.simps)
qed simp

section \<open>Properties\<close>

text \<open>C10: as long as the map has a free frame, \<^verbatim>\<open>alloc_frame\<close> returns the lowest
  one, marks exactly that frame, counts it, and keeps the invariant that
  \<^verbatim>\<open>_used_frames\<close> is the number of marked frames; it does not panic.\<close>

theorem alloc_frame_lowest:
  assumes "frame_inv st" "f < 32 * length (frame_map st)" "\<not> frame_used st f"
  shows "\<exists>m st'. alloc_frame st = Inr (of_nat m, st') \<and> m = (LEAST g. \<not> frame_used st g)
    \<and> used_set st' = insert m (used_set st) \<and> m \<notin> used_set st \<and> frame_inv st'"
proof -
  obtain m st' where *: "alloc_frame st = Inr (of_nat m, st')" "\<not> frame_used st m" "\<forall>g<m. frame_used st g"
    "used_set st' = insert m (used_set st)" "used_frames st' = used_frames st + 1"
    "max_frames st' = max_frames st" "length (frame_map st') = length (frame_map st)"
    using alloc_frame_ok [of st f] assms by (auto simp: frame_inv_def)
  moreover have "m = (LEAST g. \<not> frame_used st g)"
    using *(2,3) by (intro Least_equality [symmetric]) (auto simp: not_less [symmetric])
  moreover have new: "m \<notin> used_set st" using *(2) by (simp add: used_set_def)
  moreover have "frame_inv st'"
    using assms(1) *(4-) new by (simp add: frame_inv_def small_map_def add.commute)
  ultimately show ?thesis by blast
qed

theorem alloc_frame_lowest_witness:
  "\<exists>m st'. alloc_frame \<lparr>frame_map = [1], used_frames = 1, max_frames = 32, placement_addr = 0\<rparr> = Inr (of_nat m, st')
     \<and> frame_inv st'"
proof -
  let ?st = "\<lparr>frame_map = [1], used_frames = 1, max_frames = 32, placement_addr = 0\<rparr> :: frames"
  have "frame_used ?st f \<longleftrightarrow> f = 0" for f
    by (cases "f < 32") (simp_all add: frame_used_def bit_1_iff)
  then have "used_set ?st = {0}" "\<not> frame_used ?st 1" by (simp_all add: used_set_def)
  then have "frame_inv ?st" "\<not> frame_used ?st 1"
    by (simp_all add: frame_inv_def small_map_def)
  then show ?thesis using alloc_frame_lowest [of ?st 1] by force
qed

text \<open>C11: releasing the frame \<^verbatim>\<open>alloc_frame\<close> has just returned restores the set of
  used frames and the counter.\<close>

theorem free_alloc_frame:
  assumes "frame_inv st" "f < 32 * length (frame_map st)" "\<not> frame_used st f"
  shows "\<exists>frame st1 st2. alloc_frame st = Inr (frame, st1) \<and> free_frame frame st1 = Inr st2
    \<and> used_set st2 = used_set st \<and> used_frames st2 = used_frames st \<and> frame_inv st2"
proof -
  obtain m st1 where *: "alloc_frame st = Inr (of_nat m, st1)" "\<not> frame_used st m"
    "used_set st1 = insert m (used_set st)" "used_frames st1 = used_frames st + 1"
    "max_frames st1 = max_frames st" "length (frame_map st1) = length (frame_map st)"
    using alloc_frame_ok [of st f] assms by (auto simp: frame_inv_def)
  have "frame_used st1 m" "small_map st1" using * assms(1) by (auto simp: used_set_def frame_inv_def small_map_def)
  then obtain st2 where "free_frame (of_nat m) st1 = Inr st2" "used_set st2 = used_set st1 - {m}"
    "used_frames st2 = used_frames st1 - 1" "max_frames st2 = max_frames st1"
    "length (frame_map st2) = length (frame_map st1)"
    using free_frame_ok by blast
  moreover from this have "used_set st2 = used_set st" using *(2,3) by (auto simp: used_set_def)
  ultimately show ?thesis using * assms(1) by (auto simp: frame_inv_def small_map_def)
qed

theorem free_alloc_frame_witness:
  "\<exists>frame st1 st2. alloc_frame \<lparr>frame_map = [0], used_frames = 0, max_frames = 32, placement_addr = 0\<rparr> = Inr (frame, st1)
     \<and> free_frame frame st1 = Inr st2 \<and> used_frames st2 = 0"
proof -
  let ?st = "\<lparr>frame_map = [0], used_frames = 0, max_frames = 32, placement_addr = 0\<rparr>"
  have "used_set ?st = {}" by (simp add: used_set_def frame_used_def)
  then have "frame_inv ?st" "\<not> frame_used ?st 0"
    by (auto simp: frame_inv_def small_map_def used_set_def)
  then show ?thesis using free_alloc_frame [of ?st 0] by auto
qed

text \<open>\<^verbatim>\<open>alloc_frames\<close> never succeeds when every frame is free.  The search
  counts the used frames after the candidate instead of the free ones, so on an
  empty map it either reads outside the bitmap or panics.\<close>

lemma alloc_frames_fails_on_free_memory:
  assumes "used_set st = {}" "sz \<noteq> 0"
  shows "alloc_frames sz st = Inl Panic \<or> alloc_frames sz st = Inl Out_of_bounds"
  using first_frames_loop_clear [OF assms, of 0 "unat (max_frames st)"]
  by (auto simp: alloc_frames_def get_first_frames_def get_frame_count_def)

end
