(* ===== verification/KHeap.thy ===== *)
theory KHeap
  imports Kmalloc DList Frame
begin

text \<open>
  The entry points \<^verbatim>\<open>kmalloc\<close>, \<^verbatim>\<open>kmalloc_i\<close> and \<^verbatim>\<open>kfree\<close> of
  \<^verbatim>\<open>src/kernel/kmalloc.c\<close> over the size-class allocator: requests of more than 4080
  bytes take whole pages, and released ones wait in the list \<^verbatim>\<open>__huge_queue\<close>.
  Before \<^verbatim>\<open>kmalloc_init\<close> the boot-time allocator of \<^verbatim>\<open>frame.c\<close> serves every request.
  The heap state holds the list nodes of the whole kernel.  This theory also
  shows that the kernel heap provides the allocator interface of the lists.
\<close>

section \<open>State and operations\<close>

record huge_header =
  hh_size :: u32
  hh_magic :: u32

record kheap =
  ks :: slab
  nodes :: nodes
  huge_queue :: list_t
  hh :: "u32 \<Rightarrow> huge_header"
  kframes :: frames

definition kmalloc_init :: "u32 \<Rightarrow> kheap \<Rightarrow> kheap" where
  "kmalloc_init start kh =
     kh\<lparr>ks := (ks kh)\<lparr>kmalloc_start := start, kmalloc_end := start\<rparr>, huge_queue := list_create\<rparr>"

definition kmalloc_pre :: "u32 \<Rightarrow> kheap \<Rightarrow> u32 \<times> kheap" where
  "kmalloc_pre sz kh = (let (p, f) = pre_alloc sz False (kframes kh) in (p, kh\<lparr>kframes := f\<rparr>))"

text \<open>\<^verbatim>\<open>kmalloc\<close> of at most 4080 bytes; the requests for list nodes are of this kind.\<close>

definition kmalloc_lo :: "u32 \<Rightarrow> kheap \<Rightarrow> (u32 \<times> kheap) res" where
  "kmalloc_lo sz kh =
     (if kmalloc_start (ks kh) \<noteq> 0
      then rmap (\<lambda>(a, s). (a, kh\<lparr>ks := s\<rparr>)) (kmalloc_small sz (ks kh))
      else Inr (kmalloc_pre sz kh))"

text \<open>Running a list operation on a list of the kernel heap.\<close>

definition on_list ::
  "(list_t \<times> nodes \<times> kheap \<Rightarrow> (list_t \<times> nodes \<times> kheap) res) \<Rightarrow> list_t \<Rightarrow> kheap \<Rightarrow> (list_t \<times> kheap) res" where
  "on_list f l kh = rmap (\<lambda>(l, h, kh). (l, kh\<lparr>nodes := h\<rparr>)) (f (l, nodes kh, kh))"

definition kfree :: "u32 \<Rightarrow> kheap \<Rightarrow> kheap res" where
  "kfree p kh =
     (if p = 0 then Inr kh
      else if bh_magic (bh (ks kh) (p - 12)) = BLOCK_MAGIC
      then rmap (\<lambda>s. kh\<lparr>ks := s\<rparr>) (kfree_small p (ks kh))
      else if hh_magic (hh kh (p - 0x1000)) \<noteq> BLOCK_MAGIC then Inl Panic
      else rmap (\<lambda>(q, kh). kh\<lparr>huge_queue := q\<rparr>)
             (on_list (list_push_front kmalloc_lo (p - 0x1000)) (huge_queue kh) kh))"

text \<open>
  The scan of \<^verbatim>\<open>__huge_queue\<close>: it does not stop at a block that fits, and \<open>header\<close>
  ends as the last block of the queue.
\<close>

fun huge_scan :: "nat \<Rightarrow> u32 \<Rightarrow> u32 \<Rightarrow> u32 \<Rightarrow> kheap \<Rightarrow> (u32 \<times> kheap) res" where
  "huge_scan 0 sz n header kh = (if n = 0 then Inr (header, kh) else Inl Diverges)"
| "huge_scan (Suc fuel) sz n header kh =
     (if n = 0 then Inr (header, kh)
      else rbind (deref (nodes kh) n) (\<lambda>nd.
        let header = ln_value nd
        in rbind (if hh_size (hh kh header) \<ge> sz
                  then rbind (list_delete (huge_queue kh) (nodes kh) n) (\<lambda>(q, h).
                         kfree n (kh\<lparr>huge_queue := q, nodes := h\<rparr>))
                  else Inr kh) (\<lambda>kh.
           rbind (deref (nodes kh) n) (\<lambda>nd. huge_scan fuel sz (ln_next nd) header kh))))"

definition kmalloc_huge :: "u32 \<Rightarrow> kheap \<Rightarrow> (u32 \<times> kheap) res" where
  "kmalloc_huge sz kh =
     rbind (huge_scan (nat (l_length (huge_queue kh))) sz (l_head (huge_queue kh)) 0 kh) (\<lambda>(header, kh).
     if header \<noteq> 0 then Inr (header + 0x1000, kh)
     else let pages = (sz + 48) div 4096 + 2;
              (header, s) = get_free_pages pages (ks kh)
          in Inr (header + 0x1000,
                  kh\<lparr>ks := s, hh := (hh kh)(header := \<lparr>hh_size = (pages - 1) * 4096, hh_magic = BLOCK_MAGIC\<rparr>)\<rparr>))"

definition kmalloc :: "u32 \<Rightarrow> kheap \<Rightarrow> (u32 \<times> kheap) res" where
  "kmalloc sz kh =
     (if kmalloc_start (ks kh) \<noteq> 0
      then if sz > 4080 then kmalloc_huge sz kh
           else rmap (\<lambda>(a, s). (a, kh\<lparr>ks := s\<rparr>)) (kmalloc_small sz (ks kh))
      else Inr (kmalloc_pre sz kh))"

text \<open>
  \<^verbatim>\<open>kmalloc_i\<close> with the address translation of the paging code as an argument: the
  result is the address and the value stored through \<^verbatim>\<open>phys\<close>.
\<close>

definition kmalloc_i :: "(u32 \<Rightarrow> u32 res) \<Rightarrow> u32 \<Rightarrow> bool \<Rightarrow> bool \<Rightarrow> kheap \<Rightarrow> (u32 \<times> u32 \<times> kheap) res" where
  "kmalloc_i get_physaddr sz align phys kh =
     (if kmalloc_start (ks kh) \<noteq> 0
      then rbind (kmalloc sz kh) (\<lambda>(a, kh).
           if phys then rmap (\<lambda>p. (a, p, kh)) (get_physaddr a) else Inr (a, 0, kh))
      else let (p, f) = pre_alloc sz align (kframes kh) in Inr (p, if phys then p else 0, kh\<lparr>kframes := f\<rparr>))"

section \<open>Requests of at most 4080 bytes\<close>

lemma kmalloc_lo_eq: "sz \<le> 4080 \<Longrightarrow> kmalloc sz kh = kmalloc_lo sz kh"
  by (auto simp: kmalloc_def kmalloc_lo_def not_less [symmetric])

definition kheap_rep :: "kheap \<Rightarrow> u32 set \<Rightarrow> bool" where
  "kheap_rep kh L \<longleftrightarrow> kmalloc_start (ks kh) \<noteq> 0
     \<and> (\<exists>P F Q. slab_inv (ks kh) P F Q \<and> L = (\<lambda>b. b + 12) ` live P F)"

definition kheap_room :: "nat \<Rightarrow> kheap \<Rightarrow> bool" where
  "kheap_room n kh \<longleftrightarrow> heap_room n (ks kh)"

lemma kmalloc_fresh:
  assumes "kheap_rep kh L" "kheap_room (Suc n) kh" "unat sz \<le> 4068"
  shows "\<exists>a kh'. kmalloc sz kh = Inr (a, kh') \<and> kheap_rep kh' (insert a L) \<and> a \<notin> L \<and> a \<noteq> 0
    \<and> kheap_room n kh' \<and> nodes kh' = nodes kh \<and> huge_queue kh' = huge_queue kh \<and> hh kh' = hh kh
    \<and> kframes kh' = kframes kh \<and> unat (kmalloc_end (ks kh)) \<le> unat (kmalloc_end (ks kh'))"
proof -
  obtain P F Q where inv: "slab_inv (ks kh) P F Q" and L: "L = (\<lambda>b. b + 12) ` live P F"
    and st: "kmalloc_start (ks kh) \<noteq> 0" using assms(1) by (auto simp: kheap_rep_def)
  obtain p s where p: "kmalloc_small sz (ks kh) = Inr (p, s)" "alloc_post (ks kh) P F sz p s" "heap_room n s"
    "kmalloc_start s = kmalloc_start (ks kh)" "unat (kmalloc_end (ks kh)) \<le> unat (kmalloc_end s)"
    using kmalloc_small_post [OF inv _ assms(3), of n] assms(2) by (auto simp: kheap_room_def)
  from p(2) obtain P' F' Q' pg k where post: "slab_inv s P' F' Q'" "live P' F' = insert (p - 12) (live P F)"
    "p - 12 \<notin> live P F" "P' pg = Some k" "p - 12 \<in> blocks pg k" unfolding alloc_post_def by blast
  have "p \<noteq> 0" using page_inv_payload(2) [OF slab_invD(2) [OF post(1,4)] post(5)] by simp
  moreover have "p \<notin> L" using post(3) L by (auto simp: image_iff algebra_simps)
  moreover have "insert p L = (\<lambda>b. b + 12) ` live P' F'" using L post(2) by simp
  moreover have "\<not> sz > 4080" using assms(3) by (simp add: word_less_nat_alt)
  ultimately show ?thesis using p(1,3-5) post(1) st
    by (auto simp: kmalloc_def kheap_rep_def kheap_room_def)
qed

lemma kfree_used:
  assumes "kheap_rep kh L" "a \<in> L"
  shows "\<exists>kh'. kfree a kh = Inr kh' \<and> kheap_rep kh' (L - {a}) \<and> (\<forall>n. kheap_room n kh \<longrightarrow> kheap_room n kh')
    \<and> nodes kh' = nodes kh \<and> huge_queue kh' = huge_queue kh \<and> hh kh' = hh kh"
proof -
  obtain P F Q where inv: "slab_inv (ks kh) P F Q" and L: "L = (\<lambda>b. b + 12) ` live P F"
    and st: "kmalloc_start (ks kh) \<noteq> 0" using assms(1) by (auto simp: kheap_rep_def)
  have b: "a - 12 \<in> live P F" using assms(2) L by auto
  then obtain pg k where pk: "P pg = Some k" "a - 12 \<in> blocks pg k" by (auto simp: live_def)
  have pi: "page_inv (ks kh) pg k (F pg)" by (rule slab_invD(2) [OF inv pk(1)])
  then have magic: "bh_magic (bh (ks kh) (a - 12)) = BLOCK_MAGIC" using pk(2) by (auto simp: page_inv_def)
  have "a \<noteq> 0" using page_inv_payload(2) [OF pi pk(2)] by simp
  obtain s F' Q' where s: "kfree_small a (ks kh) = Inr s" "slab_inv s P F' Q'" "live P F' = live P F - {a - 12}"
    "kmalloc_end s = kmalloc_end (ks kh)" "kmalloc_start s = kmalloc_start (ks kh)"
    using kfree_small_inv [OF inv b] by blast
  have "L - {a} = (\<lambda>b. b + 12) ` live P F'"
    unfolding L s(3) by (auto simp: image_iff algebra_simps)
  then have "kheap_rep (kh\<lparr>ks := s\<rparr>) (L - {a})"
    using s(2,5) st unfolding kheap_rep_def by auto
  then show ?thesis using s(1,4) magic \<open>a \<noteq> 0\<close>
    by (auto simp: kfree_def kheap_room_def heap_room_def)
qed

interpretation kalloc: allocator kmalloc kfree kheap_rep kheap_room
proof
  show "\<exists>a k'. kmalloc sz k = Inr (a, k') \<and> kheap_rep k' (insert a L) \<and> a \<notin> L \<and> a \<noteq> 0 \<and> kheap_room n k'"
    if "kheap_rep k L" "kheap_room (Suc n) k" "unat sz \<le> 4068" for k L n sz
    using kmalloc_fresh [OF that] by blast
  show "\<exists>k'. kfree a k = Inr k' \<and> kheap_rep k' (L - {a}) \<and> (\<forall>n. kheap_room n k \<longrightarrow> kheap_room n k')"
    if "kheap_rep k L" "a \<in> L" for k L a
    using kfree_used [OF that] by blast
qed

lemma kheap_rep_nodes [simp]:
  "kheap_rep (kh\<lparr>nodes := h\<rparr>) L = kheap_rep kh L" "kheap_room n (kh\<lparr>nodes := h\<rparr>) = kheap_room n kh"
  "kheap_rep (kh\<lparr>kframes := f\<rparr>) L = kheap_rep kh L" "kheap_room n (kh\<lparr>kframes := f\<rparr>) = kheap_room n kh"
  by (simp_all add: kheap_rep_def kheap_room_def)

abbreviation addrs :: "(u32 \<times> u32) list \<Rightarrow> u32 set" where
  "addrs xs \<equiv> fst ` set xs"

lemma on_list_push_front:
  assumes "kheap_rep kh L" "dlist l (nodes kh) xs" "addrs xs \<subseteq> L" "kheap_room (Suc n) kh"
  shows "\<exists>a l' kh'. on_list (list_push_front kmalloc v) l kh = Inr (l', kh') \<and> a \<notin> L
    \<and> kheap_rep kh' (insert a L) \<and> dlist l' (nodes kh') ((a, v) # xs) \<and> kheap_room n kh'
    \<and> (\<forall>b\<in>L - addrs xs. nodes kh' b = nodes kh b)"
  using kalloc.queue_push [of l "nodes kh" kh L xs n v] assms
  by (fastforce simp: queue_rep_def on_list_def)

lemma on_list_push_back:
  assumes "kheap_rep kh L" "dlist l (nodes kh) xs" "addrs xs \<subseteq> L" "kheap_room (Suc n) kh"
  shows "\<exists>a l' kh'. on_list (list_push_back kmalloc v) l kh = Inr (l', kh') \<and> a \<notin> L
    \<and> kheap_rep kh' (insert a L) \<and> dlist l' (nodes kh') (xs @ [(a, v)]) \<and> kheap_room n kh'
    \<and> (\<forall>b\<in>L - addrs xs. nodes kh' b = nodes kh b)"
proof -
  obtain a k where a: "kmalloc 12 kh = Inr (a, k)" "kheap_rep k (insert a L)" "a \<notin> L" "a \<noteq> 0" "kheap_room n k"
    using kmalloc_fresh [OF assms(1,4), of 12] by auto
  then obtain l' h' where "list_push_back kmalloc v (l, nodes kh, kh) = Inr (l', h', k)" "dlist l' h' (xs @ [(a, v)])"
    "\<forall>b. b \<noteq> a \<longrightarrow> b \<notin> addrs xs \<longrightarrow> h' b = nodes kh b"
    using list_push_back_ok [OF assms(2), of kmalloc kh a k v] assms(3) by blast
  then show ?thesis using a by (intro exI [of _ a] exI [of _ l'] exI [of _ "k\<lparr>nodes := h'\<rparr>"]) (auto simp: on_list_def)
qed

lemma on_list_insert_after:
  assumes "kheap_rep kh L" "flist l (nodes kh) (xs @ ys)" "addrs (xs @ ys) \<subseteq> L" "kheap_room (Suc n) kh"
  shows "\<exists>a l' kh'. on_list (list_insert_after kmalloc (last_addr 0 xs) v) l kh = Inr (l', kh') \<and> a \<notin> L
    \<and> kheap_rep kh' (insert a L) \<and> flist l' (nodes kh') (xs @ (a, v) # ys) \<and> kheap_room n kh'
    \<and> (\<forall>b\<in>L - addrs (xs @ ys). nodes kh' b = nodes kh b)"
proof -
  obtain a k where a: "kmalloc 12 kh = Inr (a, k)" "kheap_rep k (insert a L)" "a \<notin> L" "a \<noteq> 0" "kheap_room n k"
    using kmalloc_fresh [OF assms(1,4), of 12] by auto
  have af: "a \<notin> addrs (xs @ ys)" using a(3) assms(3) by blast
  have "\<exists>l' h'. list_insert_after kmalloc (last_addr 0 xs) v (l, nodes kh, kh) = Inr (l', h', k)
    \<and> flist l' h' (xs @ (a, v) # ys) \<and> (\<forall>b. b \<noteq> a \<longrightarrow> b \<notin> addrs (xs @ ys) \<longrightarrow> h' b = nodes kh b)"
  proof (cases xs rule: rev_cases)
    case Nil
    then show ?thesis using flist_push_front [of l "nodes kh" ys kmalloc kh a k v] a assms(2) af
      by (simp add: list_insert_after_def)
  next
    case (snoc zs x)
    obtain m w where x: "x = (m, w)" by fastforce
    then show ?thesis using flist_insert_after [of l "nodes kh" zs m w ys kmalloc kh a k v] a assms(2) af snoc
      by simp
  qed
  then show ?thesis using a by (force simp: on_list_def)
qed

section \<open>Requests of more than 4080 bytes\<close>

lemma huge_pages:
  assumes "unat sz + 4144 < 2 ^ 32"
  shows "unat ((sz + 48) div 4096 + 2 :: u32) = (unat sz + 48) div 4096 + 2"
    "unat (((sz + 48) div 4096 + 2 - 1) * 4096 :: u32) = ((unat sz + 48) div 4096 + 1) * 4096"
proof -
  let ?q = "(unat sz + 48) div 4096"
  have s48: "unat (sz + 48) = unat sz + 48" using assms by (subst unat_add_lem [THEN iffD1]) simp_all
  have q: "unat ((sz + 48) div 4096) = ?q" by (simp add: unat_div s48)
  have "?q * 4096 \<le> unat sz + 48" by (rule div_times_less_eq_dividend)
  then have lt: "?q * 4096 + 4096 < 2 ^ 32" "?q + 2 < 2 ^ 32" using assms by linarith+
  have 1: "(sz + 48) div 4096 + 2 - 1 = (sz + 48) div 4096 + 1" by simp
  have q1: "unat ((sz + 48) div 4096 + 1) = ?q + 1" "unat ((sz + 48) div 4096 + 2) = ?q + 2"
    using lt by (subst unat_add_lem [THEN iffD1], simp_all add: q)+
  show "unat ((sz + 48) div 4096 + 2) = ?q + 2" by (rule q1(2))
  show "unat (((sz + 48) div 4096 + 2 - 1) * 4096) = (?q + 1) * 4096"
    unfolding 1 using lt q1(1) by (subst unat_mult_lem [THEN iffD1]) simp_all
qed

lemma get_free_pages_ok:
  assumes "4096 \<le> unat (kmalloc_end st)" "unat (kmalloc_end st) + 4096 + unat n * 4096 < 2 ^ 32"
    and "get_free_pages n st = (a, st')"
  shows "page_aligned a" "unat (kmalloc_end st) < unat a" "unat (kmalloc_end st') = unat a + unat n * 4096"
    "bh st' = bh st" "pd st' = pd st" "sizes st' = sizes st" "kmalloc_start st' = kmalloc_start st"
proof -
  have [simp]: "a = page_round (kmalloc_end st)" "st' = st\<lparr>kmalloc_end := a + n * 0x1000\<rparr>"
    using assms(3) by (auto simp: get_free_pages_def Let_def)
  note pr = page_round_ok [of "kmalloc_end st"]
  show "page_aligned a" "unat (kmalloc_end st) < unat a" using pr assms by simp_all
  have "unat (n * 0x1000) = unat n * 4096" using assms by (subst unat_mult_lem [THEN iffD1]) simp_all
  moreover have "unat (page_round (kmalloc_end st)) \<le> unat (kmalloc_end st) + 4096" using pr assms by simp
  ultimately show "unat (kmalloc_end st') = unat a + unat n * 4096"
    using assms(2) by simp (subst unat_add_lem [THEN iffD1], simp_all)
  show "bh st' = bh st" "pd st' = pd st" "sizes st' = sizes st" "kmalloc_start st' = kmalloc_start st"
    by simp_all
qed

lemma huge_scan_none:
  assumes "dseg (nodes kh) p n xs 0" "\<forall>(b, v)\<in>set xs. hh_size (hh kh v) < sz"
  shows "huge_scan (length xs) sz n header kh = Inr (if xs = [] then header else snd (last xs), kh)"
  using assms
proof (induction xs arbitrary: p n header)
  case (Cons x xs)
  obtain m v where x: "x = (m, v)" by fastforce
  with Cons.prems obtain nx where "n = m" "m \<noteq> 0" "dseg (nodes kh) m nx xs 0"
    "nodes kh m = Some \<lparr>ln_prev = p, ln_next = nx, ln_value = v\<rparr>" by auto
  moreover have "\<not> sz \<le> hh_size (hh kh v)" using Cons.prems(2) x by auto
  ultimately show ?case using Cons.IH [of m nx v] Cons.prems(2) x by (auto simp: Let_def)
qed simp

section \<open>Properties\<close>

text \<open>C1: a request of at most 4068 bytes on an initialised heap with room returns an
  address whose block was not in use; the block lies in one page, is big enough
  for the request and its header, overlaps no block of any page (in use or
  free), and the heap invariant, the headers of the blocks in use and everything outside the size-class
  allocator are kept.\<close>

theorem kmalloc_fresh_block:
  assumes "slab_inv (ks kh) P F Q" "heap_room 1 (ks kh)" "kmalloc_start (ks kh) \<noteq> 0" "unat sz \<le> 4068"
  shows "\<exists>p kh' P' F' Q' pg k. kmalloc sz kh = Inr (p, kh') \<and> slab_inv (ks kh') P' F' Q'
    \<and> p - 12 \<notin> live P F \<and> live P' F' = insert (p - 12) (live P F)
    \<and> P' pg = Some k \<and> p - 12 \<in> blocks pg k \<and> unat sz + 12 \<le> bsize k
    \<and> (\<forall>pg' j b. P' pg' = Some j \<longrightarrow> b \<in> blocks pg' j \<longrightarrow> b \<noteq> p - 12 \<longrightarrow>
         unat b + bsize j \<le> unat (p - 12) \<or> unat p + unat sz \<le> unat b)
    \<and> (\<forall>b\<in>live P F. bh (ks kh') b = bh (ks kh) b)
    \<and> nodes kh' = nodes kh \<and> huge_queue kh' = huge_queue kh \<and> hh kh' = hh kh"
proof -
  obtain p s where p: "kmalloc_small sz (ks kh) = Inr (p, s)" "alloc_post (ks kh) P F sz p s"
    using kmalloc_small_post [OF assms(1) _ assms(4), of 0] assms(2) by auto
  from p(2) obtain P' F' Q' pg k where post: "slab_inv s P' F' Q'" "live P' F' = insert (p - 12) (live P F)"
    "p - 12 \<notin> live P F" "P' pg = Some k" "p - 12 \<in> blocks pg k" "unat sz + 12 \<le> bsize k"
    "\<forall>b\<in>live P F. bh s b = bh (ks kh) b" unfolding alloc_post_def by blast
  have pi: "page_inv s x j (F' x)" if "P' x = Some j" for x j by (rule slab_invD(2) [OF post(1) that])
  have up: "unat p = unat (p - 12) + 12" using page_inv_payload(1) [OF pi [OF post(4)] post(5)] by simp
  have "unat b + bsize j \<le> unat (p - 12) \<or> unat p + unat sz \<le> unat b"
    if "P' x = Some j" "b \<in> blocks x j" "b \<noteq> p - 12" for x j b
  proof -
    have al: "page_aligned x" "j < 8" "page_aligned pg" "k < 8" "x = pg \<longrightarrow> j = k"
      using pi [OF that(1)] pi [OF post(4)] that(1) post(4) by (auto simp: page_inv_def)
    show ?thesis
      using blocks_disjoint [OF al(1,2) that(2) al(3,4) post(5) that(3) al(5)] post(6) up by linarith
  qed
  moreover have "kmalloc sz kh = Inr (p, kh\<lparr>ks := s\<rparr>)"
    using p(1) assms(3,4) by (simp add: kmalloc_def word_less_nat_alt)
  ultimately show ?thesis using post
    by (intro exI [of _ p] exI [of _ "kh\<lparr>ks := s\<rparr>"] exI [of _ P'] exI [of _ F'] exI [of _ Q']
        exI [of _ pg] exI [of _ k]) auto
qed

definition empty_heap :: "u32 \<Rightarrow> kheap" where
  "empty_heap start = \<lparr>
     ks = \<lparr>bh = (\<lambda>_. \<lparr>bh_flags = 0, bh_magic = 0, bh_vp = 0\<rparr>),
           pd = (\<lambda>_. \<lparr>pd_next = 0, pd_firstfree = 0, pd_order = 0, pd_nfree = 0\<rparr>),
           sizes = init_sizes, kmalloc_start = start, kmalloc_end = start\<rparr>,
     nodes = Map.empty, huge_queue = list_create, hh = (\<lambda>_. \<lparr>hh_size = 0, hh_magic = 0\<rparr>),
     kframes = \<lparr>frame_map = [], used_frames = 0, max_frames = 0, placement_addr = 0\<rparr>\<rparr>"

lemma empty_heap_inv: "slab_inv (ks (empty_heap start)) Map.empty (\<lambda>_. []) (\<lambda>_. [])"
  by (auto simp: slab_inv_def empty_heap_def sizes_ok_def init_sizes_def class_inv_def comp_def split_def
      nth_map size_table_def less_Suc_eq numeral_eq_Suc nth_Cons')

lemma empty_heap_rep: "start \<noteq> 0 \<Longrightarrow> kheap_rep (empty_heap start) {}"
  using empty_heap_inv [of start] by (auto simp: kheap_rep_def live_def empty_heap_def)

lemma empty_heap_room: "kheap_room 3 (empty_heap 0xc0000000)"
  by (simp add: kheap_room_def heap_room_def empty_heap_def)

theorem kmalloc_fresh_block_witness:
  "\<exists>p kh' P' F' Q'. kmalloc 100 (empty_heap 0xc0000000) = Inr (p, kh') \<and> slab_inv (ks kh') P' F' Q'
     \<and> live P' F' = {p - 12}"
proof -
  let ?kh = "empty_heap 0xc0000000"
  have "heap_room 1 (ks ?kh)" "kmalloc_start (ks ?kh) \<noteq> 0" "live Map.empty (\<lambda>_. []) = {}"
    by (simp_all add: heap_room_def empty_heap_def live_def)
  then show ?thesis using kmalloc_fresh_block [OF empty_heap_inv [of "0xc0000000"], of 100] by simp blast
qed

text \<open>C2: releasing a block in use succeeds, removes exactly that block from the blocks
  in use and keeps the heap invariant, the headers of the other blocks in use, and the room
  for further requests.\<close>

theorem kfree_releases_block:
  assumes "slab_inv (ks kh) P F Q" "p - 12 \<in> live P F"
  shows "\<exists>kh' F' Q'. kfree p kh = Inr kh' \<and> slab_inv (ks kh') P F' Q'
    \<and> live P F' = live P F - {p - 12} \<and> (\<forall>b\<in>live P F'. bh (ks kh') b = bh (ks kh) b)
    \<and> kmalloc_end (ks kh') = kmalloc_end (ks kh) \<and> nodes kh' = nodes kh"
proof -
  obtain pg k where pk: "P pg = Some k" "p - 12 \<in> blocks pg k" using assms(2) by (auto simp: live_def)
  have pi: "page_inv (ks kh) pg k (F pg)" by (rule slab_invD(2) [OF assms(1) pk(1)])
  then have "bh_magic (bh (ks kh) (p - 12)) = BLOCK_MAGIC" using pk(2) by (auto simp: page_inv_def)
  moreover have "p \<noteq> 0" using page_inv_payload(2) [OF pi pk(2)] by simp
  moreover obtain s F' Q' where "kfree_small p (ks kh) = Inr s" "slab_inv s P F' Q'"
    "live P F' = live P F - {p - 12}" "\<forall>b\<in>live P F - {p - 12}. bh s b = bh (ks kh) b"
    "kmalloc_end s = kmalloc_end (ks kh)"
    using kfree_small_inv [OF assms] by blast
  ultimately show ?thesis
    by (intro exI [of _ "kh\<lparr>ks := s\<rparr>"] exI [of _ F'] exI [of _ Q']) (auto simp: kfree_def)
qed

theorem kfree_releases_block_witness:
  "\<exists>p kh kh'. kmalloc 100 (empty_heap 0xc0000000) = Inr (p, kh) \<and> kfree p kh = Inr kh'"
proof -
  have *: "heap_room 1 (ks (empty_heap 0xc0000000))" "kmalloc_start (ks (empty_heap 0xc0000000)) \<noteq> 0"
    by (simp_all add: heap_room_def empty_heap_def)
  obtain p s where p: "kmalloc_small 100 (ks (empty_heap 0xc0000000)) = Inr (p, s)"
    "alloc_post (ks (empty_heap 0xc0000000)) Map.empty (\<lambda>_. []) 100 p s"
    using kmalloc_small_post [OF empty_heap_inv [of "0xc0000000"], of 0 100] *(1) by auto
  let ?kh = "(empty_heap 0xc0000000)\<lparr>ks := s\<rparr>"
  from p(2) obtain P' F' Q' where "slab_inv (ks ?kh) P' F' Q'" "p - 12 \<in> live P' F'"
    unfolding alloc_post_def by auto
  from kfree_releases_block [OF this] p(1) *(2) show ?thesis by (auto simp: kmalloc_def)
qed

lemma kmalloc_huge_block:
  assumes "dlist (huge_queue kh) (nodes kh) []" "kmalloc_start (ks kh) \<noteq> 0" "4080 < unat sz"
    and "slab_inv (ks kh) P F Q" "4096 \<le> unat (kmalloc_end (ks kh))"
    and "unat (kmalloc_end (ks kh)) + unat sz + 0x4000 < 2 ^ 32"
  shows "\<exists>p kh'. kmalloc sz kh = Inr (p, kh') \<and> page_aligned p
    \<and> unat (kmalloc_end (ks kh)) < unat p \<and> unat p + unat sz \<le> unat (kmalloc_end (ks kh'))
    \<and> unat sz \<le> unat (hh_size (hh kh' (p - 0x1000))) \<and> hh_magic (hh kh' (p - 0x1000)) = BLOCK_MAGIC
    \<and> slab_inv (ks kh') P F Q \<and> kmalloc_start (ks kh') = kmalloc_start (ks kh)
    \<and> unat (kmalloc_end (ks kh')) \<le> unat (kmalloc_end (ks kh)) + unat sz + 0x4000
    \<and> kframes kh' = kframes kh \<and> nodes kh' = nodes kh \<and> huge_queue kh' = huge_queue kh"
proof -
  let ?n = "(sz + 48) div 4096 + 2" and ?q = "(unat sz + 48) div 4096"
  obtain a s where g: "get_free_pages ?n (ks kh) = (a, s)" by fastforce
  have "?q * 4096 \<le> unat sz + 48" "unat sz + 48 < ?q * 4096 + 4096"
    using div_mult_mod_eq [of "unat sz + 48" 4096] mod_less_divisor [of 4096 "unat sz + 48"] by linarith+
  note q = this
  have n: "unat ?n = ?q + 2" "unat ((?n - 1) * 4096) = (?q + 1) * 4096" using huge_pages [of sz] assms(6) by auto
  have "unat (kmalloc_end (ks kh)) + 4096 + unat ?n * 4096 < 2 ^ 32" using q n(1) assms(6) by (simp add: algebra_simps)
  note gp = get_free_pages_ok [OF assms(5) this g]
  have e: "unat (kmalloc_end s) = unat a + ?q * 4096 + 8192" using gp(3) n(1) by (simp add: algebra_simps)
  have ua: "unat (a + 0x1000) = unat a + 4096"
    using e u32_bound [of "kmalloc_end s"] by (subst unat_add_lem [THEN iffD1]) simp_all
  let ?kh = "kh\<lparr>ks := s, hh := (hh kh)(a := \<lparr>hh_size = (?n - 1) * 4096, hh_magic = BLOCK_MAGIC\<rparr>)\<rparr>"
  have "l_head (huge_queue kh) = 0" "l_length (huge_queue kh) = 0" using assms(1) by (auto simp: dlist_def)
  then have "kmalloc sz kh = Inr (a + 0x1000, ?kh)"
    using assms(2,3) g by (simp add: kmalloc_def kmalloc_huge_def word_less_nat_alt Let_def)
  moreover have "page_aligned (a + 0x1000)" using gp(1) ua by (simp add: page_aligned_def)
  moreover have "unat sz \<le> unat (hh_size (hh ?kh (a + 0x1000 - 0x1000)))" using n(2) q by simp
  moreover have "slab_inv s P F Q" using slab_inv_bump [OF assms(4)] gp e by simp
  moreover have "kmalloc_start s = kmalloc_start (ks kh)" "unat a \<le> unat (kmalloc_end (ks kh)) + 4096"
    using g page_round_ok(3) [OF assms(5)] assms(6) by (auto simp: get_free_pages_def Let_def)
  ultimately show ?thesis using gp(2) e ua q
    by (intro exI [of _ "a + 0x1000"] exI [of _ ?kh]) auto
qed

text \<open>What a huge request leaves alone: the lists and the blocks in use of the size classes.\<close>

definition kheap_keeps :: "kheap \<Rightarrow> kheap \<Rightarrow> bool" where
  "kheap_keeps kh kh' \<longleftrightarrow> nodes kh' = nodes kh \<and> huge_queue kh' = huge_queue kh
     \<and> (\<forall>L. kheap_rep kh L \<longrightarrow> kheap_rep kh' L)"

lemma kmalloc_huge_keeps:
  assumes "dlist (huge_queue kh) (nodes kh) []" "4080 < unat sz" "4096 \<le> unat (kmalloc_end (ks kh))"
    and "unat (kmalloc_end (ks kh)) + unat sz + 0x4000 < 2 ^ 32" "kmalloc sz kh = Inr (p, kh')"
    and "kmalloc_start (ks kh) \<noteq> 0" "slab_inv (ks kh) P F Q"
  shows "kheap_keeps kh kh'"
proof -
  have *: "nodes kh' = nodes kh \<and> huge_queue kh' = huge_queue kh \<and> kmalloc_start (ks kh') = kmalloc_start (ks kh) \<and> slab_inv (ks kh') P F Q"
    if "slab_inv (ks kh) P F Q" for P F Q
    using kmalloc_huge_block [OF assms(1,6,2) that assms(3,4)] assms(5) by auto
  have "kheap_rep kh' L" if "kheap_rep kh L" for L
    using that * unfolding kheap_rep_def by metis
  then show ?thesis using * [OF assms(7)] by (simp add: kheap_keeps_def)
qed

text \<open>C13: with no released huge block queued, a request of more than 4080 bytes gets a
  page-aligned range above everything the heap has handed out so far and below
  its new end; the range holds the requested bytes, its recorded size is at least the request, and the
  size-class allocator is not disturbed.\<close>

theorem kmalloc_huge_fresh:
  assumes "dlist (huge_queue kh) (nodes kh) []" "kmalloc_start (ks kh) \<noteq> 0" "4080 < unat sz"
    and "slab_inv (ks kh) P F Q" "4096 \<le> unat (kmalloc_end (ks kh))"
    and "unat (kmalloc_end (ks kh)) + unat sz + 0x4000 < 2 ^ 32"
  shows "\<exists>p kh'. kmalloc sz kh = Inr (p, kh') \<and> page_aligned p
    \<and> unat (kmalloc_end (ks kh)) < unat p \<and> unat p + unat sz \<le> unat (kmalloc_end (ks kh'))
    \<and> unat sz \<le> unat (hh_size (hh kh' (p - 0x1000))) \<and> hh_magic (hh kh' (p - 0x1000)) = BLOCK_MAGIC
    \<and> slab_inv (ks kh') P F Q"
  using kmalloc_huge_block [OF assms] by blast

theorem kmalloc_huge_fresh_witness:
  "\<exists>p kh'. kmalloc 8192 (empty_heap 0xc0000000) = Inr (p, kh') \<and> page_aligned p"
  using kmalloc_huge_fresh [of "empty_heap 0xc0000000" 8192, OF _ _ _ empty_heap_inv]
  by (auto simp: empty_heap_def dlist_def list_create_def)

text \<open>C20: when every released huge block is smaller than the request, the scan still
  hands out the last block of the queue: the caller gets a block that is too
  small, and the block stays queued.\<close>

theorem kmalloc_huge_returns_small_block:
  assumes "dlist (huge_queue kh) (nodes kh) (xs @ [(n, v)])" "kmalloc_start (ks kh) \<noteq> 0" "4080 < sz" "v \<noteq> 0"
    and "\<forall>(b, w)\<in>set (xs @ [(n, v)]). hh_size (hh kh w) < sz"
  shows "kmalloc sz kh = Inr (v + 0x1000, kh) \<and> hh_size (hh kh v) < sz"
proof -
  have "huge_scan (length (xs @ [(n, v)])) sz (l_head (huge_queue kh)) 0 kh = Inr (v, kh)"
    using huge_scan_none [of kh 0 _ "xs @ [(n, v)]" sz 0] assms(1,5) by (simp add: dlist_def)
  then show ?thesis using assms by (simp add: kmalloc_def kmalloc_huge_def dlist_def nat_add_distrib)
qed

theorem kmalloc_huge_returns_small_block_witness:
  "\<exists>kh. hh_size (hh kh 0xc0001000) = 4096 \<and> kmalloc 100000 kh = Inr (0xc0001000 + 0x1000, kh)"
proof -
  let ?kh = "(empty_heap 0xc0000000)\<lparr>nodes := [64 \<mapsto> \<lparr>ln_prev = 0, ln_next = 0, ln_value = 0xc0001000\<rparr>],
    huge_queue := \<lparr>l_head = 64, l_tail = 64, l_length = 1\<rparr>,
    hh := \<lambda>_. \<lparr>hh_size = 4096, hh_magic = BLOCK_MAGIC\<rparr>\<rparr>"
  show ?thesis
    using kmalloc_huge_returns_small_block [of ?kh "[]" 64 "0xc0001000" 100000]
    by (intro exI [of _ ?kh]) (simp add: dlist_def empty_heap_def)
qed

text \<open>Requests of 4069 to 4080 bytes take the size-class path, but no size class
  has room for them with their header: \<^verbatim>\<open>get_order\<close> runs off its end without returning a value.\<close>

lemma kmalloc_gap:
  assumes "sizes_ok (ks kh)" "kmalloc_start (ks kh) \<noteq> 0" "4069 \<le> unat sz" "unat sz \<le> 4080"
  shows "kmalloc sz kh = Inl No_return"
proof -
  have "map sd_size (sizes (ks kh)) = map fst size_table"
    using assms(1) unfolding sizes_ok_def by (metis (no_types, lifting) map_eq_conv comp_apply fst_conv map_map)
  then obtain d0 d1 d2 d3 d4 d5 d6 d7 d8 where
    "sizes (ks kh) = [d0, d1, d2, d3, d4, d5, d6, d7, d8]" "map sd_size [d0, d1, d2, d3, d4, d5, d6, d7, d8] =
      [32, 64, 128, 252, 508, 1020, 2040, 4080, 0]"
    by (auto simp: size_table_def map_eq_Cons_conv)
  moreover have "4069 \<le> uint sz" using assms(3) by (simp add: uint_nat del: of_nat_unat)
  ultimately have "get_order (ks kh) (uint sz) = Inl No_return" by (auto simp: get_order_def)
  then show ?thesis using assms(2,4) by (simp add: kmalloc_def kmalloc_small_def word_less_nat_alt)
qed

end
