(* ===== verification/Hal.thy ===== *)
theory Hal
  imports Prelude
begin

text \<open>
  The hardware layer: descriptor tables of \<^verbatim>\<open>src/hal/descriptor.c\<close>, interrupt
  nesting and handler chains of \<^verbatim>\<open>src/hal/irq.c\<close> and exceptions of
  \<^verbatim>\<open>src/hal/isr.c\<close>.  The processor's interrupt flag and the port writes are part of
  the state; handlers are identified by their address, and calling one is an
  argument of the dispatchers.  The addresses of the assembly stubs are an
  argument of \<open>idt_init\<close>.
\<close>

section \<open>Descriptors\<close>

record gdt_t =
  gdt_limit :: u16
  gdt_base_low :: u16
  gdt_base_mid :: u8
  gdt_flags :: u8
  gdt_grand :: u8
  gdt_base_high :: u8

record idt_t =
  idt_base_low :: u16
  idt_selector :: u16
  idt_reserved :: u8
  idt_flags :: u8
  idt_base_high :: u16

definition gdt_gate :: "u32 \<Rightarrow> u32 \<Rightarrow> u8 \<Rightarrow> u8 \<Rightarrow> gdt_t" where
  "gdt_gate base limit access grand =
     \<lparr>gdt_limit = ucast (limit AND 0xffff),
      gdt_base_low = ucast (base AND 0xffff),
      gdt_base_mid = ucast (drop_bit 16 base AND 0xff),
      gdt_flags = access,
      gdt_grand = ucast (drop_bit 16 limit AND 0x0f) OR (grand AND 0xf0),
      gdt_base_high = ucast (drop_bit 24 base AND 0xff)\<rparr>"

definition gdt_set_gate :: "nat \<Rightarrow> u32 \<Rightarrow> u32 \<Rightarrow> u8 \<Rightarrow> u8 \<Rightarrow> gdt_t list \<Rightarrow> gdt_t list res" where
  "gdt_set_gate i base limit access grand gdt =
     (if i < length gdt then Inr (gdt[i := gdt_gate base limit access grand]) else Inl Out_of_bounds)"

definition idt_gate :: "u32 \<Rightarrow> u16 \<Rightarrow> u8 \<Rightarrow> idt_t" where
  "idt_gate base selector flags =
     \<lparr>idt_base_low = ucast (base AND 0xffff), idt_selector = selector, idt_reserved = 0,
      idt_flags = flags OR 0x60, idt_base_high = ucast (drop_bit 16 base AND 0xffff)\<rparr>"

definition idt_set_gate :: "u8 \<Rightarrow> u32 \<Rightarrow> u16 \<Rightarrow> u8 \<Rightarrow> idt_t list \<Rightarrow> idt_t list res" where
  "idt_set_gate i base selector flags idt =
     (if unat i < length idt then Inr (idt[unat i := idt_gate base selector flags]) else Inl Out_of_bounds)"

record tss_t =
  tss_esp0 :: u32
  tss_ss0 :: u32
  tss_cs :: u32
  tss_segs :: u32

definition set_kernel_stack :: "u32 \<Rightarrow> tss_t \<Rightarrow> tss_t" where
  "set_kernel_stack stack tss = tss\<lparr>tss_esp0 := stack\<rparr>"

text \<open>\<open>base\<close> is the address of \<^verbatim>\<open>tss_entry\<close>; \<open>tss_segs\<close> stands for ss, ds, es, fs and gs.\<close>

definition write_tss :: "u32 \<Rightarrow> nat \<Rightarrow> u32 \<Rightarrow> u32 \<Rightarrow> gdt_t list \<Rightarrow> (gdt_t list \<times> tss_t) res" where
  "write_tss base num ss0 esp0 gdt =
     rmap (\<lambda>gdt. (gdt, \<lparr>tss_esp0 = esp0, tss_ss0 = ss0, tss_cs = 0x0b, tss_segs = 0x13\<rparr>))
       (gdt_set_gate num base (base + 104) 0xE9 0x00 gdt)"

definition gdt_init :: "u32 \<Rightarrow> gdt_t list \<Rightarrow> (gdt_t list \<times> tss_t) res" where
  "gdt_init tss_addr gdt =
     rbind (gdt_set_gate 0 0 0 0 0 gdt) (\<lambda>gdt.
     rbind (gdt_set_gate 1 0 0xFFFFFFFF 0x9A 0xCF gdt) (\<lambda>gdt.
     rbind (gdt_set_gate 2 0 0xFFFFFFFF 0x92 0xCF gdt) (\<lambda>gdt.
     rbind (gdt_set_gate 3 0 0xFFFFFFFF 0xFA 0xCF gdt) (\<lambda>gdt.
     rbind (gdt_set_gate 4 0 0xFFFFFFFF 0xF2 0xCF gdt) (\<lambda>gdt.
     write_tss tss_addr 5 0x10 0 gdt)))))"

definition idt_zero :: idt_t where
  "idt_zero = \<lparr>idt_base_low = 0, idt_selector = 0, idt_reserved = 0, idt_flags = 0, idt_base_high = 0\<rparr>"

text \<open>The vectors of \<^verbatim>\<open>idt_init\<close> in the order of the calls.\<close>

definition idt_vectors :: "nat list" where
  "idt_vectors = [0..<48] @ [128]"

fun idt_set_all :: "(nat \<Rightarrow> u32) \<Rightarrow> nat list \<Rightarrow> idt_t list \<Rightarrow> idt_t list res" where
  "idt_set_all stub [] idt = Inr idt"
| "idt_set_all stub (v # vs) idt =
     rbind (idt_set_gate (of_nat v) (stub v) 0x08 0x8E idt) (idt_set_all stub vs)"

text \<open>\<^verbatim>\<open>idt_init\<close>: the table and the port writes that remap the interrupt controllers.\<close>

definition idt_init :: "(nat \<Rightarrow> u32) \<Rightarrow> (idt_t list \<times> (u16 \<times> u8) list) res" where
  "idt_init stub =
     rmap (\<lambda>idt. (idt, [(0x20, 0x11), (0xA0, 0x11), (0x21, 0x20), (0xA1, 0x28),
                        (0x21, 0x04), (0xA1, 0x02), (0x21, 0x01), (0xA1, 0x01)]))
       (idt_set_all stub idt_vectors (replicate 256 idt_zero))"

text \<open>The processor's reading of the descriptors.\<close>

definition gdt_base :: "gdt_t \<Rightarrow> u32" where
  "gdt_base d = ucast (gdt_base_low d) OR push_bit 16 (ucast (gdt_base_mid d)) OR push_bit 24 (ucast (gdt_base_high d))"

definition gdt_limit20 :: "gdt_t \<Rightarrow> u32" where
  "gdt_limit20 d = ucast (gdt_limit d) OR push_bit 16 (ucast (gdt_grand d AND 0x0f))"

definition idt_base :: "idt_t \<Rightarrow> u32" where
  "idt_base d = ucast (idt_base_low d) OR push_bit 16 (ucast (idt_base_high d))"

section \<open>Interrupt nesting\<close>

record intr =
  intr_flag :: bool
  sync_depth :: int
  irq_routines :: "u32 list"
  ports :: "(u16 \<times> u8) list"

definition irq_ack :: "u32 \<Rightarrow> intr \<Rightarrow> intr" where
  "irq_ack irq_no s =
     (let s = (if irq_no > 8 then s\<lparr>ports := ports s @ [(0xa0, 0x20)]\<rparr> else s)
      in s\<lparr>ports := ports s @ [(0x20, 0x20)]\<rparr>)"

definition interrupt_enable :: "intr \<Rightarrow> intr" where
  "interrupt_enable s = s\<lparr>sync_depth := 0, intr_flag := True\<rparr>"

definition interrupt_disable :: "intr \<Rightarrow> intr" where
  "interrupt_disable s =
     (if intr_flag s then s\<lparr>intr_flag := False, sync_depth := 1\<rparr>
      else s\<lparr>intr_flag := False, sync_depth := sync_depth s + 1\<rparr>)"

definition interrupt_resume :: "intr \<Rightarrow> intr" where
  "interrupt_resume s =
     (if sync_depth s = 0 \<or> sync_depth s = 1 then s\<lparr>intr_flag := True\<rparr>
      else s\<lparr>sync_depth := sync_depth s - 1\<rparr>)"

section \<open>Handler chains\<close>

fun register_loop :: "nat \<Rightarrow> nat \<Rightarrow> nat \<Rightarrow> u32 \<Rightarrow> u32 list \<Rightarrow> u32 list res" where
  "register_loop 0 i irq handler rs = Inr rs"
| "register_loop (Suc n) i irq handler rs =
     (if length rs \<le> i * 16 + irq then Inl Out_of_bounds
      else if rs ! (i * 16 + irq) \<noteq> 0 then register_loop n (Suc i) irq handler rs
      else Inr (rs[i * 16 + irq := handler]))"

definition register_interrupt_handler :: "nat \<Rightarrow> u32 \<Rightarrow> intr \<Rightarrow> intr res" where
  "register_interrupt_handler irq handler s =
     rmap (\<lambda>rs. s\<lparr>irq_routines := rs, intr_flag := True\<rparr>) (register_loop 4 0 irq handler (irq_routines s))"

text \<open>
  The chain of one interrupt line: \<open>call h\<close> runs the handler at address \<open>h\<close> on the rest
  of the kernel state and tells whether it returned nonzero.
\<close>

fun chain_loop :: "(u32 \<Rightarrow> 'w \<Rightarrow> bool \<times> 'w) \<Rightarrow> u32 list \<Rightarrow> nat \<Rightarrow> nat \<Rightarrow> nat \<Rightarrow> 'w \<Rightarrow> (bool \<times> 'w) res" where
  "chain_loop call rs 0 i irq w = Inr (False, w)"
| "chain_loop call rs (Suc n) i irq w =
     (if length rs \<le> i * 16 + irq then Inl Out_of_bounds
      else let h = rs ! (i * 16 + irq)
           in if h = 0 then chain_loop call rs n (Suc i) irq w
              else let (r, w) = call h w
                   in if r then Inr (True, w) else chain_loop call rs n (Suc i) irq w)"

definition irq_handler :: "(u32 \<Rightarrow> 'w \<Rightarrow> bool \<times> 'w) \<Rightarrow> u32 \<Rightarrow> intr \<times> 'w \<Rightarrow> (intr \<times> 'w) res" where
  "irq_handler call int_no s = (case s of (s, w) \<Rightarrow>
     let s = interrupt_disable s
     in if int_no \<le> 47 \<and> int_no \<ge> 32
        then rbind (chain_loop call (irq_routines s) 4 0 (unat (int_no - 32)) w) (\<lambda>(handled, w).
               Inr (interrupt_resume (if handled then s else irq_ack (int_no - 32) s), w))
        else Inr (interrupt_resume s, w))"

section \<open>Exceptions\<close>

definition isrs_install_handler :: "u8 \<Rightarrow> u32 \<Rightarrow> u32 list \<Rightarrow> u32 list" where
  "isrs_install_handler i handler rs = rs[unat i := handler]"

definition isrs_uninstall_handler :: "u8 \<Rightarrow> u32 list \<Rightarrow> u32 list" where
  "isrs_uninstall_handler i rs = rs[unat i := 0]"

definition fault_handler :: "(u32 \<Rightarrow> 'w \<Rightarrow> 'w) \<Rightarrow> u32 list \<Rightarrow> u32 \<Rightarrow> 'w \<Rightarrow> 'w res" where
  "fault_handler call rs int_no w =
     (if length rs \<le> unat (int_no AND 0xff) then Inl Out_of_bounds
      else let h = rs ! unat (int_no AND 0xff)
           in if h \<noteq> 0 then Inr (call h w)
              else if 32 \<le> unat int_no then Inl Out_of_bounds else Inl Panic)"

section \<open>Descriptor round trips\<close>

lemma u8_and_0f: "(w :: u8) AND 0x0f = take_bit 4 w"
  by (simp add: take_bit_eq_mask mask_eq_exp_minus_1)

lemma bit_u8_and_f0: "n < 4 \<Longrightarrow> \<not> bit ((w :: u8) AND 0xf0) n"
proof -
  have "(0xf0 :: u8) = push_bit 4 0xf" by simp
  then show "n < 4 \<Longrightarrow> \<not> bit (w AND 0xf0) n" by (simp only: bit_simps) simp
qed

lemma gdt_base_gate: "gdt_base (gdt_gate base limit access grand) = base"
proof (rule bit_word_eqI)
  fix n :: nat
  assume "n < LENGTH(32)"
  then have n: "n < 32" by simp
  show "bit (gdt_base (gdt_gate base limit access grand)) n = bit base n"
    using n by (cases "n < 16"; cases "n < 24")
      (auto simp: gdt_base_def gdt_gate_def and_mask_take_bit bit_simps)
qed

lemma gdt_limit_gate: "gdt_limit20 (gdt_gate base limit access grand) = take_bit 20 limit"
proof (rule bit_word_eqI)
  fix n :: nat
  assume "n < LENGTH(32)"
  then have n: "n < 32" by simp
  show "bit (gdt_limit20 (gdt_gate base limit access grand)) n = bit (take_bit 20 limit) n"
    using n bit_u8_and_f0 [of "n - 16" grand]
    by (cases "n < 16"; cases "n < 20")
       (auto simp: gdt_limit20_def gdt_gate_def and_mask_take_bit u8_and_0f bit_simps)
qed

lemma idt_base_gate: "idt_base (idt_gate base sel flags) = base"
proof (rule bit_word_eqI)
  fix n :: nat
  assume "n < LENGTH(32)"
  then have n: "n < 32" by simp
  show "bit (idt_base (idt_gate base sel flags)) n = bit base n"
    using n by (auto simp: idt_base_def idt_gate_def and_mask_take_bit bit_simps)
qed

lemma idt_set_all_ok:
  assumes "length idt = 256" "\<forall>v\<in>set vs. v < 256"
  shows "\<exists>idt'. idt_set_all stub vs idt = Inr idt' \<and> length idt' = 256
    \<and> (\<forall>v<256. idt' ! v = (if v \<in> set vs then idt_gate (stub v) 0x08 0x8E else idt ! v))"
  using assms
proof (induction vs arbitrary: idt)
  case (Cons v vs)
  have v: "v < 256" "unat (of_nat v :: u8) = v" using Cons.prems(2) by (auto simp: unat_of_nat)
  let ?idt = "idt[v := idt_gate (stub v) 0x08 0x8E]"
  obtain idt' where "idt_set_all stub vs ?idt = Inr idt'" "length idt' = 256"
    "\<forall>u<256. idt' ! u = (if u \<in> set vs then idt_gate (stub u) 0x08 0x8E else ?idt ! u)"
    using Cons.IH [of ?idt] Cons.prems by auto
  then show ?case using v Cons.prems(1) by (auto simp: idt_set_gate_def nth_list_update)
qed simp

section \<open>Nesting\<close>

lemma disable_pow:
  "intr_flag s \<Longrightarrow> (interrupt_disable ^^ Suc n) s = s\<lparr>intr_flag := False, sync_depth := 1 + int n\<rparr>"
  by (induction n) (simp_all add: interrupt_disable_def)

lemma disable_pow_off:
  "\<not> intr_flag s \<Longrightarrow> (interrupt_disable ^^ n) s = s\<lparr>sync_depth := sync_depth s + int n\<rparr>"
  by (induction n) (simp_all add: interrupt_disable_def)

lemma resume_pow:
  "int n < sync_depth s \<Longrightarrow> (interrupt_resume ^^ n) s = s\<lparr>sync_depth := sync_depth s - int n\<rparr>"
  by (induction n) (simp_all add: interrupt_resume_def)

section \<open>Chains\<close>

lemma register_loop_ok:
  assumes "length rs = 64" "irq < 16" "i + n = 4" "\<exists>j. i \<le> j \<and> j < 4 \<and> rs ! (j * 16 + irq) = 0"
  shows "\<exists>j. i \<le> j \<and> j < 4 \<and> rs ! (j * 16 + irq) = 0 \<and> (\<forall>k. i \<le> k \<and> k < j \<longrightarrow> rs ! (k * 16 + irq) \<noteq> 0)
    \<and> register_loop n i irq h rs = Inr (rs[j * 16 + irq := h])"
  using assms
proof (induction n arbitrary: i)
  case (Suc n)
  have len: "\<not> length rs \<le> i * 16 + irq" using Suc.prems by simp
  show ?case
  proof (cases "rs ! (i * 16 + irq) = 0")
    case True
    then show ?thesis using len Suc.prems(3) by (intro exI [of _ i]) auto
  next
    case False
    then obtain j where j: "Suc i \<le> j" "j < 4" "rs ! (j * 16 + irq) = 0"
      using Suc.prems(4) by (metis Suc_leI le_neq_implies_less)
    then obtain j where "Suc i \<le> j" "j < 4" "rs ! (j * 16 + irq) = 0"
      "\<forall>k. Suc i \<le> k \<and> k < j \<longrightarrow> rs ! (k * 16 + irq) \<noteq> 0"
      "register_loop n (Suc i) irq h rs = Inr (rs[j * 16 + irq := h])"
      using Suc.IH [of "Suc i"] Suc.prems(1-3) by auto
    then show ?thesis using False len
      by (intro exI [of _ j]) (auto, metis Suc_leI le_neq_implies_less)
  qed
qed auto

text \<open>The handlers of a line that are called, in order, when none of them claims the interrupt.\<close>

definition line_handlers :: "u32 list \<Rightarrow> nat \<Rightarrow> u32 list" where
  "line_handlers rs irq = filter (\<lambda>h. h \<noteq> 0) (map (\<lambda>i. rs ! (i * 16 + irq)) [0..<4])"

fun run_chain :: "(u32 \<Rightarrow> 'w \<Rightarrow> bool \<times> 'w) \<Rightarrow> u32 list \<Rightarrow> 'w \<Rightarrow> bool \<times> 'w" where
  "run_chain call [] w = (False, w)"
| "run_chain call (h # hs) w = (let (r, w) = call h w in if r then (True, w) else run_chain call hs w)"

lemma chain_loop_run:
  assumes "length rs = 64" "irq < 16" "i + n = 4"
  shows "chain_loop call rs n i irq w =
    Inr (run_chain call (filter (\<lambda>h. h \<noteq> 0) (map (\<lambda>i. rs ! (i * 16 + irq)) [i..<4])) w)"
  using assms
proof (induction n arbitrary: i w)
  case (Suc n)
  have "[i..<4] = i # [Suc i..<4]" using Suc.prems(3) by (simp add: upt_conv_Cons)
  moreover have "\<not> length rs \<le> i * 16 + irq" using Suc.prems by simp
  ultimately show ?case using Suc.IH [of "Suc i"] Suc.prems by (auto simp: Let_def split: prod.splits)
qed simp

lemma line_handlers_other:
  assumes "length rs = 64" "irq < 16" "irq' < 16" "irq' \<noteq> irq" "j < 4"
  shows "line_handlers (rs[j * 16 + irq := h]) irq' = line_handlers rs irq'"
proof -
  have "j * 16 + irq \<noteq> i * 16 + irq'" for i
  proof
    assume "j * 16 + irq = i * 16 + irq'"
    then have "(j * 16 + irq) mod 16 = (i * 16 + irq') mod 16" by (rule arg_cong)
    then show False using assms by simp
  qed
  then have "(rs[j * 16 + irq := h]) ! (i * 16 + irq') = rs ! (i * 16 + irq')" for i
    by (rule nth_list_update_neq)
  then show ?thesis by (simp add: line_handlers_def)
qed

text \<open>An acknowledge of line 8, the first one of the second controller, reaches only the first controller.\<close>

lemma irq_ack_8_misses_pic2: "ports (irq_ack 8 s) = ports s @ [(0x20, 0x20)]"
  by (simp add: irq_ack_def)

section \<open>Properties\<close>






text \<open>C14: a handler registered for a line below 16 with a free slot is in the chain that
  the dispatcher runs for that line, the chains of all other lines are
  unchanged, and an interrupt on the line runs the chain's handlers in order up to the first that
  claims it, acknowledging the controller exactly when none does.\<close>

theorem irq_dispatch:
  assumes "length (irq_routines s) = 64" "irq < 16" "h \<noteq> 0" "\<exists>j<4. irq_routines s ! (j * 16 + irq) = 0"
  shows "\<exists>s'. register_interrupt_handler irq h s = Inr s' \<and> length (irq_routines s') = 64
    \<and> h \<in> set (line_handlers (irq_routines s') irq)
    \<and> (\<forall>l<16. l \<noteq> irq \<longrightarrow> line_handlers (irq_routines s') l = line_handlers (irq_routines s) l)
    \<and> irq_handler call (of_nat irq + 32) (s', w) =
        (let (handled, w') = run_chain call (line_handlers (irq_routines s') irq) w;
             d = interrupt_disable s'
         in Inr (interrupt_resume (if handled then d else irq_ack (of_nat irq) d), w'))"
proof -
  obtain j where j: "j < 4" "irq_routines s ! (j * 16 + irq) = 0"
    "register_loop 4 0 irq h (irq_routines s) = Inr ((irq_routines s)[j * 16 + irq := h])"
    using register_loop_ok [of "irq_routines s" irq 0 4 h] assms by auto
  let ?rs = "(irq_routines s)[j * 16 + irq := h]"
  let ?s = "s\<lparr>irq_routines := ?rs, intr_flag := True\<rparr>"
  have "j * 16 + irq < 64" using j(1) assms(2) by simp
  then have "?rs ! (j * 16 + irq) = h" using assms(1) by simp
  then have "h \<in> set (line_handlers ?rs irq)"
    unfolding line_handlers_def using j(1) assms(3) by (auto simp: image_iff intro!: bexI [of _ j])
  moreover have "\<forall>l<16. l \<noteq> irq \<longrightarrow> line_handlers ?rs l = line_handlers (irq_routines s) l"
    using line_handlers_other [OF assms(1,2) _ _ j(1)] by simp
  moreover have u: "unat (of_nat irq :: u32) = irq" using assms(2) by (simp add: unat_of_nat32)
  have "(of_nat irq + 32 :: u32) \<le> 47" "(of_nat irq + 32 :: u32) \<ge> 32"
    using assms(2) u by (simp_all add: word_le_nat_alt unat_word_ariths)
  then have "irq_handler call (of_nat irq + 32) (?s, w) =
        (let (handled, w') = run_chain call (line_handlers ?rs irq) w; d = interrupt_disable ?s
         in Inr (interrupt_resume (if handled then d else irq_ack (of_nat irq) d), w'))"
    using chain_loop_run [of ?rs irq 0 4 call w] assms(1,2) u
    by (simp add: irq_handler_def Let_def interrupt_disable_def line_handlers_def split: prod.splits)
  ultimately show ?thesis using j(3) assms(1)
    by (intro exI [of _ ?s]) (simp add: register_interrupt_handler_def)
qed

theorem irq_dispatch_witness:
  "\<exists>s'. register_interrupt_handler 1 7 \<lparr>intr_flag = True, sync_depth = 0, irq_routines = replicate 64 0, ports = []\<rparr> = Inr s'
     \<and> 7 \<in> set (line_handlers (irq_routines s') 1)"
proof -
  have "\<exists>j<4. (replicate 64 0 :: u32 list) ! (j * 16 + 1) = 0" by (intro exI [of _ 0]) simp
  then show ?thesis
    using irq_dispatch [of "\<lparr>intr_flag = True, sync_depth = 0, irq_routines = replicate 64 0, ports = []\<rparr>" 1 7
      "\<lambda>_ w. (False, w)" "()"] by (simp del: One_nat_def) blast
qed

text \<open>The keyboard driver registers for vector number 33 instead of line 1.  With
  the slots of that number free the handler lands in the chain of line 1, because slot 33 of the flat table is
  the third slot of line 1; a second registration for the number also lands there, in its last slot.\<close>

lemma vector_33_aliases_line_1:
  assumes "length rs = 64" "rs ! 33 = 0" "h \<noteq> 0"
  shows "\<exists>rs'. register_loop 4 0 33 h rs = Inr rs' \<and> h \<in> set (line_handlers rs' 1)"
  using assms by (auto simp: line_handlers_def upt_rec numeral_eq_Suc)

end
