(* ===== verification/Sched.thy ===== *)
theory Sched
  imports KHeap Hal "HOL-Library.Signed_Division"
begin

text \<open>
  The scheduler: the run, finished and sleep queues of \<^verbatim>\<open>src/kernel/sched.c\<close>, the
  queue handling and context switch of \<^verbatim>\<open>src/kernel/process.c\<close> and the tick of
  \<^verbatim>\<open>src/kernel/timer.c\<close>.  Queues are lists of the kernel heap whose values are
  process addresses; process records are a typed heap.  The registers that the
  switch loads are part of the state; the register values the switch saves and
  the time read from the clock are arguments.
\<close>

section \<open>State\<close>

record proc =
  p_id :: u32
  p_state :: int
  p_status :: int
  p_esp :: u32
  p_ebp :: u32
  p_eip :: u32
  p_kstack :: u32
  p_end_tick :: u32
  p_end_subtick :: u32
  p_pd :: u32

record cpu =
  r_eip :: u32
  r_esp :: u32
  r_ebp :: u32

record sched =
  procs :: "u32 \<Rightarrow> proc"
  process_queue :: list_t
  finished_queue :: list_t
  sleep_queue :: list_t
  heap :: kheap
  current :: u32
  current_pd :: u32
  tss :: tss_t
  regs :: cpu
  intr_st :: intr
  timer_ticks :: u32
  timer_subticks :: u32
  timer_drift :: int
  behind :: bool
  boot_time :: u32

definition PROCESS_READY :: int where "PROCESS_READY = 0"
definition PROCESS_RUNING :: int where "PROCESS_RUNING = 1"
definition PROCESS_FINISHED :: int where "PROCESS_FINISHED = 2"

definition proc_upd :: "u32 \<Rightarrow> (proc \<Rightarrow> proc) \<Rightarrow> sched \<Rightarrow> sched" where
  "proc_upd p f st = st\<lparr>procs := (procs st)(p := f (procs st p))\<rparr>"

section \<open>Queues\<close>

definition sched_init :: "sched \<Rightarrow> sched" where
  "sched_init st = st\<lparr>process_queue := list_create, finished_queue := list_create, sleep_queue := list_create\<rparr>"

definition sched_enqueue :: "u32 \<Rightarrow> sched \<Rightarrow> sched res" where
  "sched_enqueue p st =
     (if p = 0 then Inl Panic
      else rmap (\<lambda>(q, kh). st\<lparr>process_queue := q, heap := kh\<rparr>)
             (on_list (list_push_front kmalloc p) (process_queue st) (heap st)))"

definition sched_dequeue :: "sched \<Rightarrow> (u32 \<times> sched) res" where
  "sched_dequeue st =
     rmap (\<lambda>(p, q, h, kh). (p, st\<lparr>process_queue := q, heap := kh\<lparr>nodes := h\<rparr>\<rparr>))
       (take_back kfree (process_queue st, nodes (heap st), heap st))"

definition sched_available :: "sched \<Rightarrow> bool" where
  "sched_available st \<longleftrightarrow> l_head (process_queue st) \<noteq> 0"

definition later :: "proc \<Rightarrow> u32 \<Rightarrow> u32 \<Rightarrow> bool" where
  "later p seconds subseconds \<longleftrightarrow>
     p_end_tick p > seconds \<or> (p_end_tick p = seconds \<and> p_end_subtick p > subseconds)"

text \<open>The \<^verbatim>\<open>foreach\<close> loop of \<^verbatim>\<open>sleep_enqueue\<close>: the last node that is not later.\<close>

fun sleep_scan :: "(u32 \<Rightarrow> proc) \<Rightarrow> nodes \<Rightarrow> u32 \<Rightarrow> u32 \<Rightarrow> nat \<Rightarrow> u32 \<Rightarrow> u32 \<Rightarrow> u32 res" where
  "sleep_scan ps h seconds subseconds 0 node prev = (if node = 0 then Inr prev else Inl Diverges)"
| "sleep_scan ps h seconds subseconds (Suc fuel) node prev =
     (if node = 0 then Inr prev
      else rbind (deref h node) (\<lambda>nd.
        if later (ps (ln_value nd)) seconds subseconds then Inr prev
        else sleep_scan ps h seconds subseconds fuel (ln_next nd) node))"

definition sleep_enqueue :: "u32 \<Rightarrow> u32 \<Rightarrow> u32 \<Rightarrow> sched \<Rightarrow> sched res" where
  "sleep_enqueue process seconds subseconds st =
     rbind (sleep_scan (procs st) (nodes (heap st)) seconds subseconds
              (nat (l_length (sleep_queue st))) (l_head (sleep_queue st)) 0) (\<lambda>prev.
     let st = proc_upd process (\<lambda>p. p\<lparr>p_end_tick := seconds, p_end_subtick := subseconds\<rparr>) st
     in rmap (\<lambda>(q, kh). st\<lparr>sleep_queue := q, heap := kh\<rparr>)
          (on_list (list_insert_after kmalloc prev process) (sleep_queue st) (heap st)))"

definition sched_enqueue_finished :: "u32 \<Rightarrow> sched \<Rightarrow> sched res" where
  "sched_enqueue_finished p st =
     (if p = 0 then Inl Panic
      else rmap (\<lambda>(q, kh). st\<lparr>finished_queue := q, heap := kh\<rparr>)
             (on_list (list_push_back kmalloc p) (finished_queue st) (heap st)))"

text \<open>The result is the process found, 0 when there is none.\<close>

fun lookup_finished_loop :: "u32 \<Rightarrow> nat \<Rightarrow> u32 \<Rightarrow> sched \<Rightarrow> (u32 \<times> sched) res" where
  "lookup_finished_loop pid 0 n st = (if n = 0 then Inr (0, st) else Inl Diverges)"
| "lookup_finished_loop pid (Suc fuel) n st =
     (if n = 0 then Inr (0, st)
      else rbind (deref (nodes (heap st)) n) (\<lambda>nd.
        let p = ln_value nd
        in if p = 0 then Inl Panic
           else if p_id (procs st p) = pid
           then rbind (list_delete (finished_queue st) (nodes (heap st)) n) (\<lambda>(q, h).
                rbind (kfree n ((heap st)\<lparr>nodes := h\<rparr>)) (\<lambda>kh.
                Inr (p, st\<lparr>finished_queue := q, heap := kh\<rparr>)))
           else lookup_finished_loop pid fuel (ln_next nd) st))"

definition sched_lookup_finished :: "int \<Rightarrow> sched \<Rightarrow> (u32 \<times> sched) res" where
  "sched_lookup_finished pid st =
     lookup_finished_loop (of_int pid) (nat (l_length (finished_queue st))) (l_head (finished_queue st)) st"

section \<open>Switching\<close>

definition switch_to_next :: "sched \<Rightarrow> sched res" where
  "switch_to_next st =
     rbind (sched_dequeue st) (\<lambda>(p, st).
     let st = st\<lparr>current := p\<rparr>
     in if p = 0 then Inl Panic
        else if p_eip (procs st p) = 0x12345678 then Inl Panic
        else Inr (st\<lparr>regs := \<lparr>r_eip = p_eip (procs st p), r_esp = p_esp (procs st p), r_ebp = p_ebp (procs st p)\<rparr>,
                     tss := set_kernel_stack (p_kstack (procs st p)) (tss st),
                     current_pd := p_pd (procs st p)\<rparr>))"

text \<open>
  \<^verbatim>\<open>context_switch\<close> up to the jump: \<open>r\<close> are the saved registers, whose \<^verbatim>\<open>eip\<close> is the
  return address of \<^verbatim>\<open>read_eip\<close>.  When the process is resumed, \<^verbatim>\<open>read_eip\<close> returns
  \<^verbatim>\<open>0x12345678\<close> and the function returns at once.
\<close>

definition context_switch :: "cpu \<Rightarrow> bool \<Rightarrow> sched \<Rightarrow> sched res" where
  "context_switch r reschedule st =
     (if current st = 0 then Inr st
      else if \<not> sched_available st then Inr st
      else if r_eip r = 0x12345678 then Inr st
      else let st = proc_upd (current st) (\<lambda>p. p\<lparr>p_eip := r_eip r, p_esp := r_esp r, p_ebp := r_ebp r\<rparr>) st
           in rbind (if reschedule then sched_enqueue (current st) st else Inr st) switch_to_next)"

definition process_exit :: "int \<Rightarrow> sched \<Rightarrow> sched res" where
  "process_exit ret st =
     (if current st = 0 then Inl Panic
      else if p_id (procs st (current st)) = 1 then Inl Panic
      else let st = proc_upd (current st) (\<lambda>p. p\<lparr>p_status := ret, p_state := PROCESS_FINISHED\<rparr>) st
           in rbind (sched_enqueue_finished (current st) st) switch_to_next)"

definition sys_getpid :: "sched \<Rightarrow> u32" where
  "sys_getpid st = (if current st = 0 then 0 else p_id (procs st (current st)))"

definition sleep_on :: "cpu \<Rightarrow> list_t \<Rightarrow> sched \<Rightarrow> (list_t \<times> sched) res" where
  "sleep_on r queue st =
     rbind (on_list (list_push_front kmalloc (current st)) queue (heap st)) (\<lambda>(q, kh).
     rmap (\<lambda>st. (q, st)) (context_switch r False (st\<lparr>heap := kh\<rparr>)))"

definition wakeup_from :: "list_t \<Rightarrow> sched \<Rightarrow> (list_t \<times> sched) res" where
  "wakeup_from queue st =
     rbind (list_pop_back queue (nodes (heap st))) (\<lambda>(n, q, h).
     if n = 0 then Inr (q, st\<lparr>heap := (heap st)\<lparr>nodes := h\<rparr>\<rparr>)
     else rbind (deref h n) (\<lambda>nd.
          rbind (kfree n ((heap st)\<lparr>nodes := h\<rparr>)) (\<lambda>kh.
          if ln_value nd = 0 then Inl Panic
          else rmap (\<lambda>st. (q, st)) (sched_enqueue (ln_value nd) (st\<lparr>heap := kh\<rparr>)))))"

text \<open>One round of the loop of \<^verbatim>\<open>sys_waitpid\<close>: \<open>Some p\<close> is a finished process whose
  status the call returns, \<open>None\<close> means that the caller yields and tries again.\<close>

definition waitpid_round :: "cpu \<Rightarrow> int \<Rightarrow> sched \<Rightarrow> (u32 option \<times> sched) res" where
  "waitpid_round r pid st =
     rbind (sched_lookup_finished pid st) (\<lambda>(p, st).
     if p = 0 then rmap (\<lambda>st. (None, st)) (context_switch r True st)
     else Inr (Some p, st))"

section \<open>Sleeping and the timer\<close>

text \<open>\<^verbatim>\<open>timer_phase\<close> programs the interval timer; a division by zero faults.\<close>

definition timer_phase :: "int \<Rightarrow> intr \<Rightarrow> intr res" where
  "timer_phase hz s =
     (if hz = 0 then Inl Div_by_zero
      else let divisor = 1193180 sdiv hz
           in Inr (s\<lparr>ports := ports s @ [(0x43, 0x34), (0x40, of_int (divisor AND 0xff)),
                                        (0x40, of_int (drop_bit 8 divisor AND 0xff))]\<rparr>))"

definition due :: "proc \<Rightarrow> u32 \<Rightarrow> u32 \<Rightarrow> bool" where
  "due p ticks subticks \<longleftrightarrow>
     p_end_tick p < ticks \<or> (p_end_tick p = ticks \<and> p_end_subtick p \<le> subticks)"

fun wake_loop :: "u32 \<Rightarrow> u32 \<Rightarrow> nat \<Rightarrow> u32 \<Rightarrow> sched \<Rightarrow> sched res" where
  "wake_loop ticks subticks 0 p st = Inl Diverges"
| "wake_loop ticks subticks (Suc fuel) p st =
     (if p \<noteq> 0 \<and> due (procs st p) ticks subticks
      then let st = proc_upd p (\<lambda>q. q\<lparr>p_end_tick := 0, p_end_subtick := 0, p_status := PROCESS_READY\<rparr>) st
           in rbind (sched_enqueue p st) (\<lambda>st.
              rbind (list_pop_front (sleep_queue st) (nodes (heap st))) (\<lambda>(n, q, h).
              rbind (kfree n ((heap st)\<lparr>nodes := h\<rparr>)) (\<lambda>kh.
              let st = st\<lparr>sleep_queue := q, heap := kh\<rparr>
              in if l_length q \<noteq> 0
                 then if l_head q = 0 then Inl Panic
                      else rbind (deref (nodes kh) (l_head q)) (\<lambda>nd.
                           wake_loop ticks subticks fuel (ln_value nd) st)
                 else Inr st)))
      else Inr st)"

definition process_wakeup_sleepers :: "u32 \<Rightarrow> u32 \<Rightarrow> sched \<Rightarrow> sched res" where
  "process_wakeup_sleepers ticks subticks st =
     (let st = st\<lparr>intr_st := interrupt_disable (intr_st st)\<rparr>
      in rmap (\<lambda>st. st\<lparr>intr_st := interrupt_resume (intr_st st)\<rparr>)
           (if l_length (sleep_queue st) \<noteq> 0
            then rbind (deref (nodes (heap st)) (l_head (sleep_queue st))) (\<lambda>nd.
                 wake_loop ticks subticks (Suc (nat (l_length (sleep_queue st)))) (ln_value nd) st)
            else Inr st))"

definition relative_time :: "u32 \<Rightarrow> u32 \<Rightarrow> sched \<Rightarrow> u32 \<times> u32" where
  "relative_time seconds subseconds st =
     (if subseconds + timer_subticks st > 1000
      then (timer_subticks st + seconds + 1, subseconds + timer_subticks st - 1000)
      else (timer_ticks st + seconds, timer_subticks st + subseconds))"

definition process_sleep_until :: "u32 \<Rightarrow> u32 \<Rightarrow> u32 \<Rightarrow> sched \<Rightarrow> sched res" where
  "process_sleep_until process seconds subseconds st =
     (let st = st\<lparr>intr_st := interrupt_disable (intr_st st)\<rparr>;
          (s, ss) = relative_time seconds subseconds st
      in rmap (\<lambda>st. st\<lparr>intr_st := interrupt_resume (intr_st st)\<rparr>) (sleep_enqueue process s ss st))"

text \<open>The tick of the clock; \<open>new_time\<close> is what \<^verbatim>\<open>read_cmos\<close> returns.\<close>

definition timer_advance :: "u32 \<Rightarrow> sched \<Rightarrow> sched" where
  "timer_advance new_time st =
     (let st = st\<lparr>timer_subticks := timer_subticks st + 1\<rparr>
      in if timer_subticks st = 1000
         then let st = st\<lparr>timer_ticks := timer_ticks st + 1, timer_subticks := 0\<rparr>;
                  st = st\<lparr>timer_drift := sint (new_time - boot_time st - timer_ticks st)\<rparr>
              in st\<lparr>behind := (timer_drift st > 0)\<rparr>
         else st)"

definition timer_callback :: "u32 \<Rightarrow> cpu \<Rightarrow> sched \<Rightarrow> sched res" where
  "timer_callback new_time r st =
     (let st = timer_advance new_time st;
          st = st\<lparr>intr_st := irq_ack 0 (intr_st st)\<rparr>
      in rbind (process_wakeup_sleepers (timer_ticks st) (timer_subticks st) st) (context_switch r True))"

section \<open>Representation\<close>

text \<open>
  \<open>rq\<close>, \<open>fq\<close> and \<open>sq\<close> are the nodes of the three queues, each with its process; the
  nodes are pairwise different heap addresses in use.  The run queue is taken
  from its end, so its oldest process is the last one.
\<close>

definition sched_rep ::
  "sched \<Rightarrow> u32 set \<Rightarrow> (u32 \<times> u32) list \<Rightarrow> (u32 \<times> u32) list \<Rightarrow> (u32 \<times> u32) list \<Rightarrow> bool" where
  "sched_rep st L rq fq sq \<longleftrightarrow> kheap_rep (heap st) L
     \<and> dlist (process_queue st) (nodes (heap st)) rq \<and> dlist (finished_queue st) (nodes (heap st)) fq
     \<and> flist (sleep_queue st) (nodes (heap st)) sq
     \<and> addrs rq \<union> addrs fq \<union> addrs sq \<subseteq> L
     \<and> addrs rq \<inter> addrs fq = {} \<and> addrs rq \<inter> addrs sq = {} \<and> addrs fq \<inter> addrs sq = {}"

lemma sched_repD:
  assumes "sched_rep st L rq fq sq"
  shows "kheap_rep (heap st) L" "dlist (process_queue st) (nodes (heap st)) rq"
    "dlist (finished_queue st) (nodes (heap st)) fq" "flist (sleep_queue st) (nodes (heap st)) sq"
    "addrs rq \<subseteq> L" "addrs fq \<subseteq> L" "addrs sq \<subseteq> L"
    "addrs rq \<inter> addrs fq = {}" "addrs rq \<inter> addrs sq = {}" "addrs fq \<inter> addrs sq = {}"
  using assms by (simp_all add: sched_rep_def)

text \<open>A change of the run queue that leaves the nodes of the other queues alone.\<close>

lemma sched_rep_run:
  assumes "sched_rep st L rq fq sq" "kheap_rep kh L'" "dlist q (nodes kh) rq'" "addrs rq' \<subseteq> L'"
    and "\<forall>b\<in>addrs fq \<union> addrs sq. nodes kh b = nodes (heap st) b"
    and "addrs fq \<union> addrs sq \<subseteq> L'" "addrs rq' \<inter> (addrs fq \<union> addrs sq) = {}"
  shows "sched_rep (st\<lparr>process_queue := q, heap := kh\<rparr>) L' rq' fq sq"
proof -
  note d = sched_repD [OF assms(1)]
  have "dlist (finished_queue st) (nodes kh) fq"
    using dlist_frame [of fq "nodes kh" "nodes (heap st)"] assms(5) d(3) by blast
  moreover have "flist (sleep_queue st) (nodes kh) sq"
    using flist_frame [OF d(4), of "nodes kh"] assms(5) by blast
  moreover have "addrs rq' \<inter> addrs fq = {}" "addrs rq' \<inter> addrs sq = {}" using assms(7) by blast+
  ultimately show ?thesis using assms(2-4,6) d(10) by (simp add: sched_rep_def)
qed

lemma agree_subset: "A \<subseteq> S \<Longrightarrow> \<forall>b\<in>S. f b = g b \<Longrightarrow> \<forall>b\<in>A. f b = g b"
  by blast

lemma sched_enqueue_rep_frame:
  assumes "sched_rep st L rq fq sq" "p \<noteq> 0" "kheap_room (Suc n) (heap st)"
  shows "\<exists>a q kh. sched_enqueue p st = Inr (st\<lparr>process_queue := q, heap := kh\<rparr>) \<and> a \<notin> L
    \<and> sched_rep (st\<lparr>process_queue := q, heap := kh\<rparr>) (insert a L) ((a, p) # rq) fq sq \<and> kheap_room n kh
    \<and> (\<forall>b\<in>L - addrs rq. nodes kh b = nodes (heap st) b)"
proof -
  note d = sched_repD [OF assms(1)]
  from on_list_push_front [OF d(1,2,5) assms(3), of p] obtain a q kh where
    *: "on_list (list_push_front kmalloc p) (process_queue st) (heap st) = Inr (q, kh)"
    "a \<notin> L" "kheap_rep kh (insert a L)" "dlist q (nodes kh) ((a, p) # rq)" "kheap_room n kh"
    "\<forall>b\<in>L - addrs rq. nodes kh b = nodes (heap st) b" by blast
  have "sched_rep (st\<lparr>process_queue := q, heap := kh\<rparr>) (insert a L) ((a, p) # rq) fq sq"
  proof (rule sched_rep_run [OF assms(1) *(3,4)])
    show "addrs ((a, p) # rq) \<subseteq> insert a L" "addrs fq \<union> addrs sq \<subseteq> insert a L"
      using d(5-7) by auto
    show "\<forall>b\<in>addrs fq \<union> addrs sq. nodes kh b = nodes (heap st) b" using *(6) d(6-9) by blast
    show "addrs ((a, p) # rq) \<inter> (addrs fq \<union> addrs sq) = {}" using *(2) d(6-9) by auto
  qed
  then show ?thesis using * assms(2)
    by (intro exI [of _ a] exI [of _ q] exI [of _ kh]) (simp add: sched_enqueue_def)
qed

lemma sched_enqueue_rep:
  assumes "sched_rep st L rq fq sq" "p \<noteq> 0" "kheap_room (Suc n) (heap st)"
  shows "\<exists>a q kh. sched_enqueue p st = Inr (st\<lparr>process_queue := q, heap := kh\<rparr>) \<and> a \<notin> L
    \<and> sched_rep (st\<lparr>process_queue := q, heap := kh\<rparr>) (insert a L) ((a, p) # rq) fq sq \<and> kheap_room n kh"
  using sched_enqueue_rep_frame [OF assms] by blast

lemma sched_dequeue_rep:
  assumes "sched_rep st L (rq @ [(a, p)]) fq sq"
  shows "\<exists>q kh. sched_dequeue st = Inr (p, st\<lparr>process_queue := q, heap := kh\<rparr>)
    \<and> sched_rep (st\<lparr>process_queue := q, heap := kh\<rparr>) (L - {a}) rq fq sq
    \<and> (\<forall>n. kheap_room n (heap st) \<longrightarrow> kheap_room n kh)"
proof -
  have "queue_rep kheap_rep (process_queue st, nodes (heap st), heap st) L (rq @ [(a, p)])"
    using sched_repD [OF assms] by (simp add: queue_rep_def)
  from kalloc.queue_take [OF this] obtain q h k where
    *: "take_back kfree (process_queue st, nodes (heap st), heap st) = Inr (p, (q, h, k))"
    "queue_rep kheap_rep (q, h, k) (L - {a}) rq" "\<forall>n. kheap_room n (heap st) \<longrightarrow> kheap_room n k"
    "\<forall>b\<in>L - addrs (rq @ [(a, p)]). h b = nodes (heap st) b" by blast
  note d = sched_repD [OF assms]
  have "sched_rep (st\<lparr>process_queue := q, heap := k\<lparr>nodes := h\<rparr>\<rparr>) (L - {a}) rq fq sq"
  proof (rule sched_rep_run [OF assms])
    show "kheap_rep (k\<lparr>nodes := h\<rparr>) (L - {a})" "dlist q (nodes (k\<lparr>nodes := h\<rparr>)) rq" "addrs rq \<subseteq> L - {a}"
      using *(2) by (auto simp: queue_rep_def)
    have sub: "addrs fq \<union> addrs sq \<subseteq> L - addrs (rq @ [(a, p)])" using d(6-9) by blast
    from agree_subset [OF sub *(4)]
    show "\<forall>b\<in>addrs fq \<union> addrs sq. nodes (k\<lparr>nodes := h\<rparr>) b = nodes (heap st) b"
      by simp
    show "addrs fq \<union> addrs sq \<subseteq> L - {a}" "addrs rq \<inter> (addrs fq \<union> addrs sq) = {}" using d(6-9) by auto
  qed
  then show ?thesis using *(1,3)
    by (intro exI [of _ q] exI [of _ "k\<lparr>nodes := h\<rparr>"]) (auto simp: sched_dequeue_def)
qed

lemma sched_dequeue_empty:
  assumes "sched_rep st L [] fq sq"
  shows "\<exists>st'. sched_dequeue st = Inr (0, st') \<and> sched_rep st' L [] fq sq"
  using assms kalloc.queue_take_empty [of "process_queue st" "nodes (heap st)" "heap st" L]
  by (auto simp: sched_dequeue_def queue_rep_def sched_rep_def)

lemma sched_available_rep: "sched_rep st L rq fq sq \<Longrightarrow> sched_available st \<longleftrightarrow> rq \<noteq> []"
  by (cases rq) (auto simp: sched_rep_def sched_available_def dlist_def)

text \<open>The fields outside the run queue and the heap do not enter the representation.\<close>

lemma sched_rep_cong:
  "heap st' = heap st \<Longrightarrow> process_queue st' = process_queue st \<Longrightarrow> finished_queue st' = finished_queue st \<Longrightarrow>
   sleep_queue st' = sleep_queue st \<Longrightarrow> sched_rep st' L rq fq sq = sched_rep st L rq fq sq"
  by (simp add: sched_rep_def)

lemma switch_to_next_rep:
  assumes "sched_rep st L (rq @ [(a, p)]) fq sq" "p \<noteq> 0" "p_eip (procs st p) \<noteq> 0x12345678"
  shows "\<exists>st'. switch_to_next st = Inr st' \<and> sched_rep st' (L - {a}) rq fq sq \<and> current st' = p
    \<and> regs st' = \<lparr>r_eip = p_eip (procs st p), r_esp = p_esp (procs st p), r_ebp = p_ebp (procs st p)\<rparr>
    \<and> tss_esp0 (tss st') = p_kstack (procs st p) \<and> current_pd st' = p_pd (procs st p) \<and> procs st' = procs st"
proof -
  obtain q kh where *: "sched_dequeue st = Inr (p, st\<lparr>process_queue := q, heap := kh\<rparr>)"
    "sched_rep (st\<lparr>process_queue := q, heap := kh\<rparr>) (L - {a}) rq fq sq"
    using sched_dequeue_rep [OF assms(1)] by blast
  then show ?thesis using assms(2,3)
    by (auto simp: switch_to_next_def Let_def set_kernel_stack_def sched_rep_def)
qed

lemma context_switch_rep:
  assumes rep: "sched_rep st L (rq @ [(a, p)]) fq sq" and cur: "current st \<noteq> 0" "p \<noteq> 0"
    and eip: "r_eip r \<noteq> 0x12345678" "p_eip (procs st p) \<noteq> 0x12345678"
    and room: "kheap_room 1 (heap st)"
  shows "\<exists>st' L' c. context_switch r True st = Inr st' \<and> sched_rep st' L' ((c, current st) # rq) fq sq
    \<and> current st' = p
    \<and> procs st' = (procs st)(current st := (procs st (current st))\<lparr>p_eip := r_eip r, p_esp := r_esp r, p_ebp := r_ebp r\<rparr>)"
proof -
  let ?st = "proc_upd (current st) (\<lambda>p. p\<lparr>p_eip := r_eip r, p_esp := r_esp r, p_ebp := r_ebp r\<rparr>) st"
  have rep1: "sched_rep ?st L (rq @ [(a, p)]) fq sq" using rep by (simp add: proc_upd_def sched_rep_def)
  have same: "current ?st = current st" "heap ?st = heap st" by (simp_all add: proc_upd_def)
  obtain c q kh where e: "sched_enqueue (current st) ?st = Inr (?st\<lparr>process_queue := q, heap := kh\<rparr>)"
    "sched_rep (?st\<lparr>process_queue := q, heap := kh\<rparr>) (insert c L) (((c, current st) # rq) @ [(a, p)]) fq sq"
    using sched_enqueue_rep [OF rep1 cur(1), of 0] room same by auto
  have "p_eip (procs (?st\<lparr>process_queue := q, heap := kh\<rparr>) p) \<noteq> 0x12345678"
    using eip by (simp add: proc_upd_def)
  from switch_to_next_rep [OF e(2) cur(2) this] obtain st' where
    "switch_to_next (?st\<lparr>process_queue := q, heap := kh\<rparr>) = Inr st'"
    "sched_rep st' (insert c L - {a}) ((c, current st) # rq) fq sq" "current st' = p"
    "procs st' = procs (?st\<lparr>process_queue := q, heap := kh\<rparr>)" by auto
  then show ?thesis using e(1) cur(1) eip(1) sched_available_rep [OF rep] same
    by (intro exI [of _ st'] exI [of _ "insert c L - {a}"] exI [of _ c])
       (auto simp: context_switch_def Let_def proc_upd_def)
qed

section \<open>The sleep queue\<close>

definition wakes_before :: "(u32 \<Rightarrow> proc) \<Rightarrow> u32 \<Rightarrow> u32 \<Rightarrow> bool" where
  "wakes_before ps p q \<longleftrightarrow> \<not> later (ps p) (p_end_tick (ps q)) (p_end_subtick (ps q))"

definition sleep_sorted :: "(u32 \<Rightarrow> proc) \<Rightarrow> (u32 \<times> u32) list \<Rightarrow> bool" where
  "sleep_sorted ps sq \<longleftrightarrow> sorted_wrt (wakes_before ps) (map snd sq)"

lemma sleep_scan_ok:
  assumes "fseg h node ys 0"
  shows "sleep_scan ps h s ss (length ys) node prev =
    Inr (last_addr prev (takeWhile (\<lambda>x. \<not> later (ps (snd x)) s ss) ys))"
  using assms
proof (induction ys arbitrary: node prev)
  case (Cons y ys)
  obtain n v where y: "y = (n, v)" by fastforce
  with Cons.prems obtain nd where "node = n" "n \<noteq> 0" "h n = Some nd" "ln_value nd = v" "fseg h (ln_next nd) ys 0"
    by auto
  then show ?case using Cons.IH [of "ln_next nd" n] y by simp
qed simp

lemma later_trans:
  "later p s ss \<Longrightarrow> \<not> later p (p_end_tick q) (p_end_subtick q) \<Longrightarrow> later q s ss"
  unfolding later_def by auto

lemma sorted_later_suffix:
  assumes "sorted_wrt (wakes_before ps) ws" "x \<in> set (dropWhile (\<lambda>w. \<not> later (ps w) s ss) ws)"
  shows "later (ps x) s ss"
  using assms
proof (induction ws)
  case (Cons w ws)
  then show ?case
    by (cases "later (ps w) s ss") (auto simp: wakes_before_def intro: later_trans)
qed simp

lemma sleep_sorted_insert:
  fixes s ss :: u32
  assumes "sleep_sorted ps sq" "p \<notin> snd ` set sq"
  defines "ps' \<equiv> ps(p := (ps p)\<lparr>p_end_tick := s, p_end_subtick := ss\<rparr>)"
    and "P \<equiv> \<lambda>x :: u32 \<times> u32. \<not> later (ps (snd x)) s ss"
  shows "sleep_sorted ps' (takeWhile P sq @ (a, p) # dropWhile P sq)"
proof -
  have same: "ps' (snd x) = ps (snd x)" if "x \<in> set sq" for x using assms(2) that by (auto simp: ps'_def)
  have srt: "sorted_wrt (wakes_before ps') (map snd sq)"
    using assms(1) unfolding sleep_sorted_def sorted_wrt_map
    by (rule sorted_wrt_mono_rel [rotated]) (simp add: wakes_before_def same)
  have split: "map snd sq = map snd (takeWhile P sq) @ map snd (dropWhile P sq)"
    by (simp flip: map_append)
  have 1: "wakes_before ps' (snd x) p" if "x \<in> set (takeWhile P sq)" for x
    using set_takeWhileD [OF that] same [of x] by (auto simp: wakes_before_def P_def ps'_def later_def)
  have 2: "wakes_before ps' p (snd x)" if "x \<in> set (dropWhile P sq)" for x
  proof -
    have "dropWhile (\<lambda>w. \<not> later (ps w) s ss) (map snd sq) = map snd (dropWhile P sq)"
      by (simp add: dropWhile_map comp_def P_def)
    then have "snd x \<in> set (dropWhile (\<lambda>w. \<not> later (ps w) s ss) (map snd sq))"
      using that by simp
    then have "later (ps (snd x)) s ss" by (rule sorted_later_suffix [OF assms(1) [unfolded sleep_sorted_def]])
    moreover have "x \<in> set sq" using that by (meson set_dropWhileD)
    ultimately show ?thesis using same [of x] by (auto simp: wakes_before_def later_def ps'_def)
  qed
  show ?thesis using srt 1 2 unfolding sleep_sorted_def split
    by (auto simp: sorted_wrt_append)
qed

lemma sched_rep_sleep:
  assumes "sched_rep st L rq fq sq" "kheap_rep kh L'" "flist q (nodes kh) sq'" "addrs sq' \<subseteq> L'"
    and "\<forall>b\<in>addrs rq \<union> addrs fq. nodes kh b = nodes (heap st) b"
    and "addrs rq \<union> addrs fq \<subseteq> L'" "addrs sq' \<inter> (addrs rq \<union> addrs fq) = {}"
  shows "sched_rep (st\<lparr>sleep_queue := q, heap := kh\<rparr>) L' rq fq sq'"
proof -
  note d = sched_repD [OF assms(1)]
  have "dlist (process_queue st) (nodes kh) rq" "dlist (finished_queue st) (nodes kh) fq"
    using dlist_frame [of rq "nodes kh" "nodes (heap st)"] dlist_frame [of fq "nodes kh" "nodes (heap st)"] assms(5) d(2,3)
    by blast+
  moreover have "addrs rq \<inter> addrs sq' = {}" "addrs fq \<inter> addrs sq' = {}" using assms(7) by blast+
  ultimately show ?thesis using assms(2-4,6) d(8) by (simp add: sched_rep_def)
qed

lemma sleep_enqueue_rep:
  fixes s ss :: u32
  assumes rep: "sched_rep st L rq fq sq" and room: "kheap_room (Suc n) (heap st)"
  defines "P \<equiv> \<lambda>x :: u32 \<times> u32. \<not> later (procs st (snd x)) s ss"
  shows "\<exists>a st'. sleep_enqueue p s ss st = Inr st' \<and> a \<notin> L
    \<and> sched_rep st' (insert a L) rq fq (takeWhile P sq @ (a, p) # dropWhile P sq) \<and> kheap_room n (heap st')
    \<and> procs st' = (procs st)(p := (procs st p)\<lparr>p_end_tick := s, p_end_subtick := ss\<rparr>)"
proof -
  note d = sched_repD [OF rep]
  let ?st = "proc_upd p (\<lambda>q. q\<lparr>p_end_tick := s, p_end_subtick := ss\<rparr>) st"
  have rep1: "sched_rep ?st L rq fq sq" using rep by (simp add: proc_upd_def sched_rep_def)
  have fl: "flist (sleep_queue st) (nodes (heap st)) (takeWhile P sq @ dropWhile P sq)"
    and ad: "addrs (takeWhile P sq @ dropWhile P sq) \<subseteq> L" using d(4,7) by simp_all
  from on_list_insert_after [OF d(1) fl ad room, of p] obtain a q kh where
    *: "on_list (list_insert_after kmalloc (last_addr 0 (takeWhile P sq)) p) (sleep_queue st) (heap st) = Inr (q, kh)"
    "a \<notin> L" "kheap_rep kh (insert a L)" "flist q (nodes kh) (takeWhile P sq @ (a, p) # dropWhile P sq)" "kheap_room n kh"
    "\<forall>b\<in>L - addrs sq. nodes kh b = nodes (heap st) b" by auto
  let ?sq = "takeWhile P sq @ (a, p) # dropWhile P sq"
  have ad': "addrs ?sq = insert a (addrs sq)"
  proof -
    have "set (takeWhile P sq) \<union> set (dropWhile P sq) = set sq" by (metis set_append takeWhile_dropWhile_id)
    moreover have "addrs ?sq = insert a (fst ` (set (takeWhile P sq) \<union> set (dropWhile P sq)))"
      by (simp add: image_Un)
    ultimately show ?thesis by simp
  qed
  have "sched_rep (?st\<lparr>sleep_queue := q, heap := kh\<rparr>) (insert a L) rq fq ?sq"
  proof (rule sched_rep_sleep [OF rep1 *(3,4)])
    show "addrs ?sq \<subseteq> insert a L" unfolding ad' using d(7) by blast
    have "addrs rq \<union> addrs fq \<subseteq> L - addrs sq" using d(5,6,9,10) by blast
    from agree_subset [OF this *(6)] show "\<forall>b\<in>addrs rq \<union> addrs fq. nodes kh b = nodes (heap ?st) b"
      by (simp add: proc_upd_def)
    show "addrs rq \<union> addrs fq \<subseteq> insert a L" using d(5,6) by blast
    show "addrs ?sq \<inter> (addrs rq \<union> addrs fq) = {}" unfolding ad' using *(2) d(5,6,9,10) by blast
  qed
  moreover have "sleep_scan (procs st) (nodes (heap st)) s ss (nat (l_length (sleep_queue st))) (l_head (sleep_queue st)) 0
      = Inr (last_addr 0 (takeWhile P sq))"
    using sleep_scan_ok [of "nodes (heap st)" "l_head (sleep_queue st)" sq "procs st" s ss 0] d(4)
    by (simp add: flist_def P_def)
  ultimately show ?thesis using *(1,2,5)
    by (intro exI [of _ a] exI [of _ "?st\<lparr>sleep_queue := q, heap := kh\<rparr>"])
       (simp add: sleep_enqueue_def proc_upd_def Let_def)
qed

lemma disjoint_remove:
  "A \<subseteq> L \<Longrightarrow> B \<subseteq> L \<Longrightarrow> A \<inter> insert n S = {} \<Longrightarrow> B \<inter> insert n S = {} \<Longrightarrow>
   A \<union> B \<subseteq> L - {n} \<and> S \<inter> (A \<union> B) = {}"
  by blast

lemma sleep_pop_rep:
  assumes rep: "sched_rep st L rq fq ((n, p) # sq)"
  shows "\<exists>q h kh. list_pop_front (sleep_queue st) (nodes (heap st)) = Inr (n, q, h)
    \<and> kfree n ((heap st)\<lparr>nodes := h\<rparr>) = Inr kh
    \<and> sched_rep (st\<lparr>sleep_queue := q, heap := kh\<rparr>) (L - {n}) rq fq sq
    \<and> (\<forall>m. kheap_room m (heap st) \<longrightarrow> kheap_room m kh)"
proof -
  note d = sched_repD [OF rep]
  obtain q h where pop: "list_pop_front (sleep_queue st) (nodes (heap st)) = Inr (n, q, h)" "flist q h sq"
    "\<forall>b. b \<notin> addrs sq \<longrightarrow> h b = nodes (heap st) b"
    using flist_pop_front [OF d(4)] by blast
  have n: "n \<in> L" "n \<notin> addrs sq" using d(4,7) by (auto simp: flist_def)
  obtain kh where kh: "kfree n ((heap st)\<lparr>nodes := h\<rparr>) = Inr kh" "kheap_rep kh (L - {n})" "nodes kh = h"
    "\<forall>m. kheap_room m (heap st) \<longrightarrow> kheap_room m kh"
    using kfree_used [of "(heap st)\<lparr>nodes := h\<rparr>" L n] d(1) n(1) by auto
  have "sched_rep (st\<lparr>sleep_queue := q, heap := kh\<rparr>) (L - {n}) rq fq sq"
  proof (rule sched_rep_sleep [OF rep kh(2)])
    show "flist q (nodes kh) sq" using pop(2) kh(3) by simp
    have "addrs ((n, p) # sq) = insert n (addrs sq)" by simp
    note d7 = d(7,9,10) [unfolded this]
    show "addrs sq \<subseteq> L - {n}" using d7(1) n(2) by blast
    have "addrs rq \<union> addrs fq \<subseteq> - addrs sq" using d7 by blast
    moreover have "\<forall>b\<in>- addrs sq. h b = nodes (heap st) b" using pop(3) by blast
    ultimately show "\<forall>b\<in>addrs rq \<union> addrs fq. nodes kh b = nodes (heap st) b"
      unfolding kh(3) by (rule agree_subset)
    show "addrs rq \<union> addrs fq \<subseteq> L - {n}" "addrs sq \<inter> (addrs rq \<union> addrs fq) = {}"
      using disjoint_remove [OF d(5,6) d7(2,3)] by simp_all
  qed
  then show ?thesis using pop(1) kh(1,4) by blast
qed

definition woken :: "sched \<Rightarrow> u32 \<Rightarrow> u32 \<Rightarrow> u32 \<times> u32 \<Rightarrow> bool" where
  "woken st ticks subticks x \<longleftrightarrow> due (procs st (snd x)) ticks subticks"

lemma sched_rep_proc_upd [simp]: "sched_rep (proc_upd p f st) L rq fq sq = sched_rep st L rq fq sq"
  by (simp add: proc_upd_def sched_rep_def)

lemma wake_step:
  assumes rep: "sched_rep st L rq fq ((n, p) # sq)" and p: "p \<noteq> 0" "due (procs st p) t s"
    and room: "kheap_room (Suc m) (heap st)"
  shows "\<exists>st' L' a. sched_rep st' L' ((a, p) # rq) fq sq \<and> kheap_room m (heap st')
    \<and> procs st' = (procs st)(p := (procs st p)\<lparr>p_end_tick := 0, p_end_subtick := 0, p_status := PROCESS_READY\<rparr>)
    \<and> wake_loop t s (Suc fuel) p st =
        (if sq = [] then Inr st' else wake_loop t s fuel (snd (hd sq)) st')"
proof -
  let ?st = "proc_upd p (\<lambda>q. q\<lparr>p_end_tick := 0, p_end_subtick := 0, p_status := PROCESS_READY\<rparr>) st"
  have h: "heap ?st = heap st" by (simp add: proc_upd_def)
  obtain a q kh where e: "sched_enqueue p ?st = Inr (?st\<lparr>process_queue := q, heap := kh\<rparr>)"
    "sched_rep (?st\<lparr>process_queue := q, heap := kh\<rparr>) (insert a L) ((a, p) # rq) fq ((n, p) # sq)" "kheap_room m kh"
    using sched_enqueue_rep [of ?st L rq fq "(n, p) # sq" p m] rep p(1) room h by auto
  let ?st1 = "?st\<lparr>process_queue := q, heap := kh\<rparr>"
  from sleep_pop_rep [OF e(2)] obtain q' h' kh' where
    pop: "list_pop_front (sleep_queue ?st1) (nodes (heap ?st1)) = Inr (n, q', h')"
    "kfree n ((heap ?st1)\<lparr>nodes := h'\<rparr>) = Inr kh'"
    "sched_rep (?st1\<lparr>sleep_queue := q', heap := kh'\<rparr>) (insert a L - {n}) ((a, p) # rq) fq sq" "kheap_room m kh'"
    using e(3) by auto
  let ?st2 = "?st1\<lparr>sleep_queue := q', heap := kh'\<rparr>"
  have fl: "flist q' (nodes kh') sq" using sched_repD(4) [OF pop(3)] by simp
  have "wake_loop t s (Suc fuel) p st = (if sq = [] then Inr ?st2 else wake_loop t s fuel (snd (hd sq)) ?st2)"
  proof (cases sq)
    case Nil
    then show ?thesis using p e(1) pop(1,2) fl by (simp add: Let_def flist_def)
  next
    case (Cons x xs)
    then obtain nd where "l_head q' = fst x" "fst x \<noteq> 0" "nodes kh' (fst x) = Some nd" "ln_value nd = snd x" "l_length q' \<noteq> 0"
      using fl by (cases x) (auto simp: flist_def)
    then show ?thesis using p e(1) pop(1,2) Cons by (simp add: Let_def)
  qed
  then show ?thesis using pop(3,4)
    by (intro exI [of _ ?st2] exI [of _ "insert a L - {n}"] exI [of _ a]) (simp add: proc_upd_def)
qed

lemma wake_loop_rep:
  assumes "sched_rep st L rq fq sq" "sq \<noteq> []" "distinct (map snd sq)" "0 \<notin> snd ` set sq"
    and "kheap_room (length sq) (heap st)"
  shows "\<exists>st' L' rq'. wake_loop t s (Suc (length sq)) (snd (hd sq)) st = Inr st'
    \<and> sched_rep st' L' rq' fq (dropWhile (woken st t s) sq)
    \<and> map snd rq' = rev (map snd (takeWhile (woken st t s) sq)) @ map snd rq
    \<and> (\<forall>p. p \<notin> snd ` set (takeWhile (woken st t s) sq) \<longrightarrow> procs st' p = procs st p)"
  using assms
proof (induction sq arbitrary: st L rq)
  case (Cons x sq)
  obtain n p where x: "x = (n, p)" by fastforce
  show ?case
  proof (cases "due (procs st p) t s")
    case False
    then show ?thesis using Cons.prems(1) x by (auto simp: woken_def intro!: exI [of _ L] exI [of _ rq])
  next
    case True
    have p: "p \<noteq> 0" "p \<notin> snd ` set sq" using Cons.prems(3,4) x by auto
    from wake_step [OF Cons.prems(1) [unfolded x] p(1) True, of "length sq" "Suc (length sq)"] obtain st1 L1 a where
      st1: "sched_rep st1 L1 ((a, p) # rq) fq sq" "kheap_room (length sq) (heap st1)"
      "procs st1 = (procs st)(p := (procs st p)\<lparr>p_end_tick := 0, p_end_subtick := 0, p_status := PROCESS_READY\<rparr>)"
      "wake_loop t s (Suc (Suc (length sq))) p st =
         (if sq = [] then Inr st1 else wake_loop t s (Suc (length sq)) (snd (hd sq)) st1)"
      using Cons.prems(5) by auto
    have w: "woken st1 t s y = woken st t s y" if "y \<in> set sq" for y
      using that p(2) st1(3) by (auto simp: woken_def)
    have wx: "woken st t s x" using True x by (simp add: woken_def)
    show ?thesis
    proof (cases "sq = []")
      case True
      then show ?thesis using st1 x wx
        by (intro exI [of _ st1] exI [of _ L1] exI [of _ "(a, p) # rq"]) (auto simp del: wake_loop.simps)
    next
      case False
      from Cons.IH [OF st1(1) False _ _ st1(2)] Cons.prems(3,4) obtain st' L' rq' where
        "wake_loop t s (Suc (length sq)) (snd (hd sq)) st1 = Inr st'"
        "sched_rep st' L' rq' fq (dropWhile (woken st1 t s) sq)"
        "map snd rq' = rev (map snd (takeWhile (woken st1 t s) sq)) @ map snd ((a, p) # rq)"
        "\<forall>q. q \<notin> snd ` set (takeWhile (woken st1 t s) sq) \<longrightarrow> procs st' q = procs st1 q" by auto
      moreover have "takeWhile (woken st1 t s) sq = takeWhile (woken st t s) sq"
        "dropWhile (woken st1 t s) sq = dropWhile (woken st t s) sq"
        using w by (auto intro: takeWhile_cong dropWhile_cong)
      ultimately show ?thesis using st1(3,4) x wx False
        by (intro exI [of _ st'] exI [of _ L'] exI [of _ rq']) (auto simp del: wake_loop.simps)
    qed
  qed
qed simp

section \<open>The finished queue\<close>

lemma sched_rep_finished:
  assumes "sched_rep st L rq fq sq" "kheap_rep kh L'" "dlist q (nodes kh) fq'" "addrs fq' \<subseteq> L'"
    and "\<forall>b\<in>addrs rq \<union> addrs sq. nodes kh b = nodes (heap st) b"
    and "addrs rq \<union> addrs sq \<subseteq> L'" "addrs fq' \<inter> (addrs rq \<union> addrs sq) = {}"
  shows "sched_rep (st\<lparr>finished_queue := q, heap := kh\<rparr>) L' rq fq' sq"
proof -
  note d = sched_repD [OF assms(1)]
  have "dlist (process_queue st) (nodes kh) rq"
    using dlist_frame [of rq "nodes kh" "nodes (heap st)"] assms(5) d(2) by blast
  moreover have "flist (sleep_queue st) (nodes kh) sq"
    using flist_frame [OF d(4), of "nodes kh"] assms(5) by blast
  moreover have "addrs rq \<inter> addrs fq' = {}" "addrs fq' \<inter> addrs sq = {}" using assms(7) by blast+
  ultimately show ?thesis using assms(2-4,6) d(9) by (simp add: sched_rep_def)
qed

lemma finished_delete_rep:
  assumes rep: "sched_rep st L rq (xs @ (n, p) # ys) sq"
  shows "\<exists>q h kh. list_delete (finished_queue st) (nodes (heap st)) n = Inr (q, h)
    \<and> kfree n ((heap st)\<lparr>nodes := h\<rparr>) = Inr kh
    \<and> sched_rep (st\<lparr>finished_queue := q, heap := kh\<rparr>) (L - {n}) rq (xs @ ys) sq"
proof -
  note d = sched_repD [OF rep]
  have ad: "addrs (xs @ (n, p) # ys) = insert n (addrs (xs @ ys))" by (simp add: image_Un)
  note d6 = d(6,8,10) [unfolded ad]
  obtain q h where del: "list_delete (finished_queue st) (nodes (heap st)) n = Inr (q, h)" "dlist q h (xs @ ys)"
    "\<forall>b. b \<notin> addrs (xs @ ys) \<longrightarrow> h b = nodes (heap st) b"
    using list_delete_ok [OF d(3)] by blast
  have n: "n \<in> L" "n \<notin> addrs (xs @ ys)" using d(3) d6(1) by (auto simp: dlist_def)
  obtain kh where kh: "kfree n ((heap st)\<lparr>nodes := h\<rparr>) = Inr kh" "kheap_rep kh (L - {n})" "nodes kh = h"
    using kfree_used [of "(heap st)\<lparr>nodes := h\<rparr>" L n] d(1) n(1) by auto
  have "sched_rep (st\<lparr>finished_queue := q, heap := kh\<rparr>) (L - {n}) rq (xs @ ys) sq"
  proof (rule sched_rep_finished [OF rep kh(2)])
    show "dlist q (nodes kh) (xs @ ys)" using del(2) kh(3) by simp
    show "addrs (xs @ ys) \<subseteq> L - {n}" using d6(1) n(2) by blast
    have "addrs rq \<union> addrs sq \<subseteq> - addrs (xs @ ys)" using d6(2,3) by blast
    moreover have "\<forall>b\<in>- addrs (xs @ ys). h b = nodes (heap st) b" using del(3) by blast
    ultimately show "\<forall>b\<in>addrs rq \<union> addrs sq. nodes kh b = nodes (heap st) b"
      unfolding kh(3) by (rule agree_subset)
    have "addrs sq \<inter> insert n (addrs (xs @ ys)) = {}" using d6(3) by (simp only: Int_commute)
    from disjoint_remove [OF d(5,7) d6(2) this]
    show "addrs rq \<union> addrs sq \<subseteq> L - {n}" "addrs (xs @ ys) \<inter> (addrs rq \<union> addrs sq) = {}" by simp_all
  qed
  then show ?thesis using del(1) kh(1) by blast
qed

lemma lookup_finished_skip:
  assumes "dseg (nodes (heap st)) b n (xs @ ys) 0" "\<forall>x\<in>set xs. snd x \<noteq> 0 \<and> p_id (procs st (snd x)) \<noteq> pid"
  shows "\<exists>m c. lookup_finished_loop pid (length xs + k) n st = lookup_finished_loop pid k m st
    \<and> dseg (nodes (heap st)) c m ys 0"
  using assms
proof (induction xs arbitrary: b n)
  case (Cons x xs)
  obtain a v where x: "x = (a, v)" by fastforce
  with Cons.prems obtain nx where *: "n = a" "a \<noteq> 0" "dseg (nodes (heap st)) a nx (xs @ ys) 0"
    "nodes (heap st) a = Some \<lparr>ln_prev = b, ln_next = nx, ln_value = v\<rparr>" by auto
  then show ?case using Cons.IH [OF *(3)] Cons.prems(2) x by (simp add: Let_def)
qed auto

lemma lookup_finished_hit:
  assumes rep: "sched_rep st L rq (xs @ (n, p) # ys) sq"
    and "\<forall>x\<in>set xs. snd x \<noteq> 0 \<and> p_id (procs st (snd x)) \<noteq> of_int pid" "p \<noteq> 0" "p_id (procs st p) = of_int pid"
  shows "\<exists>st'. sched_lookup_finished pid st = Inr (p, st') \<and> sched_rep st' (L - {n}) rq (xs @ ys) sq
    \<and> procs st' = procs st"
proof -
  have seg: "dseg (nodes (heap st)) 0 (l_head (finished_queue st)) (xs @ (n, p) # ys) 0"
    and len: "nat (l_length (finished_queue st)) = length xs + Suc (length ys)"
    using sched_repD(3) [OF rep] by (auto simp: dlist_def)
  from lookup_finished_skip [OF seg assms(2), of "Suc (length ys)"] obtain m c where
    m: "sched_lookup_finished pid st = lookup_finished_loop (of_int pid) (Suc (length ys)) m st"
    "dseg (nodes (heap st)) c m ((n, p) # ys) 0"
    unfolding sched_lookup_finished_def len by blast
  then obtain nd where nd: "m = n" "n \<noteq> 0" "nodes (heap st) n = Some nd" "ln_value nd = p" by auto
  from finished_delete_rep [OF rep] obtain q h kh where
    "list_delete (finished_queue st) (nodes (heap st)) n = Inr (q, h)" "kfree n ((heap st)\<lparr>nodes := h\<rparr>) = Inr kh"
    "sched_rep (st\<lparr>finished_queue := q, heap := kh\<rparr>) (L - {n}) rq (xs @ ys) sq" by blast
  then show ?thesis using m(1) nd assms(3,4) by (auto simp: Let_def)
qed

lemma lookup_finished_miss:
  assumes rep: "sched_rep st L rq fq sq"
    and "\<forall>x\<in>set fq. snd x \<noteq> 0 \<and> p_id (procs st (snd x)) \<noteq> of_int pid"
  shows "sched_lookup_finished pid st = Inr (0, st)"
proof -
  have seg: "dseg (nodes (heap st)) 0 (l_head (finished_queue st)) (fq @ []) 0"
    and len: "nat (l_length (finished_queue st)) = length fq + 0"
    using sched_repD(3) [OF rep] by (auto simp: dlist_def)
  from lookup_finished_skip [OF seg assms(2), of 0] show ?thesis
    unfolding sched_lookup_finished_def len by auto
qed

section \<open>Properties\<close>

definition boot_sched :: "u32 \<Rightarrow> sched" where
  "boot_sched cur = \<lparr>procs = (\<lambda>a. \<lparr>p_id = a, p_state = 0, p_status = 0, p_esp = 0, p_ebp = 0, p_eip = 0,
       p_kstack = 0, p_end_tick = 0, p_end_subtick = 0, p_pd = 0\<rparr>),
     process_queue = list_create, finished_queue = list_create, sleep_queue = list_create,
     heap = empty_heap 0xc0000000, current = cur, current_pd = 0,
     tss = \<lparr>tss_esp0 = 0, tss_ss0 = 0, tss_cs = 0, tss_segs = 0\<rparr>, regs = \<lparr>r_eip = 0, r_esp = 0, r_ebp = 0\<rparr>,
     intr_st = \<lparr>intr_flag = True, sync_depth = 0, irq_routines = replicate 64 0, ports = []\<rparr>,
     timer_ticks = 0, timer_subticks = 0, timer_drift = 0, behind = False, boot_time = 0\<rparr>"

lemma boot_sched_rep: "sched_rep (boot_sched cur) {} [] [] []" "kheap_room (Suc 2) (heap (boot_sched cur))"
  using empty_heap_rep [of "0xc0000000"] empty_heap_room
  by (simp_all add: sched_rep_def boot_sched_def dlist_def flist_def list_create_def)

lemma kheap_room_mono: "kheap_room n kh \<Longrightarrow> m \<le> n \<Longrightarrow> kheap_room m kh"
  by (simp add: kheap_room_def heap_room_def)



text \<open>C3: a reschedule is round-robin: the running process saves its registers and goes
  to the end of the line, the process that has waited longest becomes current, and
  nobody else moves.\<close>

theorem context_switch_round_robin:
  assumes "sched_rep st L (rq @ [(a, p)]) fq sq" "current st \<noteq> 0" "p \<noteq> 0"
    and "r_eip r \<noteq> 0x12345678" "p_eip (procs st p) \<noteq> 0x12345678" "kheap_room 1 (heap st)"
  shows "\<exists>st' L' c. context_switch r True st = Inr st' \<and> sched_rep st' L' ((c, current st) # rq) fq sq
    \<and> current st' = p
    \<and> procs st' = (procs st)(current st := (procs st (current st))\<lparr>p_eip := r_eip r, p_esp := r_esp r, p_ebp := r_ebp r\<rparr>)"
  using assms by (rule context_switch_rep)

theorem context_switch_round_robin_witness:
  "\<exists>st st'. sched_enqueue 16 (boot_sched 8) = Inr st
     \<and> context_switch \<lparr>r_eip = 1, r_esp = 2, r_ebp = 3\<rparr> True st = Inr st' \<and> current st' = 16"
proof -
  obtain a q kh where e: "sched_enqueue 16 (boot_sched 8) = Inr ((boot_sched 8)\<lparr>process_queue := q, heap := kh\<rparr>)"
    "sched_rep ((boot_sched 8)\<lparr>process_queue := q, heap := kh\<rparr>) {a} ([] @ [(a, 16)]) [] []" "kheap_room 2 kh"
    using sched_enqueue_rep [OF boot_sched_rep(1) _ boot_sched_rep(2) [of 8], of 16] by auto
  from context_switch_round_robin [OF e(2), of "\<lparr>r_eip = 1, r_esp = 2, r_ebp = 3\<rparr>"] e kheap_room_mono [OF e(3), of 1]
  show ?thesis by (auto simp: boot_sched_def)
qed

text \<open>C6: \<^verbatim>\<open>sleep_enqueue\<close> keeps the sleep queue ordered by deadline: a process that is not
  yet asleep is inserted behind all processes with an earlier or equal deadline and in front
  of all later ones, although the list insertion leaves \<^verbatim>\<open>prev\<close> pointers and \<^verbatim>\<open>tail\<close> stale.\<close>

theorem sleep_enqueue_sorted:
  assumes "sched_rep st L rq fq sq" "sleep_sorted (procs st) sq" "p \<notin> snd ` set sq" "kheap_room 1 (heap st)"
  shows "\<exists>a L' st'. sleep_enqueue p s ss st = Inr st'
    \<and> sched_rep st' L' rq fq (takeWhile (\<lambda>x. \<not> later (procs st (snd x)) s ss) sq @ (a, p)
         # dropWhile (\<lambda>x. \<not> later (procs st (snd x)) s ss) sq)
    \<and> sleep_sorted (procs st') (takeWhile (\<lambda>x. \<not> later (procs st (snd x)) s ss) sq @ (a, p)
         # dropWhile (\<lambda>x. \<not> later (procs st (snd x)) s ss) sq)
    \<and> p_end_tick (procs st' p) = s \<and> p_end_subtick (procs st' p) = ss"
proof -
  from sleep_enqueue_rep [OF assms(1), of 0 p s ss] assms(4) obtain a st' where
    "sleep_enqueue p s ss st = Inr st'"
    "sched_rep st' (insert a L) rq fq (takeWhile (\<lambda>x. \<not> later (procs st (snd x)) s ss) sq @ (a, p)
         # dropWhile (\<lambda>x. \<not> later (procs st (snd x)) s ss) sq)"
    "procs st' = (procs st)(p := (procs st p)\<lparr>p_end_tick := s, p_end_subtick := ss\<rparr>)" by auto
  then show ?thesis using sleep_sorted_insert [OF assms(2,3), where s = s and ss = ss and a = a]
    by (intro exI [of _ a] exI [of _ "insert a L"] exI [of _ st']) simp
qed

theorem sleep_enqueue_sorted_witness:
  "\<exists>st'. sleep_enqueue 16 5 0 (boot_sched 8) = Inr st' \<and> p_end_tick (procs st' 16) = 5"
  using sleep_enqueue_sorted [OF boot_sched_rep(1) [of 8], of 16 5 0] kheap_room_mono [OF boot_sched_rep(2) [of 8], of 1]
  by (auto simp: sleep_sorted_def)

text \<open>C4: at a tick \<^verbatim>\<open>process_wakeup_sleepers\<close> moves exactly the processes whose deadline has
  come from the sleep queue to the run queue, in deadline order behind the
  processes already waiting, leaves every other process asleep, and terminates.\<close>

theorem wakeup_sleepers_exact:
  assumes "sched_rep st L rq fq sq" "sleep_sorted (procs st) sq" "distinct (map snd sq)" "0 \<notin> snd ` set sq"
    and "kheap_room (length sq) (heap st)"
  shows "\<exists>st' L' rq' sq'. process_wakeup_sleepers t s st = Inr st' \<and> sched_rep st' L' rq' fq sq'
    \<and> sq' = filter (\<lambda>x. \<not> due (procs st (snd x)) t s) sq
    \<and> map snd rq' = rev (map snd (filter (\<lambda>x. due (procs st (snd x)) t s) sq)) @ map snd rq"
proof -
  let ?st = "st\<lparr>intr_st := interrupt_disable (intr_st st)\<rparr>"
  have nl: "due q t s \<longleftrightarrow> \<not> later q t s" for q by (auto simp: due_def later_def)
  have suf: "\<not> woken st t s x" if "x \<in> set (dropWhile (woken st t s) sq)" for x
  proof -
    have "woken st t s = (\<lambda>x. \<not> later (procs st (snd x)) t s)" by (simp add: fun_eq_iff woken_def nl)
    then have "dropWhile (\<lambda>w. \<not> later (procs st w) t s) (map snd sq) = map snd (dropWhile (woken st t s) sq)"
      by (simp add: dropWhile_map comp_def)
    then have "snd x \<in> set (dropWhile (\<lambda>w. \<not> later (procs st w) t s) (map snd sq))"
      using that by simp
    then have "later (procs st (snd x)) t s"
      by (rule sorted_later_suffix [OF assms(2) [unfolded sleep_sorted_def]])
    then show ?thesis by (simp add: woken_def nl)
  qed
  have split: "takeWhile (woken st t s) sq = filter (woken st t s) sq"
    "dropWhile (woken st t s) sq = filter (\<lambda>x. \<not> woken st t s x) sq"
    by (rule takeWhile_eq_filter [OF suf], assumption) (rule dropWhile_eq_filter, use suf in blast)
  show ?thesis
  proof (cases "sq = []")
    case True
    then have "l_length (sleep_queue st) = 0" using sched_repD(4) [OF assms(1)] by (simp add: flist_def)
    then show ?thesis using assms(1) True
      by (auto simp: process_wakeup_sleepers_def Let_def sched_rep_def)
  next
    case False
    have fl: "flist (sleep_queue st) (nodes (heap st)) sq" by (rule sched_repD(4) [OF assms(1)])
    then obtain nd where hd: "deref (nodes (heap st)) (l_head (sleep_queue st)) = Inr nd" "ln_value nd = snd (hd sq)"
      "l_length (sleep_queue st) = int (length sq)"
      using False by (cases sq) (auto simp: flist_def)
    have rep: "sched_rep ?st L rq fq sq" using assms(1) by (simp add: sched_rep_def)
    have w: "woken ?st t s = woken st t s" by (auto simp: woken_def fun_eq_iff)
    from wake_loop_rep [OF rep False assms(3,4), of t s] assms(5) obtain st' L' rq' where
      "wake_loop t s (Suc (length sq)) (snd (hd sq)) ?st = Inr st'"
      "sched_rep st' L' rq' fq (dropWhile (woken st t s) sq)"
      "map snd rq' = rev (map snd (takeWhile (woken st t s) sq)) @ map snd rq"
      unfolding w by (auto simp del: wake_loop.simps)
    moreover from this have "sched_rep (st'\<lparr>intr_st := interrupt_resume (intr_st st')\<rparr>) L' rq' fq (dropWhile (woken st t s) sq)"
      by (simp add: sched_rep_def)
    moreover have "woken st t s = (\<lambda>x. due (procs st (snd x)) t s)" by (simp add: fun_eq_iff woken_def)
    ultimately show ?thesis using hd False unfolding split
      by (intro exI [of _ "st'\<lparr>intr_st := interrupt_resume (intr_st st')\<rparr>"] exI [of _ L'] exI [of _ rq']
          exI [of _ "filter (\<lambda>x. \<not> due (procs st (snd x)) t s) sq"])
         (simp add: process_wakeup_sleepers_def Let_def del: wake_loop.simps)
  qed
qed

theorem wakeup_sleepers_exact_witness:
  "\<exists>st st'. sleep_enqueue 16 5 0 (boot_sched 8) = Inr st \<and> process_wakeup_sleepers 6 0 st = Inr st'"
proof -
  obtain a st where st: "sleep_enqueue 16 5 0 (boot_sched 8) = Inr st" "sched_rep st {a} [] [] [(a, 16)]"
    "kheap_room 2 (heap st)"
    using sleep_enqueue_rep [OF boot_sched_rep(1) boot_sched_rep(2) [of 8], of 16 5 0] by auto
  have "sleep_sorted (procs st) [(a, 16)]" by (simp add: sleep_sorted_def)
  from wakeup_sleepers_exact [OF st(2) this, of 6 0] kheap_room_mono [OF st(3), of 1] st(1) show ?thesis by auto
qed



text \<open>When the sub-ticks carry into the next second, \<^verbatim>\<open>relative_time\<close> computes the deadline
  from the sub-tick counter and ignores the current tick: the result is the same
  for every value of \<^verbatim>\<open>timer_ticks\<close>, so after the first seconds of uptime the deadline lies in the past.\<close>

lemma relative_time_carry_ignores_ticks:
  assumes "subseconds + timer_subticks st > 1000"
  shows "relative_time seconds subseconds (st\<lparr>timer_ticks := t\<rparr>) =
    (timer_subticks st + seconds + 1, subseconds + timer_subticks st - 1000)"
  using assms by (simp add: relative_time_def)

end
