(* ===== verification/HashMap.thy ===== *)
theory HashMap
  imports CString
begin

text \<open>
  The chained hash map of \<^verbatim>\<open>src/common/hashmap.c\<close>, used for the kernel symbol
  table, the module table and the file-system types.  A bucket is the chain of
  its entries in order, an entry the duplicated key (a NUL-terminated object of its
  own) and the value pointer; the chains are owned by the map, so they are lists and
  not heap cells.  Memory for entries is taken to be available.  The locale
  \<open>string_map\<close> is what the clients of the map rely on.
\<close>

section \<open>Data and operations\<close>

type_synonym hashmap_entry = "bytes \<times> u32"

text \<open>In any mode other than \<^verbatim>\<open>HASHMAP_STRING\<close> the function pointers of the map are
  never set; \<open>hm_string\<close> records that they are.\<close>

record hashmap =
  hm_string :: bool
  hm_size :: u32
  hm_entries :: "hashmap_entry list list"

definition HASHMAP_STRING :: int where "HASHMAP_STRING = 0"

fun hash_loop :: "bytes \<Rightarrow> u32 \<Rightarrow> u32 res" where
  "hash_loop [] hash = Inl Out_of_bounds"
| "hash_loop (c # p) hash =
     (if c = 0 then Inr hash
      else hash_loop p (scast c + push_bit 6 hash + push_bit 16 hash - hash))"

definition hashmap_string_hash :: "bytes \<Rightarrow> u32 res" where
  "hashmap_string_hash key = hash_loop key 0"

definition hashmap_string_compare :: "bytes \<Rightarrow> bytes \<Rightarrow> bool res" where
  "hashmap_string_compare a b = rmap (\<lambda>r. r = 0) (strcmp a b)"

definition hashmap_string_dup :: "bytes \<Rightarrow> bytes res" where
  "hashmap_string_dup key =
     rbind (strlen key) (\<lambda>n. memcpy (replicate (unat (n + 1)) 0) key (n + 1))"

definition hashmap_create :: "int \<Rightarrow> int \<Rightarrow> hashmap" where
  "hashmap_create sz mode =
     \<lparr>hm_string = (mode = HASHMAP_STRING), hm_size = of_int sz,
      hm_entries = replicate (unat (of_int sz :: u32)) []\<rparr>"

text \<open>\<^verbatim>\<open>map->hash(key) % map->size\<close>\<close>

definition bucket_of :: "hashmap \<Rightarrow> bytes \<Rightarrow> nat res" where
  "bucket_of m key =
     rbind (rcheck Null_deref (hm_string m)) (\<lambda>_.
     rbind (hashmap_string_hash key) (\<lambda>h.
     rbind (rcheck Div_by_zero (hm_size m \<noteq> 0)) (\<lambda>_. Inr (unat (h mod hm_size m)))))"

fun set_chain :: "hashmap_entry list \<Rightarrow> bytes \<Rightarrow> u32 \<Rightarrow> (u32 \<times> hashmap_entry list) res" where
  "set_chain [] key v = rmap (\<lambda>k. (0, [(k, v)])) (hashmap_string_dup key)"
| "set_chain ((k, w) # x) key v =
     rbind (hashmap_string_compare k key) (\<lambda>eq.
     if eq then Inr (w, (k, v) # x)
     else rmap (\<lambda>(out, x). (out, (k, w) # x)) (set_chain x key v))"

definition hashmap_set :: "hashmap \<Rightarrow> bytes \<Rightarrow> u32 \<Rightarrow> (u32 \<times> hashmap) res" where
  "hashmap_set m key v =
     rbind (bucket_of m key) (\<lambda>i.
     rbind (set_chain (hm_entries m ! i) key v) (\<lambda>(out, x).
     Inr (out, m\<lparr>hm_entries := (hm_entries m)[i := x]\<rparr>)))"

fun get_chain :: "hashmap_entry list \<Rightarrow> bytes \<Rightarrow> u32 res" where
  "get_chain [] key = Inr 0"
| "get_chain ((k, w) # x) key =
     rbind (hashmap_string_compare k key) (\<lambda>eq. if eq then Inr w else get_chain x key)"

definition hashmap_get :: "hashmap \<Rightarrow> bytes \<Rightarrow> u32 res" where
  "hashmap_get m key = rbind (bucket_of m key) (\<lambda>i. get_chain (hm_entries m ! i) key)"

text \<open>The prefix search returns nothing when no key matches.\<close>

fun prefix_chain :: "hashmap_entry list \<Rightarrow> bytes \<Rightarrow> u32 option res" where
  "prefix_chain [] prefix = Inr None"
| "prefix_chain ((k, w) # x) prefix =
     rbind (strlen k) (\<lambda>n. rbind (strlen prefix) (\<lambda>n'.
     if n < n' then prefix_chain x prefix
     else rbind (memcmp k prefix n') (\<lambda>r. if r \<noteq> 0 then prefix_chain x prefix else Inr (Some w))))"

fun prefix_scan :: "hashmap_entry list list \<Rightarrow> bytes \<Rightarrow> u32 res" where
  "prefix_scan [] prefix = Inl No_return"
| "prefix_scan (x # xs) prefix =
     rbind (prefix_chain x prefix) (\<lambda>r. case r of Some w \<Rightarrow> Inr w | None \<Rightarrow> prefix_scan xs prefix)"

definition hashmap_beigin_with :: "hashmap \<Rightarrow> bytes \<Rightarrow> u32 res" where
  "hashmap_beigin_with m prefix = prefix_scan (hm_entries m) prefix"

text \<open>The loop of \<^verbatim>\<open>hashmap_delete\<close> behind the first entry is a
  \<^verbatim>\<open>do\<close>-\<^verbatim>\<open>while\<close>: it reads \<^verbatim>\<open>x->key\<close> before it tests \<^verbatim>\<open>x\<close>.\<close>

fun delete_rest :: "hashmap_entry list \<Rightarrow> bytes \<Rightarrow> (u32 \<times> hashmap_entry list) res" where
  "delete_rest [] key = Inl Null_deref"
| "delete_rest ((k, w) # x) key =
     rbind (hashmap_string_compare k key) (\<lambda>eq.
     if eq then Inr (w, x)
     else if x = [] then Inr (0, [(k, w)])
     else rmap (\<lambda>(out, x). (out, (k, w) # x)) (delete_rest x key))"

fun delete_chain :: "hashmap_entry list \<Rightarrow> bytes \<Rightarrow> (u32 \<times> hashmap_entry list) res" where
  "delete_chain [] key = Inr (0, [])"
| "delete_chain ((k, w) # x) key =
     rbind (hashmap_string_compare k key) (\<lambda>eq.
     if eq then Inr (w, x) else rmap (\<lambda>(out, x). (out, (k, w) # x)) (delete_rest x key))"

definition hashmap_delete :: "hashmap \<Rightarrow> bytes \<Rightarrow> (u32 \<times> hashmap) res" where
  "hashmap_delete m key =
     rbind (bucket_of m key) (\<lambda>i.
     rbind (delete_chain (hm_entries m ! i) key) (\<lambda>(out, x).
     Inr (out, m\<lparr>hm_entries := (hm_entries m)[i := x]\<rparr>)))"

section \<open>The map a structure represents\<close>

definition hash_str :: "bytes \<Rightarrow> u32" where
  "hash_str s = foldl (\<lambda>h c. scast c + push_bit 6 h + push_bit 16 h - h) 0 s"

definition str_bucket :: "hashmap \<Rightarrow> bytes \<Rightarrow> nat" where
  "str_bucket m s = unat (hash_str s mod hm_size m)"

definition chain_abs :: "hashmap_entry list \<Rightarrow> bytes \<Rightarrow> u32 option" where
  "chain_abs x s = map_of x (s @ [0])"

definition hm_abs :: "hashmap \<Rightarrow> bytes \<Rightarrow> u32 option" where
  "hm_abs m s = (if 0 \<in> set s then None else chain_abs (hm_entries m ! str_bucket m s) s)"

definition chain_ok :: "hashmap_entry list \<Rightarrow> bool" where
  "chain_ok x \<longleftrightarrow> (\<forall>k\<in>fst ` set x. \<exists>s. k = s @ [0] \<and> 0 \<notin> set s) \<and> distinct (map fst x)"

definition hm_inv :: "hashmap \<Rightarrow> bool" where
  "hm_inv m \<longleftrightarrow> hm_string m \<and> hm_size m \<noteq> 0 \<and> length (hm_entries m) = unat (hm_size m)
     \<and> (\<forall>x\<in>set (hm_entries m). chain_ok x)"

definition or_null :: "u32 option \<Rightarrow> u32" where
  "or_null r = (case r of None \<Rightarrow> 0 | Some v \<Rightarrow> v)"

lemma or_null_simps [simp]: "or_null None = 0" "or_null (Some v) = v"
  by (simp_all add: or_null_def)

lemma hash_loop_ok:
  "terminated b \<Longrightarrow>
   hash_loop b h = Inr (foldl (\<lambda>h c. scast c + push_bit 6 h + push_bit 16 h - h) h (cstr b))"
  by (induction b arbitrary: h) auto

lemma compare_ok:
  assumes "0 \<notin> set s" "terminated key"
  shows "hashmap_string_compare (s @ [0]) key = Inr (s = cstr key)"
  using strcmp_sign [of "s @ [0]" key] assms
  by (simp add: hashmap_string_compare_def sign_cmp_def)

lemma dup_ok:
  assumes "terminated key" "length key < 2 ^ 32"
  shows "hashmap_string_dup key = Inr (cstr key @ [0])"
proof -
  have n: "Suc (length (cstr key)) < 2 ^ 32" using length_cstr_less [OF assms(1)] assms(2) by simp
  have "(of_nat (length (cstr key)) + 1 :: u32) = of_nat (Suc (length (cstr key)))" by simp
  then have u: "unat (of_nat (length (cstr key)) + 1 :: u32) = Suc (length (cstr key))"
    using n by (simp only: unat_of_nat32)
  obtain r where "key = cstr key @ 0 # r" using terminated_split [OF assms(1)] by blast
  then have "take (Suc (length (cstr key))) key = cstr key @ [0]"
    by (metis (no_types) append_Cons append_Nil append_assoc append_eq_conv_conj length_append_singleton)
  moreover have "Suc (length (cstr key)) \<le> length key" using length_cstr_less [OF assms(1)] by simp
  ultimately show ?thesis
    by (simp add: hashmap_string_dup_def strlen_ok [OF assms(1)] memcpy_def u memcpy_loop_ok
        del: of_nat_Suc)
qed

lemma chain_ok_Cons:
  "chain_ok ((k, w) # x) \<longleftrightarrow> (\<exists>s. k = s @ [0] \<and> 0 \<notin> set s) \<and> k \<notin> fst ` set x \<and> chain_ok x"
  by (auto simp: chain_ok_def)

lemma get_chain_ok:
  "chain_ok x \<Longrightarrow> terminated key \<Longrightarrow> get_chain x key = Inr (or_null (chain_abs x (cstr key)))"
  by (induction x key rule: get_chain.induct)
     (auto simp: chain_ok_Cons compare_ok chain_abs_def)

lemma set_chain_ok:
  assumes "chain_ok x" "terminated key" "length key < 2 ^ 32"
  shows "\<exists>x'. set_chain x key v = Inr (or_null (chain_abs x (cstr key)), x') \<and> chain_ok x'
    \<and> fst ` set x' = insert (cstr key @ [0]) (fst ` set x)
    \<and> (\<forall>s. chain_abs x' s = (if s = cstr key then Some v else chain_abs x s))"
  using assms
proof (induction x key v rule: set_chain.induct)
  case (1 key v)
  then show ?case by (auto simp: dup_ok chain_abs_def chain_ok_def)
next
  case (2 k w x key v)
  obtain s where s: "k = s @ [0]" "0 \<notin> set s" "k \<notin> fst ` set x" "chain_ok x"
    using 2(2) by (auto simp: chain_ok_Cons)
  show ?case
  proof (cases "s = cstr key")
    case True
    then show ?thesis using s 2(3) by (auto simp: compare_ok chain_abs_def chain_ok_Cons)
  next
    case False
    then obtain x' where "set_chain x key v = Inr (or_null (chain_abs x (cstr key)), x')" "chain_ok x'"
      "fst ` set x' = insert (cstr key @ [0]) (fst ` set x)"
      "\<forall>s. chain_abs x' s = (if s = cstr key then Some v else chain_abs x s)"
      using 2(1) [of False] 2(3,4) s by blast
    then show ?thesis using False s 2(3) by (auto simp: compare_ok chain_abs_def chain_ok_Cons)
  qed
qed

lemma delete_rest_ok:
  assumes "chain_ok x" "terminated key" "x \<noteq> []"
  shows "\<exists>x'. delete_rest x key = Inr (or_null (chain_abs x (cstr key)), x') \<and> chain_ok x'
    \<and> fst ` set x' \<subseteq> fst ` set x
    \<and> (\<forall>s. chain_abs x' s = (if s = cstr key then None else chain_abs x s))"
  using assms
proof (induction x key rule: delete_rest.induct)
  case (2 k w x key)
  obtain s where s: "k = s @ [0]" "0 \<notin> set s" "k \<notin> fst ` set x" "chain_ok x"
    using 2(2) by (auto simp: chain_ok_Cons)
  consider "s = cstr key" | "s \<noteq> cstr key" "x = []" | "s \<noteq> cstr key" "x \<noteq> []" by blast
  then show ?case
  proof cases
    case 1
    then have "chain_abs x (cstr key) = None" using s by (auto simp: chain_abs_def map_of_eq_None_iff)
    then show ?thesis using 1 s 2(3) by (auto simp: compare_ok chain_abs_def)
  next
    case b: 2
    then show ?thesis using s 2(3) by (auto simp: compare_ok chain_abs_def chain_ok_Cons)
  next
    case 3
    then obtain x' where "delete_rest x key = Inr (or_null (chain_abs x (cstr key)), x')" "chain_ok x'"
      "fst ` set x' \<subseteq> fst ` set x"
      "\<forall>s. chain_abs x' s = (if s = cstr key then None else chain_abs x s)"
      using 2(1) [of False] 2(3) s by blast
    then show ?thesis using 3 s 2(3) by (auto simp: compare_ok chain_abs_def chain_ok_Cons)
  qed
qed simp

lemma delete_chain_ok:
  assumes "chain_ok x" "terminated key" "length x \<noteq> 1 \<or> fst (hd x) = cstr key @ [0]"
  shows "\<exists>x'. delete_chain x key = Inr (or_null (chain_abs x (cstr key)), x') \<and> chain_ok x'
    \<and> (\<forall>s. chain_abs x' s = (if s = cstr key then None else chain_abs x s))"
proof (cases x)
  case (Cons e y)
  obtain k w where e: "e = (k, w)" by (cases e)
  obtain s where s: "k = s @ [0]" "0 \<notin> set s" "k \<notin> fst ` set y" "chain_ok y"
    using assms(1) Cons e by (auto simp: chain_ok_Cons)
  show ?thesis
  proof (cases "s = cstr key")
    case True
    then have "chain_abs y (cstr key) = None" using s by (auto simp: chain_abs_def map_of_eq_None_iff)
    then show ?thesis using True s assms(2) Cons e by (auto simp: compare_ok chain_abs_def)
  next
    case False
    then have "y \<noteq> []" using assms(3) Cons e s by auto
    then obtain y' where "delete_rest y key = Inr (or_null (chain_abs y (cstr key)), y')" "chain_ok y'"
      "fst ` set y' \<subseteq> fst ` set y" "\<forall>s. chain_abs y' s = (if s = cstr key then None else chain_abs y s)"
      using delete_rest_ok [OF s(4) assms(2)] by blast
    then show ?thesis using False s assms(2) Cons e by (auto simp: compare_ok chain_abs_def chain_ok_Cons)
  qed
qed (simp add: chain_abs_def chain_ok_def)

lemma delete_chain_single:
  "0 \<notin> set s \<Longrightarrow> terminated key \<Longrightarrow> s \<noteq> cstr key \<Longrightarrow> delete_chain [(s @ [0], w)] key = Inl Null_deref"
  by (simp add: compare_ok)

section \<open>The operations on the whole map\<close>

lemma bucket_of_ok:
  assumes "hm_inv m" "terminated key"
  shows "bucket_of m key = Inr (str_bucket m (cstr key))"
  using assms
  by (simp add: bucket_of_def hm_inv_def hashmap_string_hash_def hash_loop_ok hash_str_def str_bucket_def)

lemma str_bucket_less: "hm_inv m \<Longrightarrow> str_bucket m s < length (hm_entries m)"
  by (simp add: str_bucket_def hm_inv_def unat_mod_distrib unat_gt_0)

lemma hm_abs_update:
  assumes "hm_inv m" "chain_ok x" "0 \<notin> set s"
    and "\<And>t. chain_abs x t = (if t = s then r else chain_abs (hm_entries m ! str_bucket m s) t)"
  shows "hm_inv (m\<lparr>hm_entries := (hm_entries m)[str_bucket m s := x]\<rparr>)"
    and "hm_abs (m\<lparr>hm_entries := (hm_entries m)[str_bucket m s := x]\<rparr>) = (hm_abs m)(s := r)"
proof -
  show "hm_inv (m\<lparr>hm_entries := (hm_entries m)[str_bucket m s := x]\<rparr>)"
    using assms(1,2) set_update_subset_insert [of "hm_entries m" "str_bucket m s" x]
    by (auto simp: hm_inv_def)
  have "str_bucket (m\<lparr>hm_entries := es\<rparr>) t = str_bucket m t" for es t by (simp add: str_bucket_def)
  then show "hm_abs (m\<lparr>hm_entries := (hm_entries m)[str_bucket m s := x]\<rparr>) = (hm_abs m)(s := r)"
    using assms(3,4) str_bucket_less [OF assms(1), of s]
    by (auto simp: hm_abs_def fun_eq_iff nth_list_update)
qed

lemma hm_chain_ok: "hm_inv m \<Longrightarrow> chain_ok (hm_entries m ! str_bucket m s)"
  using str_bucket_less [of m s] by (auto simp: hm_inv_def)

lemma hashmap_get_ok:
  assumes "hm_inv m" "terminated key"
  shows "hashmap_get m key = Inr (or_null (hm_abs m (cstr key)))"
  using get_chain_ok [OF hm_chain_ok [OF assms(1)] assms(2)]
  by (simp add: hashmap_get_def bucket_of_ok [OF assms] hm_abs_def)

lemma hashmap_set_ok:
  assumes "hm_inv m" "terminated key" "length key < 2 ^ 32"
  shows "\<exists>m'. hashmap_set m key v = Inr (or_null (hm_abs m (cstr key)), m') \<and> hm_inv m'
    \<and> hm_abs m' = (hm_abs m)(cstr key \<mapsto> v)"
proof -
  let ?i = "str_bucket m (cstr key)"
  obtain x where "set_chain (hm_entries m ! ?i) key v = Inr (or_null (hm_abs m (cstr key)), x)" "chain_ok x"
    "\<And>t. chain_abs x t = (if t = cstr key then Some v else chain_abs (hm_entries m ! ?i) t)"
    using set_chain_ok [OF hm_chain_ok [OF assms(1), of "cstr key"] assms(2,3), of v]
    by (auto simp: hm_abs_def)
  then show ?thesis
    using hm_abs_update [OF assms(1), of x "cstr key" "Some v"]
    by (auto simp: hashmap_set_def bucket_of_ok [OF assms(1,2)])
qed

lemma hashmap_delete_ok:
  assumes "hm_inv m" "terminated key"
    and "length (hm_entries m ! str_bucket m (cstr key)) \<noteq> 1 \<or> hm_abs m (cstr key) \<noteq> None"
  shows "\<exists>m'. hashmap_delete m key = Inr (or_null (hm_abs m (cstr key)), m') \<and> hm_inv m'
    \<and> hm_abs m' = (hm_abs m)(cstr key := None)"
proof -
  let ?i = "str_bucket m (cstr key)"
  let ?x = "hm_entries m ! ?i"
  have "length ?x \<noteq> 1 \<or> fst (hd ?x) = cstr key @ [0]"
  proof (rule disjCI)
    assume "\<not> fst (hd ?x) = cstr key @ [0]"
    then show "length ?x \<noteq> 1"
      using assms(3) by (cases ?x) (auto simp: hm_abs_def chain_abs_def split: if_splits)
  qed
  then obtain x where "delete_chain ?x key = Inr (or_null (hm_abs m (cstr key)), x)" "chain_ok x"
    "\<And>t. chain_abs x t = (if t = cstr key then None else chain_abs ?x t)"
    using delete_chain_ok [OF hm_chain_ok [OF assms(1), of "cstr key"] assms(2)]
    by (auto simp: hm_abs_def)
  then show ?thesis
    using hm_abs_update [OF assms(1), of x "cstr key" None]
    by (auto simp: hashmap_delete_def bucket_of_ok [OF assms(1,2)])
qed

lemma hashmap_create_ok:
  assumes "0 < n" "n < 2 ^ 31"
  shows "hm_inv (hashmap_create n HASHMAP_STRING)" "hm_abs (hashmap_create n HASHMAP_STRING) = Map.empty"
proof -
  define k where "k = nat n"
  then have k: "n = int k" "0 < k" "k < 2 ^ 31" using assms by auto
  have u: "unat (of_int n :: u32) = k" unfolding k(1) of_int_of_nat_eq using k(3) by (simp add: unat_of_nat32)
  then have nz: "(of_int n :: u32) \<noteq> 0" using k(2) by (metis unat_0 less_irrefl)
  show inv: "hm_inv (hashmap_create n HASHMAP_STRING)"
    using u nz by (simp add: hm_inv_def hashmap_create_def chain_ok_def)
  have "hm_entries (hashmap_create n HASHMAP_STRING) ! i = []"
    if "i < length (hm_entries (hashmap_create n HASHMAP_STRING))" for i
    using that by (simp add: hashmap_create_def)
  then show "hm_abs (hashmap_create n HASHMAP_STRING) = Map.empty"
    using str_bucket_less [OF inv] by (auto simp: hm_abs_def chain_abs_def)
qed

section \<open>What clients rely on\<close>

text \<open>The loops of the kernel that enter a table of names into a map, such as
  \<^verbatim>\<open>module_init\<close> over the kernel symbols.\<close>

fun set_all :: "('m \<Rightarrow> bytes \<Rightarrow> u32 \<Rightarrow> (u32 \<times> 'm) res) \<Rightarrow> (bytes \<times> u32) list \<Rightarrow> 'm \<Rightarrow> 'm res" where
  "set_all ins [] m = Inr m"
| "set_all ins ((k, v) # kvs) m = rbind (ins m k v) (\<lambda>(_, m). set_all ins kvs m)"

definition key_ok :: "bytes \<Rightarrow> bool" where
  "key_ok k \<longleftrightarrow> terminated k \<and> length k < 2 ^ 32"

locale string_map =
  fixes lookup :: "'m \<Rightarrow> bytes \<Rightarrow> u32 res"
    and ins :: "'m \<Rightarrow> bytes \<Rightarrow> u32 \<Rightarrow> (u32 \<times> 'm) res"
    and abs :: "'m \<Rightarrow> bytes \<Rightarrow> u32 option"
    and inv :: "'m \<Rightarrow> bool"
  assumes lookup_law: "inv m \<Longrightarrow> key_ok k \<Longrightarrow> lookup m k = Inr (or_null (abs m (cstr k)))"
    and ins_law: "inv m \<Longrightarrow> key_ok k \<Longrightarrow>
      \<exists>m'. ins m k v = Inr (or_null (abs m (cstr k)), m') \<and> inv m' \<and> abs m' = (abs m)(cstr k \<mapsto> v)"
begin

lemma lookup_after_ins:
  assumes "inv m" "key_ok k" "key_ok k'"
  shows "\<exists>m'. rmap snd (ins m k v) = Inr m' \<and> inv m'
    \<and> lookup m' k' = (if cstr k' = cstr k then Inr v else lookup m k')"
  using ins_law [OF assms(1,2), of v] assms lookup_law by fastforce

lemma set_all_law:
  assumes "inv m" "\<forall>(k, v)\<in>set kvs. key_ok k"
  shows "\<exists>m'. set_all ins kvs m = Inr m' \<and> inv m'
    \<and> abs m' = abs m ++ map_of (rev (map (apfst cstr) kvs))"
  using assms
proof (induction kvs arbitrary: m)
  case (Cons e kvs)
  obtain k v where e: "e = (k, v)" by (cases e)
  obtain m1 where m1: "ins m k v = Inr (or_null (abs m (cstr k)), m1)" "inv m1" "abs m1 = (abs m)(cstr k \<mapsto> v)"
    using ins_law [of m k v] Cons.prems e by auto
  have "\<forall>(k, v)\<in>set kvs. key_ok k" using Cons.prems(2) by simp
  then obtain m' where m': "set_all ins kvs m1 = Inr m'" "inv m'"
    "abs m' = abs m1 ++ map_of (rev (map (apfst cstr) kvs))"
    using Cons.IH [OF m1(2)] by blast
  have "abs m' = abs m ++ map_of (rev (map (apfst cstr) (e # kvs)))"
    unfolding m'(3) m1(3) e by simp
  then show ?case using m' m1(1) e by simp
qed simp

lemma set_all_lookup:
  assumes "inv m" "\<forall>(k, v)\<in>set kvs. key_ok k" "distinct (map (cstr \<circ> fst) kvs)" "(k, v) \<in> set kvs"
  shows "\<exists>m'. set_all ins kvs m = Inr m' \<and> inv m' \<and> lookup m' k = Inr v"
proof -
  obtain m' where m': "set_all ins kvs m = Inr m'" "inv m'"
    "abs m' = abs m ++ map_of (rev (map (apfst cstr) kvs))"
    using set_all_law [OF assms(1,2)] by blast
  have "map_of (rev (map (apfst cstr) kvs)) (cstr k) = Some v"
  proof (rule map_of_is_SomeI)
    show "distinct (map fst (rev (map (apfst cstr) kvs)))"
      using assms(3) by (simp add: rev_map [symmetric] comp_def)
    show "(cstr k, v) \<in> set (rev (map (apfst cstr) kvs))" using assms(4) by force
  qed
  then show ?thesis using m' lookup_law [of m' k] assms(2,4) by (auto simp: map_add_def)
qed

end

interpretation hmap: string_map hashmap_get hashmap_set hm_abs hm_inv
  by unfold_locales (auto simp: key_ok_def hashmap_get_ok hashmap_set_ok)

section \<open>Properties\<close>

text \<open>C24: \<^verbatim>\<open>hashmap_set\<close> keeps the map well formed, returns the value the key had
  (NULL for a new key), and makes a following \<^verbatim>\<open>hashmap_get\<close> return the new value for
  that string and the old answer for every other string, whatever bucket they share.\<close>

theorem hashmap_set_get:
  assumes "hm_inv m" "key_ok k" "key_ok k'"
  shows "\<exists>old m'. hashmap_set m k v = Inr (old, m') \<and> hashmap_get m k = Inr old \<and> hm_inv m'
    \<and> hashmap_get m' k' = (if cstr k' = cstr k then Inr v else hashmap_get m k')"
  using hmap.ins_law [OF assms(1,2), of v] hmap.lookup_law assms by fastforce

theorem hashmap_set_get_witness:
  "\<exists>old m'. hashmap_set (hashmap_create 10 HASHMAP_STRING) [97, 0] 7 = Inr (old, m')
     \<and> hashmap_get (hashmap_create 10 HASHMAP_STRING) [97, 0] = Inr old \<and> hm_inv m'
     \<and> hashmap_get m' [97, 0, 5] = Inr 7"
  using hashmap_set_get [OF hashmap_create_ok(1), of 10 "[97, 0]" "[97, 0, 5]" 7] by (simp add: key_ok_def)



end
