(* ===== verification/OrderedArray.thy ===== *)
theory OrderedArray
  imports Prelude
begin

text \<open>
  The ordered pointer array of \<^verbatim>\<open>src/common/ordered_array.c\<close>: a fixed array of
  \<^verbatim>\<open>max\<close> pointers placed at an address, filled from the front and ended by a NULL
  slot.  The comparer is a parameter of the array, as in the source; an access outside
  the placed array is a failure.
\<close>

type_synonym comparer = "u32 \<Rightarrow> u32 \<Rightarrow> u8 res"

record ordered_array =
  oa_array :: "u32 list"
  oa_size :: u32
  oa_max :: u32
  oa_comparer :: comparer

text \<open>The difference is cut to an \<^verbatim>\<open>int8_t\<close>.\<close>

definition default_comparer :: "(u32 \<Rightarrow> u32 res) \<Rightarrow> comparer" where
  "default_comparer load a b = rbind (load a) (\<lambda>x. rmap (\<lambda>y. ucast (x - y)) (load b))"

definition slot :: "ordered_array \<Rightarrow> nat \<Rightarrow> u32 res" where
  "slot arr i = (if i < length (oa_array arr) then Inr (oa_array arr ! i) else Inl Out_of_bounds)"

definition put :: "nat \<Rightarrow> u32 \<Rightarrow> ordered_array \<Rightarrow> ordered_array res" where
  "put i v arr =
     (if i < length (oa_array arr) then Inr (arr\<lparr>oa_array := (oa_array arr)[i := v]\<rparr>) else Inl Out_of_bounds)"

function find_slot :: "ordered_array \<Rightarrow> u32 \<Rightarrow> nat \<Rightarrow> nat res" where
  "find_slot arr item i =
     (if i < length (oa_array arr)
      then if oa_array arr ! i = 0 then Inr i
        else case oa_comparer arr (oa_array arr ! i) item of
          Inl e \<Rightarrow> Inl e
        | Inr c \<Rightarrow> if sint c < 0 then find_slot arr item (Suc i) else Inr i
      else Inl Out_of_bounds)"
  by pat_completeness auto
termination by (relation "measure (\<lambda>(arr, item, i). length (oa_array arr) - i)") auto

declare find_slot.simps [simp del]

text \<open>\<^verbatim>\<open>for (j = i; j < size; j++) array[j + 1] = array[j]\<close>, with the number of
  rounds left.\<close>

fun shift_up :: "nat \<Rightarrow> nat \<Rightarrow> ordered_array \<Rightarrow> ordered_array res" where
  "shift_up 0 j arr = Inr arr"
| "shift_up (Suc n) j arr = rbind (slot arr j) (\<lambda>v. rbind (put (Suc j) v arr) (shift_up n (Suc j)))"

fun shift_down :: "nat \<Rightarrow> nat \<Rightarrow> ordered_array \<Rightarrow> ordered_array res" where
  "shift_down 0 j arr = Inr arr"
| "shift_down (Suc n) j arr = rbind (slot arr (Suc j)) (\<lambda>v. rbind (put j v arr) (shift_down n (Suc j)))"

definition insert_ordered_array :: "u32 \<Rightarrow> ordered_array \<Rightarrow> ordered_array res" where
  "insert_ordered_array item arr =
     (if oa_size arr = oa_max arr then Inr arr
      else rbind (find_slot arr item 0) (\<lambda>i.
        rbind (if of_nat i = oa_size arr then put i item arr
               else rbind (shift_up (unat (oa_size arr) - i) i arr) (put i item)) (\<lambda>arr.
        Inr (arr\<lparr>oa_size := oa_size arr + 1\<rparr>))))"

definition lookup_ordered_array :: "u32 \<Rightarrow> ordered_array \<Rightarrow> u32 res" where
  "lookup_ordered_array i arr = slot arr (unat i)"

definition remove_ordered_array :: "u32 \<Rightarrow> ordered_array \<Rightarrow> ordered_array res" where
  "remove_ordered_array i arr =
     rmap (\<lambda>arr. arr\<lparr>oa_size := oa_size arr - 1\<rparr>) (shift_down (unat (oa_size arr) - unat i) (unat i) arr)"

definition place_ordered_array :: "u32 \<Rightarrow> comparer \<Rightarrow> ordered_array" where
  "place_ordered_array mx cmp =
     \<lparr>oa_array = replicate (unat mx) 0, oa_size = 0, oa_max = mx, oa_comparer = cmp\<rparr>"

section \<open>The elements an array holds\<close>

definition oa_rep :: "ordered_array \<Rightarrow> u32 list \<Rightarrow> bool" where
  "oa_rep arr xs \<longleftrightarrow> length xs = unat (oa_size arr) \<and> length xs \<le> unat (oa_max arr) \<and> 0 \<notin> set xs \<and> oa_array arr = xs @ replicate (unat (oa_max arr) - length xs) 0"

lemma oa_rep_place: "oa_rep (place_ordered_array mx cmp) []"
  by (simp add: oa_rep_def place_ordered_array_def)

text \<open>The position of a new element: behind the elements the comparer puts before it.\<close>

definition before :: "comparer \<Rightarrow> u32 \<Rightarrow> u32 \<Rightarrow> bool" where
  "before cmp item x \<longleftrightarrow> (\<exists>c. cmp x item = Inr c \<and> sint c < 0)"

lemma find_slot_ok:
  assumes "oa_rep arr (ys @ zs)" "length (ys @ zs) < unat (oa_max arr)"
    and "\<forall>x\<in>set zs. \<exists>c. oa_comparer arr x item = Inr c"
  shows "find_slot arr item (length ys) =
    Inr (length ys + length (takeWhile (before (oa_comparer arr) item) zs))"
  using assms
proof (induction zs arbitrary: ys)
  case Nil
  then have "oa_array arr ! length ys = 0" "length ys < length (oa_array arr)"
    by (auto simp: oa_rep_def nth_append)
  then show ?case by (subst find_slot.simps) simp
next
  case (Cons z zs)
  obtain c where c: "oa_comparer arr z item = Inr c" using Cons.prems(3) by auto
  have z: "oa_array arr ! length ys = z" "z \<noteq> 0" "length ys < length (oa_array arr)"
    using Cons.prems(1) by (auto simp: oa_rep_def)
  have "find_slot arr item (length (ys @ [z])) =
      Inr (length (ys @ [z]) + length (takeWhile (before (oa_comparer arr) item) zs))"
    using Cons.prems by (intro Cons.IH) auto
  then show ?case using c z by (subst find_slot.simps) (simp add: before_def)
qed

lemma shift_up_ok:
  assumes "oa_array arr = us @ x # vs @ w # ws" "length us = j" "length vs = n"
  shows "shift_up (Suc n) j arr = Inr (arr\<lparr>oa_array := us @ x # replicate (Suc n) x @ ws\<rparr>)"
  using assms
proof (induction n arbitrary: us x vs w ws j arr)
  case 0
  then show ?case by (simp add: slot_def put_def nth_append list_update_append)
next
  case (Suc n)
  then obtain v vs' where vs: "vs = v # vs'" by (cases vs) auto
  let ?arr = "arr\<lparr>oa_array := (us @ [x]) @ x # vs' @ w # ws\<rparr>"
  have "shift_up (Suc n) (Suc j) ?arr = Inr (?arr\<lparr>oa_array := (us @ [x]) @ x # replicate (Suc n) x @ ws\<rparr>)"
    using Suc.prems vs by (intro Suc.IH [of _ _ _ vs' w]) auto
  moreover have "slot arr j = Inr x" "put (Suc j) x arr = Inr ?arr"
    using Suc.prems vs by (auto simp: slot_def put_def nth_append list_update_append)
  ultimately show ?case by simp
qed

lemma shift_down_ok:
  assumes "oa_array arr = us @ x # vs @ w # ws" "length us = j" "length vs = n"
  shows "shift_down (Suc n) j arr = Inr (arr\<lparr>oa_array := us @ vs @ w # w # ws\<rparr>)"
  using assms
proof (induction n arbitrary: us x vs j arr)
  case 0
  then show ?case by (simp add: slot_def put_def nth_append list_update_append)
next
  case (Suc n)
  then obtain v vs' where vs: "vs = v # vs'" by (cases vs) auto
  let ?arr = "arr\<lparr>oa_array := (us @ [v]) @ v # vs' @ w # ws\<rparr>"
  have "shift_down (Suc n) (Suc j) ?arr = Inr (?arr\<lparr>oa_array := (us @ [v]) @ vs' @ w # w # ws\<rparr>)"
    using Suc.prems vs by (intro Suc.IH) auto
  moreover have "slot arr (Suc j) = Inr v" "put j v arr = Inr ?arr"
    using Suc.prems vs by (auto simp: slot_def put_def nth_append list_update_append)
  ultimately show ?case using vs by simp
qed

section \<open>Insertion and removal\<close>

text \<open>The ascending copy of \<^verbatim>\<open>insert_ordered_array\<close> spreads the element at the insertion
  point over everything behind it: an insertion in front of \<open>k\<close> elements loses
  \<open>k - 1\<close> of them.\<close>

lemma insert_ordered_array_ok:
  assumes "oa_rep arr xs" "length xs < unat (oa_max arr)" "item \<noteq> 0"
    and "\<forall>x\<in>set xs. \<exists>c. oa_comparer arr x item = Inr c"
    and "i = length (takeWhile (before (oa_comparer arr) item) xs)"
  shows "\<exists>arr'. insert_ordered_array item arr = Inr arr'
    \<and> oa_rep arr' (take i xs @ item # replicate (length xs - i) (xs ! i))"
proof -
  let ?z = "unat (oa_max arr) - Suc (length xs)"
  have arr: "oa_array arr = xs @ 0 # replicate ?z 0" "length xs = unat (oa_size arr)" "0 \<notin> set xs"
    using assms(1,2) by (auto simp: oa_rep_def Suc_diff_Suc simp flip: replicate_Suc)
  have i: "i \<le> length xs" unfolding assms(5) by (rule length_takeWhile_le)
  have slot: "find_slot arr item 0 = Inr i"
    using find_slot_ok [of arr "[]" xs item] assms by simp
  have "unat (oa_size arr) < 2 ^ 32 - 1" using assms(2) u32_bound [of "oa_max arr"] arr(2) by simp
  then have sz: "unat (oa_size arr + 1) = Suc (length xs)"
    using arr(2) by (simp add: unat_word_ariths)
  have ne: "oa_size arr \<noteq> oa_max arr" using assms(2) arr(2) by auto
  define arr' where "arr' = arr\<lparr>oa_array := take i xs @ item # replicate (length xs - i) (xs ! i) @ replicate ?z 0\<rparr>"
  have "(if of_nat i = oa_size arr then put i item arr
         else rbind (shift_up (unat (oa_size arr) - i) i arr) (put i item)) = Inr arr'"
  proof (cases "i = length xs")
    case True
    then show ?thesis using arr by (simp add: put_def arr'_def list_update_append)
  next
    case False
    with i have lt: "i < length xs" by simp
    then have nat: "of_nat i \<noteq> oa_size arr" using arr(2) by (metis unat_of_nat32 u32_bound less_trans less_irrefl)
    have "oa_array arr = take i xs @ xs ! i # drop (Suc i) xs @ 0 # replicate ?z 0"
      using arr(1) id_take_nth_drop [OF lt] by simp
    then have "shift_up (Suc (length xs - Suc i)) i arr =
        Inr (arr\<lparr>oa_array := take i xs @ xs ! i # replicate (Suc (length xs - Suc i)) (xs ! i) @ replicate ?z 0\<rparr>)"
      using lt by (intro shift_up_ok) auto
    then show ?thesis using nat lt arr(2) by (simp add: Suc_diff_Suc put_def arr'_def list_update_append)
  qed
  moreover have "0 \<noteq> xs ! i" if "i < length xs" using nth_mem [OF that] arr(3) by auto
  then have "oa_rep (arr'\<lparr>oa_size := oa_size arr' + 1\<rparr>)
      (take i xs @ item # replicate (length xs - i) (xs ! i))"
    using i arr(3) assms(2,3) sz
    by (auto simp: oa_rep_def le_less arr'_def dest: in_set_takeD)
  ultimately show ?thesis using slot ne by (simp add: insert_ordered_array_def)
qed

lemma insert_ordered_array_last:
  assumes "oa_rep arr xs" "length xs < unat (oa_max arr)" "item \<noteq> 0"
    and "\<forall>x\<in>set xs. before (oa_comparer arr) item x"
  shows "\<exists>arr'. insert_ordered_array item arr = Inr arr' \<and> oa_rep arr' (xs @ [item])"
proof -
  have "length xs = length (takeWhile (before (oa_comparer arr) item) xs)"
    using assms(4) by (metis takeWhile_eq_all_conv)
  moreover have "\<forall>x\<in>set xs. \<exists>c. oa_comparer arr x item = Inr c" using assms(4) by (auto simp: before_def)
  ultimately show ?thesis using insert_ordered_array_ok [OF assms(1-3), of "length xs"] by simp
qed

text \<open>Removal from an array that is not full closes the gap; on a full one it reads
  one slot past the end.\<close>

lemma remove_ordered_array_ok:
  assumes "oa_rep arr xs" "unat i < length xs" "length xs < unat (oa_max arr)"
  shows "\<exists>arr'. remove_ordered_array i arr = Inr arr'
    \<and> oa_rep arr' (take (unat i) xs @ drop (Suc (unat i)) xs)"
proof -
  let ?i = "unat i" and ?z = "unat (oa_max arr) - Suc (length xs)"
  have arr: "oa_array arr = xs @ 0 # replicate ?z 0" "length xs = unat (oa_size arr)" "0 \<notin> set xs"
    using assms(1,3) by (auto simp: oa_rep_def Suc_diff_Suc simp flip: replicate_Suc)
  have sz: "unat (oa_size arr - 1) = length xs - 1"
    using arr(2) assms(2) by (subst unat_minus_one) auto
  have "oa_array arr = take ?i xs @ xs ! ?i # drop (Suc ?i) xs @ 0 # replicate ?z 0"
    using arr(1) id_take_nth_drop [OF assms(2)] by simp
  then have "shift_down (Suc (length xs - Suc ?i)) ?i arr =
      Inr (arr\<lparr>oa_array := take ?i xs @ drop (Suc ?i) xs @ 0 # 0 # replicate ?z 0\<rparr>)"
    using assms(2) by (intro shift_down_ok) auto
  moreover have "Suc (Suc ?z) = unat (oa_max arr) - (length xs - 1)" using assms(2,3) by simp
  ultimately show ?thesis
    using arr assms(2,3) sz
    by (auto simp: remove_ordered_array_def Suc_diff_Suc oa_rep_def simp flip: replicate_Suc
        dest: in_set_takeD in_set_dropD)
qed

end
