(* ===== verification/Vsprintf.thy ===== *)
theory Vsprintf
  imports CString
begin

text \<open>
  Formatted output: \<^verbatim>\<open>src/kernel/vsprintf.c\<close> (the user library carries the
  same file as \<^verbatim>\<open>src/libc/vsprintf.c\<close>) and \<^verbatim>\<open>printk\<close> of
  \<^verbatim>\<open>src/kernel/printk.c\<close>.  The variable arguments are the four-byte stack
  slots \<^verbatim>\<open>va_arg\<close> of \<^verbatim>\<open>src/include/libc/stdarg.h\<close> walks over; a
  \<^verbatim>\<open>char *\<close> slot is resolved by a memory argument giving the bytes from that
  address to the end of its object.  The characters a routine writes through
  \<^verbatim>\<open>str\<close> are returned as a list, and \<open>vsprintf\<close> places them in the
  buffer.  The format and the argument strings do not overlap the buffer.
\<close>

section \<open>Flags and loops\<close>

definition ZEROPAD :: u32 where "ZEROPAD = 1"
definition SIGN :: u32 where "SIGN = 2"
definition PLUS :: u32 where "PLUS = 4"
definition SPACE :: u32 where "SPACE = 8"
definition LEFT :: u32 where "LEFT = 16"
definition SPECIAL :: u32 where "SPECIAL = 32"
definition SMALL :: u32 where "SMALL = 64"

lemmas flag_defs = ZEROPAD_def SIGN_def PLUS_def SPACE_def LEFT_def SPECIAL_def SMALL_def

text \<open>A set flag in a word of flags.\<close>

definition flag :: "u32 \<Rightarrow> u32 \<Rightarrow> bool" where
  "flag ty f \<longleftrightarrow> ty AND f \<noteq> 0"

definition is_digit :: "u8 \<Rightarrow> bool" where
  "is_digit c \<longleftrightarrow> sint c \<ge> 48 \<and> sint c \<le> 57"

fun skip_atoi_loop :: "int \<Rightarrow> bytes \<Rightarrow> (int \<times> bytes) res" where
  "skip_atoi_loop i [] = Inl Out_of_bounds"
| "skip_atoi_loop i (c # cs) =
     (if is_digit c
      then rbind (c_int (i * 10)) (\<lambda>t. rbind (c_int (t + sint c)) (\<lambda>t. skip_atoi_loop (t - 48) cs))
      else Inr (i, c # cs))"

definition skip_atoi :: "bytes \<Rightarrow> (int \<times> bytes) res" where
  "skip_atoi s = skip_atoi_loop 0 s"

text \<open>The loop \<^verbatim>\<open>while (lo < hi--) *str++ = c\<close>: the bytes written and the
  final value of \<open>hi\<close>.\<close>

function post_while :: "int \<Rightarrow> int \<Rightarrow> u8 \<Rightarrow> (bytes \<times> int) res" where
  "post_while lo hi c =
     (if lo < hi then rmap (map_prod ((#) c) id) (post_while lo (hi - 1) c)
      else rmap (Pair []) (c_int (hi - 1)))"
  by pat_completeness auto
termination by (relation "measure (\<lambda>(lo, hi, c). nat (hi - lo))") auto

text \<open>The loop \<^verbatim>\<open>while (--hi > 0) *str++ = c\<close>.\<close>

function pre_while :: "int \<Rightarrow> u8 \<Rightarrow> (bytes \<times> int) res" where
  "pre_while hi c =
     (if 0 < hi - 1 then rmap (map_prod ((#) c) id) (pre_while (hi - 1) c)
      else rmap (Pair []) (c_int (hi - 1)))"
  by pat_completeness auto
termination by (relation "measure (\<lambda>(hi, c). nat hi)") auto

section \<open>number\<close>

text \<open>\<^verbatim>\<open>do_div\<close> is the unsigned \<^verbatim>\<open>divl\<close>.  The first argument of
  \<open>digit_loop\<close> is the room left in \<^verbatim>\<open>tmp\<close>.\<close>

definition do_div :: "u32 \<Rightarrow> u32 \<Rightarrow> u32 \<times> u32" where
  "do_div n base = (n div base, n mod base)"

fun digit_loop :: "nat \<Rightarrow> bytes \<Rightarrow> u32 \<Rightarrow> u32 \<Rightarrow> bytes res" where
  "digit_loop room digits num base =
     (if num = 0 then Inr []
      else case room of
        0 \<Rightarrow> Inl Out_of_bounds
      | Suc room' \<Rightarrow>
          let (num', r) = do_div num base in
          if unat r < length digits
          then rmap ((#) (digits ! unat r)) (digit_loop room' digits num' base)
          else Inl Out_of_bounds)"

declare post_while.simps [simp del] pre_while.simps [simp del] digit_loop.simps [simp del]

definition upper_digits :: bytes where
  "upper_digits = bytes_of ''0123456789ABCDEFGHIJKLMNOPQRSTUVWXYZ''"

definition lower_digits :: bytes where
  "lower_digits = bytes_of ''0123456789abcdefghijklmnopqrstuvwxyz''"

text \<open>The second half of \<^verbatim>\<open>number\<close>: precision, padding, sign, prefix and
  the digits collected in \<^verbatim>\<open>tmp\<close>.\<close>

definition number_emit :: "bytes \<Rightarrow> int \<Rightarrow> int \<Rightarrow> int \<Rightarrow> u32 \<Rightarrow> u8 \<Rightarrow> bytes \<Rightarrow> bytes res" where
  "number_emit digits base sz precision ty sign tmp =
     (let c = (if flag ty ZEROPAD then 48 else 32 :: u8);
          i = int (length tmp);
          precision = (if i > precision then i else precision) in
      rbind (c_int (sz - precision)) (\<lambda>sz.
      rbind (if \<not> flag ty (ZEROPAD + LEFT) then post_while 0 sz 32 else Inr ([], sz)) (\<lambda>(spaces, sz).
      let prefix = (if flag ty SPECIAL
                    then if base = 8 then [48] else if base = 16 then [48, digits ! 33] else []
                    else []) in
      rbind (if \<not> flag ty LEFT then post_while 0 sz c else Inr ([], sz)) (\<lambda>(fill, sz).
      rbind (post_while i precision 48) (\<lambda>(zeros, _).
      rbind (post_while 0 sz 32) (\<lambda>(trail, _).
      Inr (spaces @ (if sign \<noteq> 0 then [sign] else []) @ prefix @ fill @ zeros @ rev tmp @ trail)))))))"

definition number :: "u32 \<Rightarrow> int \<Rightarrow> int \<Rightarrow> int \<Rightarrow> u32 \<Rightarrow> bytes option res" where
  "number num base sz precision ty =
     (let digits = (if flag ty SMALL then lower_digits else upper_digits);
          ty = (if flag ty LEFT then ty AND NOT ZEROPAD else ty) in
      if base < 2 \<or> base > 36 then Inr None
      else
        rbind (if flag ty SIGN \<and> sint num < 0
               then rmap (\<lambda>m. (45, word_of_int m)) (c_int (- sint num))
               else Inr (if flag ty PLUS then 43 else if flag ty SPACE then 32 else 0, num))
          (\<lambda>(sign, num).
        rbind (if sign \<noteq> 0 then c_int (sz - 1) else Inr sz) (\<lambda>sz.
        rbind (if flag ty SPECIAL
               then if base = 16 then c_int (sz - 2) else if base = 8 then c_int (sz - 1) else Inr sz
               else Inr sz) (\<lambda>sz.
        rbind (if num = 0 then Inr [48] else digit_loop 36 digits num (word_of_int base)) (\<lambda>tmp.
        rmap Some (number_emit digits base sz precision ty sign tmp))))))"

section \<open>vsprintf\<close>

type_synonym memory = "u32 \<Rightarrow> bytes option"

fun va_arg :: "u32 list \<Rightarrow> (u32 \<times> u32 list) res" where
  "va_arg [] = Inl Out_of_bounds"
| "va_arg (a # as) = Inr (a, as)"

fun parse_flags :: "u32 \<Rightarrow> bytes \<Rightarrow> (u32 \<times> bytes) res" where
  "parse_flags fl [] = Inl Out_of_bounds"
| "parse_flags fl (c # cs) =
     (if c = 45 then parse_flags (fl OR LEFT) cs
      else if c = 43 then parse_flags (fl OR PLUS) cs
      else if c = 32 then parse_flags (fl OR SPACE) cs
      else if c = 35 then parse_flags (fl OR SPECIAL) cs
      else if c = 48 then parse_flags (fl OR ZEROPAD) cs
      else Inr (fl, c # cs))"

definition parse_width :: "u32 \<Rightarrow> bytes \<Rightarrow> u32 list \<Rightarrow> (int \<times> u32 \<times> bytes \<times> u32 list) res" where
  "parse_width fl fmt args =
     (case fmt of
        [] \<Rightarrow> Inl Out_of_bounds
      | c # cs \<Rightarrow>
          if is_digit c then rmap (\<lambda>(w, rest). (w, fl, rest, args)) (skip_atoi fmt)
          else if c = 42 then
            rbind (va_arg args) (\<lambda>(a, args).
              if sint a < 0 then rmap (\<lambda>w. (w, fl OR LEFT, fmt, args)) (c_int (- sint a))
              else Inr (sint a, fl, fmt, args))
          else Inr (-1, fl, fmt, args))"

definition parse_precision_value :: "bytes \<Rightarrow> u32 list \<Rightarrow> (int \<times> bytes \<times> u32 list) res" where
  "parse_precision_value fmt args =
     (case fmt of
        [] \<Rightarrow> Inl Out_of_bounds
      | c # cs \<Rightarrow>
          if is_digit c then rmap (\<lambda>(p, rest). (p, rest, args)) (skip_atoi fmt)
          else if c = 42 then rmap (\<lambda>(a, args). (sint a, fmt, args)) (va_arg args)
          else Inr (-1, fmt, args))"

definition parse_precision :: "bytes \<Rightarrow> u32 list \<Rightarrow> (int \<times> bytes \<times> u32 list) res" where
  "parse_precision fmt args =
     (case fmt of
        [] \<Rightarrow> Inl Out_of_bounds
      | c # cs \<Rightarrow>
          if c = 46 then rmap (map_prod (\<lambda>p. if p < 0 then 0 else p) id) (parse_precision_value cs args)
          else Inr (-1, fmt, args))"

definition parse_qualifier :: "bytes \<Rightarrow> bytes res" where
  "parse_qualifier fmt =
     (case fmt of
        [] \<Rightarrow> Inl Out_of_bounds
      | c # cs \<Rightarrow> Inr (if c = 104 \<or> c = 108 \<or> c = 76 then cs else fmt))"

definition emit_char :: "u32 \<Rightarrow> int \<Rightarrow> u8 \<Rightarrow> bytes res" where
  "emit_char fl width c =
     rbind (if \<not> flag fl LEFT then pre_while width 32 else Inr ([], width)) (\<lambda>(pad, width).
     rbind (pre_while width 32) (\<lambda>(trail, _). Inr (pad @ [c] @ trail)))"

definition emit_string :: "u32 \<Rightarrow> int \<Rightarrow> int \<Rightarrow> bytes \<Rightarrow> bytes res" where
  "emit_string fl width precision s =
     rbind (strlen s) (\<lambda>n.
     let len = sint n;
         len = (if precision < 0 then len else if len > precision then precision else len) in
     rbind (if \<not> flag fl LEFT then post_while len width 32 else Inr ([], width)) (\<lambda>(pad, width).
     rbind (post_while len width 32) (\<lambda>(trail, _). Inr (pad @ take (nat len) s @ trail))))"

definition emit_number :: "u32 \<Rightarrow> int \<Rightarrow> int \<Rightarrow> int \<Rightarrow> u32 \<Rightarrow> bytes res" where
  "emit_number num base width precision fl =
     rbind (number num base width precision fl)
       (\<lambda>r. case r of None \<Rightarrow> Inl Null_deref | Some out \<Rightarrow> Inr out)"

text \<open>The conversion \<open>switch\<close>: the bytes written, the store of \<^verbatim>\<open>%n\<close>, the
  remaining arguments and where the format continues.\<close>

definition conversion ::
    "memory \<Rightarrow> nat \<Rightarrow> u32 \<Rightarrow> int \<Rightarrow> int \<Rightarrow> u8 \<Rightarrow> bytes \<Rightarrow> u32 list \<Rightarrow>
     (bytes \<times> (u32 \<times> u32) list \<times> u32 list \<times> bytes) res" where
  "conversion m pos fl width precision c cs args =
     (if c = 99 then
        rbind (va_arg args) (\<lambda>(a, args). rmap (\<lambda>out. (out, [], args, cs)) (emit_char fl width (ucast a)))
      else if c = 115 then
        rbind (va_arg args) (\<lambda>(a, args).
          case m a of
            None \<Rightarrow> Inl Null_deref
          | Some s \<Rightarrow> rmap (\<lambda>out. (out, [], args, cs)) (emit_string fl width precision s))
      else if c = 111 then
        rbind (va_arg args) (\<lambda>(a, args).
          rmap (\<lambda>out. (out, [], args, cs)) (emit_number a 8 width precision fl))
      else if c = 112 then
        rbind (va_arg args) (\<lambda>(a, args).
          rmap (\<lambda>out. (out, [], args, cs))
            (emit_number a 16 (if width = -1 then 8 else width) precision
               (if width = -1 then fl OR ZEROPAD else fl)))
      else if c = 120 \<or> c = 88 then
        rbind (va_arg args) (\<lambda>(a, args).
          rmap (\<lambda>out. (out, [], args, cs))
            (emit_number a 16 width precision (if c = 120 then fl OR SMALL else fl)))
      else if c = 100 \<or> c = 105 \<or> c = 117 then
        rbind (va_arg args) (\<lambda>(a, args).
          rmap (\<lambda>out. (out, [], args, cs))
            (emit_number a 10 width precision (if c = 117 then fl else fl OR SIGN)))
      else if c = 110 then
        rbind (va_arg args) (\<lambda>(a, args). Inr ([], [(a, of_nat pos)], args, cs))
      else Inr ((if c \<noteq> 37 then [37] else []) @ (if c \<noteq> 0 then [c] else []), [], args,
                if c \<noteq> 0 then cs else c # cs))"

text \<open>The body of the loop after the first \<^verbatim>\<open>%\<close>.\<close>

definition directive ::
    "memory \<Rightarrow> nat \<Rightarrow> bytes \<Rightarrow> u32 list \<Rightarrow> (bytes \<times> (u32 \<times> u32) list \<times> u32 list \<times> bytes) res" where
  "directive m pos fmt args =
     rbind (parse_flags 0 fmt) (\<lambda>(fl, fmt).
     rbind (parse_width fl fmt args) (\<lambda>(width, fl, fmt, args).
     rbind (parse_precision fmt args) (\<lambda>(precision, fmt, args).
     rbind (parse_qualifier fmt) (\<lambda>fmt.
     case fmt of
       [] \<Rightarrow> Inl Out_of_bounds
     | c # cs \<Rightarrow> conversion m pos fl width precision c cs args))))"

subsection \<open>The format loop terminates\<close>

lemma skip_atoi_loop_length: "skip_atoi_loop i s = Inr (v, r) \<Longrightarrow> length r \<le> length s"
  by (induction i s rule: skip_atoi_loop.induct)
     (fastforce simp: res_simps split: if_splits)+

lemma skip_atoi_length: "skip_atoi s = Inr (v, r) \<Longrightarrow> length r \<le> length s"
  unfolding skip_atoi_def by (rule skip_atoi_loop_length)

lemma parse_flags_length: "parse_flags fl s = Inr (v, r) \<Longrightarrow> length r \<le> length s"
  by (induction fl s rule: parse_flags.induct) (auto split: if_splits)

lemma parse_width_length: "parse_width fl s as = Inr (w, f, r, as') \<Longrightarrow> length r \<le> length s"
  unfolding parse_width_def
  by (cases s) (auto simp: res_simps split: if_split_asm dest!: skip_atoi_length)

lemma parse_precision_value_length:
  "parse_precision_value s as = Inr (p, r, as') \<Longrightarrow> length r \<le> length s"
  unfolding parse_precision_value_def
  by (cases s) (auto simp: rmap_eq_Inr split: if_split_asm dest!: skip_atoi_length)

lemma parse_precision_length: "parse_precision s as = Inr (p, r, as') \<Longrightarrow> length r \<le> length s"
  unfolding parse_precision_def
  by (cases s) (auto simp: rmap_eq_Inr split: if_split_asm dest!: parse_precision_value_length)

lemma parse_qualifier_length: "parse_qualifier s = Inr r \<Longrightarrow> length r \<le> length s"
  by (auto simp: parse_qualifier_def split: list.splits if_splits)

lemma conversion_length:
  "conversion m pos fl w p c cs as = Inr (out, st, as', r) \<Longrightarrow> length r \<le> Suc (length cs)"
  unfolding conversion_def
  by (auto simp: rbind_eq_Inr rmap_eq_Inr split: if_split_asm option.split_asm)

lemma directive_length:
  assumes "directive m pos s as = Inr (out, st, as', r)"
  shows "length r \<le> length s"
proof -
  obtain fl s1 w fl' s2 as1 p s3 as2 s4 where
    "parse_flags 0 s = Inr (fl, s1)" "parse_width fl s1 as = Inr (w, fl', s2, as1)"
    "parse_precision s2 as1 = Inr (p, s3, as2)" "parse_qualifier s3 = Inr s4"
    and last: "(case s4 of [] \<Rightarrow> Inl Out_of_bounds
      | c # cs \<Rightarrow> conversion m pos fl' w p c cs as2) = Inr (out, st, as', r)"
    using assms by (auto simp: directive_def res_simps)
  then have "length s4 \<le> length s"
    using parse_flags_length parse_width_length parse_precision_length parse_qualifier_length
    by (meson order_trans)
  moreover have "length r \<le> length s4"
    using last by (cases s4) (auto dest: conversion_length)
  ultimately show ?thesis by simp
qed

function vsprintf_loop ::
    "memory \<Rightarrow> bytes \<Rightarrow> u32 list \<Rightarrow> bytes \<Rightarrow> (u32 \<times> u32) list \<Rightarrow> (bytes \<times> (u32 \<times> u32) list) res" where
  "vsprintf_loop m [] args out st = Inl Out_of_bounds"
| "vsprintf_loop m (c # cs) args out st =
     (if c = 0 then Inr (out, st)
      else if c \<noteq> 37 then vsprintf_loop m cs args (out @ [c]) st
      else case directive m (length out) cs args of
        Inl e \<Rightarrow> Inl e
      | Inr (o1, st1, args', rest) \<Rightarrow> vsprintf_loop m rest args' (out @ o1) (st @ st1))"
  by pat_completeness auto
termination
  by (relation "measure (\<lambda>(m, fmt, args, out, st). length fmt)") (auto dest!: directive_length)

definition vsprintf ::
    "memory \<Rightarrow> bytes \<Rightarrow> bytes \<Rightarrow> u32 list \<Rightarrow> (bytes \<times> (u32 \<times> u32) list \<times> u32) res" where
  "vsprintf m buf fmt args =
     rbind (vsprintf_loop m fmt args [] []) (\<lambda>(out, st).
     if length out < length buf
     then Inr (out @ 0 # drop (Suc (length out)) buf, st, of_nat (length out))
     else Inl Out_of_bounds)"

definition sprintf ::
    "memory \<Rightarrow> bytes \<Rightarrow> bytes option \<Rightarrow> u32 list \<Rightarrow> (bytes \<times> (u32 \<times> u32) list \<times> u32) res" where
  "sprintf m buf fmt args =
     (case fmt of None \<Rightarrow> Inr (buf, [], 0) | Some f \<Rightarrow> vsprintf m buf f args)"

section \<open>Flags as bits\<close>

lemma flag_bit:
  "flag ty ZEROPAD \<longleftrightarrow> bit ty 0" "flag ty SIGN \<longleftrightarrow> bit ty 1" "flag ty PLUS \<longleftrightarrow> bit ty 2"
  "flag ty SPACE \<longleftrightarrow> bit ty 3" "flag ty LEFT \<longleftrightarrow> bit ty 4" "flag ty SPECIAL \<longleftrightarrow> bit ty 5"
  "flag ty SMALL \<longleftrightarrow> bit ty 6"
  using and_exp_eq_0_iff_not_bit [of ty 0] and_exp_eq_0_iff_not_bit [of ty 1]
    and_exp_eq_0_iff_not_bit [of ty 2] and_exp_eq_0_iff_not_bit [of ty 3]
    and_exp_eq_0_iff_not_bit [of ty 4] and_exp_eq_0_iff_not_bit [of ty 5]
    and_exp_eq_0_iff_not_bit [of ty 6]
  by (simp_all add: flag_def flag_defs)

lemma flag_pad: "flag ty (ZEROPAD + LEFT) \<longleftrightarrow> flag ty ZEROPAD \<or> flag ty LEFT"
proof -
  have "ZEROPAD + LEFT = ZEROPAD OR LEFT" by (simp add: flag_defs)
  then show ?thesis by (simp add: flag_def bit.conj_disj_distrib or_eq_0_iff)
qed

lemma flag_clear_zeropad:
  "flag (ty AND NOT ZEROPAD) ZEROPAD \<longleftrightarrow> False" "flag (ty AND NOT ZEROPAD) SIGN \<longleftrightarrow> flag ty SIGN"
  "flag (ty AND NOT ZEROPAD) PLUS \<longleftrightarrow> flag ty PLUS" "flag (ty AND NOT ZEROPAD) SPACE \<longleftrightarrow> flag ty SPACE"
  "flag (ty AND NOT ZEROPAD) LEFT \<longleftrightarrow> flag ty LEFT"
  "flag (ty AND NOT ZEROPAD) SPECIAL \<longleftrightarrow> flag ty SPECIAL"
  unfolding flag_bit by (simp_all add: bit_simps ZEROPAD_def bit_1_iff)

section \<open>The loops in closed form\<close>

lemma post_while_eq:
  "post_while lo hi c = rmap (Pair (replicate (nat (hi - lo)) c)) (c_int (min lo hi - 1))"
proof (induction lo hi c rule: post_while.induct)
  case (1 lo hi c)
  show ?case
  proof (cases "lo < hi")
    case True
    then have "nat (hi - lo) = Suc (nat (hi - 1 - lo))" "min lo (hi - 1) = min lo hi" by auto
    then show ?thesis using 1 True
      by (subst post_while.simps) (cases "c_int (min lo hi - 1)"; simp)
  next
    case False
    then show ?thesis by (subst post_while.simps) simp
  qed
qed

lemma pre_while_eq:
  "pre_while hi c = rmap (Pair (replicate (nat (hi - 1)) c)) (c_int (min (hi - 1) 0))"
proof (induction hi c rule: pre_while.induct)
  case (1 hi c)
  show ?case
  proof (cases "0 < hi - 1")
    case True
    then have "nat (hi - 1) = Suc (nat (hi - 1 - 1))" "min (hi - 1 - 1) 0 = min (hi - 1) 0" by auto
    then show ?thesis using 1 True
      by (subst pre_while.simps) (cases "c_int (min (hi - 1) 0)"; simp)
  next
    case False
    then show ?thesis by (subst pre_while.simps) simp
  qed
qed

text \<open>The digits of a number to a base, least significant first.\<close>

function base_digits :: "nat \<Rightarrow> nat \<Rightarrow> nat list" where
  "base_digits b n = (if n = 0 \<or> b < 2 then [] else n mod b # base_digits b (n div b))"
  by pat_completeness auto
termination by (relation "measure snd") auto

declare base_digits.simps [simp del]

lemma base_digits_0 [simp]: "base_digits b 0 = []"
  by (simp add: base_digits.simps)

lemma base_digits_less: "d \<in> set (base_digits b n) \<Longrightarrow> d < b"
proof (induction b n rule: base_digits.induct)
  case (1 b n)
  then show ?case
    by (cases "n = 0 \<or> b < 2") (auto simp: base_digits.simps [of b n])
qed

lemma base_digits_value: "2 \<le> b \<Longrightarrow> foldr (\<lambda>d v. d + b * v) (base_digits b n) 0 = n"
proof (induction b n rule: base_digits.induct)
  case (1 b n)
  then show ?case
    by (cases "n = 0") (simp_all add: base_digits.simps [of b n])
qed

lemma base_digits_length: "n < b ^ k \<Longrightarrow> length (base_digits b n) \<le> k"
proof (induction k arbitrary: n)
  case (Suc k)
  have "n div b < b ^ k"
    using Suc.prems by (cases "b = 0") (auto simp: less_mult_imp_div_less mult.commute)
  then show ?case using Suc.IH [of "n div b"] by (simp add: base_digits.simps [of b n])
qed (simp add: base_digits.simps)

lemma digit_loop_eq:
  assumes "2 \<le> b" "b \<le> length digits" "length digits < 2 ^ 32" "unat num < b ^ room"
  shows "digit_loop room digits num (of_nat b) = Inr (map ((!) digits) (base_digits b (unat num)))"
  using assms(4)
proof (induction room arbitrary: num)
  case 0
  then show ?case by (simp add: unat_eq_zero digit_loop.simps [of 0] base_digits.simps)
next
  case (Suc room)
  have b: "unat (of_nat b :: u32) = b" using assms by (simp add: unat_of_nat32)
  have r: "unat (num mod of_nat b) < length digits"
    using assms(1,2) b less_le_trans [OF mod_less_divisor, of b "length digits" "unat num"]
    by (simp add: unat_mod_distrib)
  have "unat (num div of_nat b) < b ^ room"
    using Suc.prems b assms(1) by (simp add: unat_div_distrib less_mult_imp_div_less mult.commute)
  then show ?case
    using Suc.IH r assms(1) b
    by (simp add: digit_loop.simps [of "Suc room"] base_digits.simps [of b "unat num"] do_div_def
        unat_div_distrib unat_mod_distrib unat_eq_zero)
qed

section \<open>The layout of a number\<close>

text \<open>A reference for \<open>number\<close>: sign, prefix and digits, padded once to the
  field width on the side the flags choose.\<close>

definition magnitude :: "u32 \<Rightarrow> u32 \<Rightarrow> nat" where
  "magnitude num ty = (if flag ty SIGN \<and> sint num < 0 then nat (- sint num) else unat num)"

definition sign_char :: "u32 \<Rightarrow> u32 \<Rightarrow> u8" where
  "sign_char num ty =
     (if flag ty SIGN \<and> sint num < 0 then 45
      else if flag ty PLUS then 43 else if flag ty SPACE then 32 else 0)"

definition sign_text :: "u32 \<Rightarrow> u32 \<Rightarrow> bytes" where
  "sign_text num ty = (if sign_char num ty \<noteq> 0 then [sign_char num ty] else [])"

definition digit_set :: "u32 \<Rightarrow> bytes" where
  "digit_set ty = (if flag ty SMALL then lower_digits else upper_digits)"

definition prefix_text :: "int \<Rightarrow> u32 \<Rightarrow> bytes" where
  "prefix_text base ty =
     (if flag ty SPECIAL \<and> base = 8 then [48]
      else if flag ty SPECIAL \<and> base = 16 then [48, digit_set ty ! 33] else [])"

definition digits_text :: "int \<Rightarrow> u32 \<Rightarrow> nat \<Rightarrow> bytes" where
  "digits_text base ty n =
     (if n = 0 then [48] else map ((!) (digit_set ty)) (rev (base_digits (nat base) n)))"

definition without_pad :: "u32 \<Rightarrow> u32" where
  "without_pad ty = (if flag ty LEFT then ty AND NOT ZEROPAD else ty)"

definition number_spec :: "u32 \<Rightarrow> int \<Rightarrow> int \<Rightarrow> int \<Rightarrow> u32 \<Rightarrow> bytes" where
  "number_spec num base sz precision ty =
     (let ds = digits_text base ty (magnitude num ty);
          body = replicate (nat precision - length ds) 48 @ ds;
          head = sign_text num ty @ prefix_text base ty;
          n = nat sz - (length head + length body) in
      if flag ty LEFT then head @ body @ replicate n 32
      else if flag ty ZEROPAD then head @ replicate n 48 @ body
      else replicate n 32 @ head @ body)"

lemma length_digit_set [simp]: "length (digit_set ty) = 36"
  by (simp add: digit_set_def upper_digits_def lower_digits_def bytes_of_def)

lemma u32_less_power36: "2 \<le> b \<Longrightarrow> unat (num :: u32) < b ^ 36"
proof -
  assume "2 \<le> b"
  then have "(2 :: nat) ^ 36 \<le> b ^ 36" by (rule power_mono) simp
  then show ?thesis using u32_bound [of num] by simp
qed

lemma digit_loop_number:
  assumes "2 \<le> base" "base \<le> 36"
  shows "digit_loop 36 (digit_set ty) num (word_of_int base) =
    Inr (map ((!) (digit_set ty)) (base_digits (nat base) (unat num)))"
proof -
  obtain b where b: "base = int b" using assms(1) by (metis nonneg_int_cases zero_le_numeral order_trans)
  then have "digit_loop 36 (digit_set ty) num (of_nat b) =
      Inr (map ((!) (digit_set ty)) (base_digits b (unat num)))"
    using assms by (intro digit_loop_eq u32_less_power36) simp_all
  then show ?thesis by (simp add: b)
qed

lemma digits_text_loop:
  assumes "2 \<le> base" "base \<le> 36"
  shows "(if num = 0 then Inr [48] else digit_loop 36 (digit_set ty) num (word_of_int base)) =
    Inr (rev (digits_text base ty (unat num)))"
  using digit_loop_number [OF assms, of ty num]
  by (simp add: digits_text_def rev_map unat_eq_zero)

lemma digits_text_length: "2 \<le> base \<Longrightarrow> length (digits_text base ty (unat (num :: u32))) \<le> 36"
  using base_digits_length [OF u32_less_power36, of "nat base" num] by (simp add: digits_text_def)

lemma magnitude_word:
  assumes "\<not> (flag ty SIGN \<and> num = 0x80000000)"
  shows "unat (if flag ty SIGN \<and> sint num < 0 then - num else num) = magnitude num ty"
    and "flag ty SIGN \<and> sint num < 0 \<Longrightarrow> in_int (- sint num)"
proof -
  have neg: "nat (- sint num) = unat (- num)" if "sint num < 0"
  proof -
    have "num \<noteq> 0" using that by auto
    then show ?thesis using unat_minus32 [of num] sint32_neg [OF that] u32_less [of num] by linarith
  qed
  then show "unat (if flag ty SIGN \<and> sint num < 0 then - num else num) = magnitude num ty"
    by (simp add: magnitude_def)
  assume *: "flag ty SIGN \<and> sint num < 0"
  then have "unat num \<noteq> 0x80000000" using assms by (auto simp: word_unat_eq_iff)
  then show "in_int (- sint num)"
    using sint32_neg [OF conjunct2 [OF *]] u32_less [of num] unfolding in_int_iff by linarith
qed

lemma number_emit_eq:
  assumes "- 4 \<le> sz" "sz < 2 ^ 30" "-1 \<le> precision" "precision < 2 ^ 30" "length ds \<le> 36"
    and "flag ty LEFT \<Longrightarrow> \<not> flag ty ZEROPAD"
  shows "number_emit digits base sz precision ty sign (rev ds) =
    (let body = replicate (nat precision - length ds) 48 @ ds;
         head = (if sign \<noteq> 0 then [sign] else []) @
           (if flag ty SPECIAL then if base = 8 then [48] else if base = 16 then [48, digits ! 33] else []
            else []);
         n = nat (sz - int (length body)) in
     Inr (if flag ty LEFT then head @ body @ replicate n 32
          else if flag ty ZEROPAD then head @ replicate n 48 @ body
          else replicate n 32 @ head @ body))"
proof -
  define pr where "pr = (if int (length ds) > precision then int (length ds) else precision)"
  have pr: "int (length ds) \<le> pr" "pr \<le> 2 ^ 30" "pr - int (length ds) = int (nat precision - length ds)"
    using assms(3-5) by (auto simp: pr_def)
  have body: "int (length (replicate (nat precision - length ds) (48 :: u8) @ ds)) = pr"
    using pr by simp
  have ints: "in_int (sz - pr)" "in_int (min 0 (sz - pr) - 1)" "in_int (min 0 (min 0 (sz - pr) - 1) - 1)"
    "in_int (min 0 (min 0 (min 0 (sz - pr) - 1) - 1) - 1)" "in_int (min (int (length ds)) pr - 1)"
    using assms(1,2,5) pr(1,2) by (simp_all add: in_int_iff min_def)
  have z: "nat (min 0 (sz - pr) - 1 - 0) = 0" "nat (min 0 (min 0 (sz - pr) - 1) - 1 - 0) = 0"
    "nat (pr - int (length ds)) = nat precision - length ds"
    using pr(3) by auto
  show ?thesis
    unfolding number_emit_def Let_def length_rev pr_def [symmetric] flag_pad post_while_eq body
    using assms(6) ints z by simp
qed

lemma without_pad_flags:
  "flag (without_pad ty) SIGN = flag ty SIGN" "flag (without_pad ty) PLUS = flag ty PLUS"
  "flag (without_pad ty) SPACE = flag ty SPACE" "flag (without_pad ty) LEFT = flag ty LEFT"
  "flag (without_pad ty) SPECIAL = flag ty SPECIAL"
  "flag (without_pad ty) ZEROPAD \<longleftrightarrow> flag ty ZEROPAD \<and> \<not> flag ty LEFT"
  by (simp_all add: without_pad_def flag_clear_zeropad)

lemma number_head:
  assumes "2 \<le> base" "base \<le> 36" "-1 \<le> sz" "sz < 2 ^ 30"
    and "\<not> (flag ty SIGN \<and> num = 0x80000000)"
  shows "number num base sz precision ty =
    rmap Some (number_emit (digit_set ty) base (sz - int (length (sign_text num ty @ prefix_text base ty)))
      precision (without_pad ty) (sign_char num ty) (rev (digits_text base ty (magnitude num ty))))"
proof -
  define num' where "num' = (if flag ty SIGN \<and> sint num < 0 then - num else num)"
  have loop: "(if num' = 0 then Inr [48] else digit_loop 36 (digit_set ty) num' (word_of_int base)) =
      Inr (rev (digits_text base ty (magnitude num ty)))"
    using magnitude_word(1) [OF assms(5)] digits_text_loop [OF assms(1,2), of num' ty]
    by (simp add: num'_def)
  have sign: "(if flag ty SIGN \<and> sint num < 0
               then rmap (\<lambda>m. (45, word_of_int m)) (c_int (- sint num))
               else Inr (if flag ty PLUS then 43 else if flag ty SPACE then 32 else 0, num))
     = Inr (sign_char num ty, num')"
    using magnitude_word(2) [OF assms(5)] by (auto simp: num'_def sign_char_def)
  let ?l = "int (length (sign_text num ty))"
  have s1: "(if sign_char num ty \<noteq> 0 then c_int (sz - 1) else Inr sz) = Inr (sz - ?l)"
    using assms(3,4) by (simp add: sign_text_def in_int_iff)
  have s2: "(if flag ty SPECIAL
             then if base = 16 then c_int (sz - ?l - 2) else if base = 8 then c_int (sz - ?l - 1) else Inr (sz - ?l)
             else Inr (sz - ?l)) = Inr (sz - int (length (sign_text num ty @ prefix_text base ty)))"
    using assms(3,4) by (simp add: sign_text_def in_int_iff prefix_text_def)
  have b: "(base < 2 \<or> base > 36) = False" using assms(1,2) by auto
  show ?thesis
    unfolding number_def Let_def without_pad_def [symmetric] digit_set_def [symmetric]
    by (simp only: b if_False without_pad_flags sign rbind.simps prod.case s1 s2 loop)
qed

lemma number_eq:
  assumes "2 \<le> base" "base \<le> 36" "-1 \<le> sz" "sz < 2 ^ 30" "-1 \<le> precision" "precision < 2 ^ 30"
    and "\<not> (flag ty SIGN \<and> num = 0x80000000)"
  shows "number num base sz precision ty = Inr (Some (number_spec num base sz precision ty))"
proof -
  define ds where "ds = digits_text base ty (magnitude num ty)"
  define sz' where "sz' = sz - int (length (sign_text num ty @ prefix_text base ty))"
  have ds: "length ds \<le> 36"
    unfolding ds_def magnitude_word(1) [OF assms(7), symmetric] by (rule digits_text_length [OF assms(1)])
  have sz': "- 4 \<le> sz'" "sz' < 2 ^ 30"
    using assms(3,4) by (simp_all add: sz'_def sign_text_def prefix_text_def)
  have pad: "nat (sz' - int (length xs)) = nat sz - (length (sign_text num ty @ prefix_text base ty) + length xs)"
    for xs :: bytes
    by (simp add: sz'_def)
  have pt: "(if flag ty SPECIAL then if base = 8 then [48] else if base = 16 then [48, digit_set ty ! 33] else []
      else []) = prefix_text base ty"
    by (simp add: prefix_text_def)
  have "number_emit (digit_set ty) base sz' precision (without_pad ty) (sign_char num ty) (rev ds) =
    (let body = replicate (nat precision - length ds) 48 @ ds;
         head = sign_text num ty @ prefix_text base ty;
         n = nat (sz' - int (length body)) in
     Inr (if flag ty LEFT then head @ body @ replicate n 32
        else if flag ty ZEROPAD \<and> \<not> flag ty LEFT then head @ replicate n 48 @ body
        else replicate n 32 @ head @ body))"
    using number_emit_eq [of sz' precision ds "without_pad ty" "digit_set ty" base "sign_char num ty"]
      sz' assms(5,6) ds
    unfolding without_pad_flags pt sign_text_def [symmetric] by simp
  then have "number_emit (digit_set ty) base sz' precision (without_pad ty) (sign_char num ty) (rev ds) =
      Inr (number_spec num base sz precision ty)"
    unfolding number_spec_def ds_def [symmetric] Let_def pad by simp
  then show ?thesis
    unfolding number_head [OF assms(1-4,7)] ds_def [symmetric] sz'_def [symmetric] by simp
qed

section \<open>Formats as sequences of pieces\<close>

datatype piece = Lit bytes | Dec u32 | Unsigned u32 | Hex u32 | Chr u32 | Str u32

fun piece_fmt :: "piece \<Rightarrow> bytes" where
  "piece_fmt (Lit s) = s"
| "piece_fmt (Dec n) = [37, 100]"
| "piece_fmt (Unsigned n) = [37, 117]"
| "piece_fmt (Hex n) = [37, 120]"
| "piece_fmt (Chr n) = [37, 99]"
| "piece_fmt (Str a) = [37, 115]"

fun piece_args :: "piece \<Rightarrow> u32 list" where
  "piece_args (Lit s) = []"
| "piece_args (Dec n) = [n]"
| "piece_args (Unsigned n) = [n]"
| "piece_args (Hex n) = [n]"
| "piece_args (Chr n) = [n]"
| "piece_args (Str a) = [a]"

fun piece_text :: "memory \<Rightarrow> piece \<Rightarrow> bytes" where
  "piece_text m (Lit s) = s"
| "piece_text m (Dec n) = number_spec n 10 (-1) (-1) SIGN"
| "piece_text m (Unsigned n) = number_spec n 10 (-1) (-1) 0"
| "piece_text m (Hex n) = number_spec n 16 (-1) (-1) SMALL"
| "piece_text m (Chr n) = [ucast n]"
| "piece_text m (Str a) = (case m a of None \<Rightarrow> [] | Some s \<Rightarrow> cstr s)"

fun piece_ok :: "memory \<Rightarrow> piece \<Rightarrow> bool" where
  "piece_ok m (Lit s) \<longleftrightarrow> 0 \<notin> set s \<and> 37 \<notin> set s"
| "piece_ok m (Dec n) \<longleftrightarrow> n \<noteq> 0x80000000"
| "piece_ok m (Str a) \<longleftrightarrow> (case m a of None \<Rightarrow> False | Some s \<Rightarrow> terminated s \<and> length (cstr s) < 2 ^ 31)"
| "piece_ok m _ \<longleftrightarrow> True"

lemma parse_plain:
  assumes "c \<notin> {45, 43, 32, 35, 48, 42, 46, 104, 108, 76}" "\<not> is_digit c"
  shows "directive m pos (c # cs) args = conversion m pos 0 (-1) (-1) c cs args"
  using assms by (simp add: directive_def parse_width_def parse_precision_def parse_qualifier_def)

lemma flag_0 [simp]: "\<not> flag 0 f"
  by (simp add: flag_def)

lemma flag_SIGN [simp]: "flag SIGN SIGN" "\<not> flag SMALL SIGN"
  by (simp_all add: flag_def flag_defs)

lemma emit_number_plain:
  assumes "base = 10 \<or> base = 16" "\<not> (flag ty SIGN \<and> n = 0x80000000)"
  shows "emit_number n base (-1) (-1) ty = Inr (number_spec n base (-1) (-1) ty)"
  using number_eq [of base "-1" "-1" ty n] assms by (auto simp: emit_number_def)

lemma emit_string_plain:
  assumes "terminated s" "length (cstr s) < 2 ^ 31"
  shows "emit_string 0 (-1) (-1) s = Inr (cstr s)"
proof -
  have "sint (of_nat (length (cstr s)) :: u32) = int (length (cstr s))"
    using assms(2) by (subst sint32) (simp add: unat_of_nat32)
  moreover have "take (length (cstr s)) s = cstr s"
    using terminated_split [OF assms(1)] by (metis append_eq_conv_conj)
  ultimately show ?thesis
    by (simp add: emit_string_def strlen_ok [OF assms(1)] post_while_eq in_int_iff)
qed

lemma directive_piece:
  assumes "piece_ok m p" "piece_fmt p = 37 # fmt" "\<forall>s. p \<noteq> Lit s"
  shows "directive m pos (fmt @ cs) (piece_args p @ args) = Inr (piece_text m p, [], args, cs)"
proof -
  have digit: "\<not> is_digit 100" "\<not> is_digit 117" "\<not> is_digit 120" "\<not> is_digit 99" "\<not> is_digit 115"
    by (simp_all add: is_digit_def)
  show ?thesis
    using assms
    by (cases p)
       (auto simp: parse_plain digit conversion_def emit_number_plain emit_string_plain emit_char_def
          pre_while_eq in_int_iff split: option.splits)
qed

lemma vsprintf_loop_lit:
  "0 \<notin> set s \<Longrightarrow> 37 \<notin> set s \<Longrightarrow>
   vsprintf_loop m (s @ cs) args out st = vsprintf_loop m cs args (out @ s) st"
  by (induction s arbitrary: out) auto

lemma vsprintf_loop_piece:
  assumes "piece_ok m p"
  shows "vsprintf_loop m (piece_fmt p @ cs) (piece_args p @ args) out st =
    vsprintf_loop m cs args (out @ piece_text m p) st"
proof (cases p)
  case (Lit s)
  then show ?thesis using assms by (simp add: vsprintf_loop_lit)
next
qed (use assms directive_piece [OF assms, of "tl (piece_fmt p)" "length out" cs args] in simp_all)

lemma vsprintf_loop_pieces:
  assumes "\<forall>p\<in>set ps. piece_ok m p"
  shows "vsprintf_loop m (concat (map piece_fmt ps) @ 0 # rest) (concat (map piece_args ps) @ more) out st =
    Inr (out @ concat (map (piece_text m) ps), st)"
  using assms by (induction ps arbitrary: out) (simp_all add: vsprintf_loop_piece)

lemma vsprintf_pieces_eq:
  assumes "\<forall>p\<in>set ps. piece_ok m p"
  shows "vsprintf m buf (concat (map piece_fmt ps) @ 0 # rest) (concat (map piece_args ps) @ more) =
    (let out = concat (map (piece_text m) ps) in
     if length out < length buf
     then Inr (out @ 0 # drop (Suc (length out)) buf, [], of_nat (length out))
     else Inl Out_of_bounds)"
  by (simp add: vsprintf_def vsprintf_loop_pieces [OF assms] Let_def)

section \<open>Decimal output read back\<close>

lemma upper_decimal:
  assumes "d < 10"
  shows "isdigit (upper_digits ! d)" "sint (upper_digits ! d) = 48 + int d" "upper_digits ! d \<noteq> 0"
proof -
  have "d \<in> {0, 1, 2, 3, 4, 5, 6, 7, 8, 9}" using assms by auto
  then show "isdigit (upper_digits ! d)" "sint (upper_digits ! d) = 48 + int d" "upper_digits ! d \<noteq> 0"
    by (auto simp: upper_digits_def bytes_of_def isdigit_range)
qed

lemma dec_val_digits:
  assumes "\<forall>d\<in>set ds. d < 10"
  shows "dec_val (map ((!) upper_digits) (rev ds)) = int (foldr (\<lambda>d v. d + 10 * v) ds 0)"
  using assms by (induction ds) (simp_all add: dec_val_def upper_decimal)

lemma digits_text_decimal:
  "\<forall>c\<in>set (digits_text 10 SIGN n). isdigit c \<and> c \<noteq> 0" "digits_text 10 SIGN n \<noteq> []"
  "dec_val (digits_text 10 SIGN n) = int n"
proof -
  have d: "\<forall>d\<in>set (base_digits 10 n). d < 10" using base_digits_less by blast
  have set: "digit_set SIGN = upper_digits" by (simp add: digit_set_def flag_def flag_defs)
  have ne: "base_digits 10 n \<noteq> []" if "n \<noteq> 0" using that by (subst base_digits.simps) simp
  show "\<forall>c\<in>set (digits_text 10 SIGN n). isdigit c \<and> c \<noteq> 0"
    using d by (auto simp: digits_text_def set upper_decimal isdigit_range)
  show "digits_text 10 SIGN n \<noteq> []" using ne by (simp add: digits_text_def)
  show "dec_val (digits_text 10 SIGN n) = int n"
    using dec_val_digits [OF d] base_digits_value [of 10 n]
    by (simp add: digits_text_def set) (simp add: dec_val_def)
qed

lemma number_spec_decimal:
  "number_spec n 10 (-1) (-1) SIGN =
     (if sint n < 0 then [45] else []) @ digits_text 10 SIGN (nat \<bar>sint n\<bar>)"
proof -
  have "unat n = nat (sint n)" if "\<not> sint n < 0"
    using that sint32 [of n] u32_less [of n] by (auto split: if_splits)
  then show ?thesis
    by (simp add: number_spec_def sign_text_def sign_char_def prefix_text_def magnitude_def flag_def flag_defs Let_def)
qed

lemma number_spec_decimal_length: "length (number_spec n 10 (-1) (-1) SIGN) \<le> 11"
proof -
  have "nat \<bar>sint n\<bar> < 10 ^ 10" using in_int_sint [of n] by (auto simp: in_int_iff abs_if)
  then have "length (base_digits 10 (nat \<bar>sint n\<bar>)) \<le> 10" by (rule base_digits_length)
  then show ?thesis by (auto simp: number_spec_decimal digits_text_def abs_if)
qed

lemma atoi_number_spec:
  assumes "n \<noteq> 0x80000000"
  shows "atoi (number_spec n 10 (-1) (-1) SIGN @ 0 # rest) = Inr (sint n)"
proof -
  let ?ds = "digits_text 10 SIGN (nat \<bar>sint n\<bar>)"
  have "unat n \<noteq> 2147483648" using assms by (simp add: word_unat_eq_iff)
  then have "sint n \<noteq> - 2147483648" using sint32_neg [of n] by linarith
  then have r: "\<bar>sint n\<bar> \<le> int_max" using in_int_sint [of n] by (auto simp: in_int_iff int_max_def abs_if)
  have ds: "\<forall>d\<in>set ?ds. isdigit d" "?ds \<noteq> []" "dec_val ?ds = \<bar>sint n\<bar>" "\<not> isdigit 0"
    using digits_text_decimal [of "nat \<bar>sint n\<bar>"] by (auto simp: isdigit_range)
  show ?thesis
    using atoi_unsigned [of "[]" ?ds 0 rest] atoi_negative [of "[]" ?ds 0 rest] ds r
    by (cases "sint n < 0") (simp_all add: number_spec_decimal int_max_def)
qed

text \<open>A width given as \<^verbatim>\<open>*\<close> takes its argument but leaves the format on the
  asterisk: the asterisk is printed and the conversion letter is copied as text.\<close>

lemma vsprintf_star_width:
  assumes "0 \<le> sint w"
  shows "vsprintf m (a # b # c # d # rest) [37, 42, 100, 0] [w, n] = Inr (37 # 42 # 100 # 0 # rest, [], 3)"
  using assms
  by (simp add: vsprintf_def directive_def parse_width_def parse_precision_def parse_qualifier_def
      is_digit_def conversion_def)

section \<open>Properties\<close>

text \<open>C21: for every base from 2 to 36 and every width and precision below 2^30,
  \<^verbatim>\<open>number\<close> never overruns its 36-byte digit buffer and writes exactly the
  reference layout: sign, prefix and the digits of the magnitude filled up with
  zeros to the precision, padded to the field width with trailing spaces
  (\<^verbatim>\<open>LEFT\<close>), zeros after the prefix (\<^verbatim>\<open>ZEROPAD\<close>) or leading spaces.  The
  one excluded argument is a signed conversion of -2^31.\<close>

theorem number_layout:
  assumes "2 \<le> base" "base \<le> 36" "-1 \<le> sz" "sz < 2 ^ 30" "-1 \<le> precision" "precision < 2 ^ 30"
    and "\<not> (flag ty SIGN \<and> num = 0x80000000)"
  shows "number num base sz precision ty = Inr (Some (number_spec num base sz precision ty))"
  using assms by (rule number_eq)

theorem number_layout_witness:
  "number 0xbeef 16 10 (-1) (SPECIAL OR SMALL OR ZEROPAD) = Inr (Some (bytes_of ''0x0000beef''))"
  using number_layout [of 16 10 "-1" "SPECIAL OR SMALL OR ZEROPAD" "0xbeef"]
  by (simp add: number_spec_def sign_text_def sign_char_def prefix_text_def digits_text_def magnitude_def
      digit_set_def flag_def flag_defs Let_def base_digits.simps lower_digits_def bytes_of_def
      replicate_numeral)

text \<open>C22: on a format made of literal text and the conversions \<^verbatim>\<open>%d\<close>,
  \<^verbatim>\<open>%u\<close>, \<^verbatim>\<open>%x\<close>, \<^verbatim>\<open>%c\<close> and \<^verbatim>\<open>%s\<close>, \<^verbatim>\<open>vsprintf\<close> consumes one
  argument per conversion, writes the concatenation of the pieces followed by a NUL
  and returns its length when it fits, leaving the rest of the buffer unchanged; when
  the text and its NUL do not fit it writes past the end of the buffer.\<close>

theorem vsprintf_pieces:
  assumes "\<forall>p\<in>set ps. piece_ok m p"
  shows "vsprintf m buf (concat (map piece_fmt ps) @ 0 # rest) (concat (map piece_args ps) @ more) =
    (let out = concat (map (piece_text m) ps) in
     if length out < length buf
     then Inr (out @ 0 # drop (Suc (length out)) buf, [], of_nat (length out))
     else Inl Out_of_bounds)"
  using assms by (rule vsprintf_pieces_eq)

theorem vsprintf_pieces_witness:
  "vsprintf (\<lambda>a. if a = 0x1000 then Some [111, 107, 0] else None) (replicate 8 7)
     (bytes_of ''%s=%d'' @ [0]) [0x1000, - 12] = Inr (bytes_of ''ok=-12'' @ [0, 7], [], 6)"
proof -
  have "number_spec (- 12) 10 (-1) (-1) SIGN = [45, 49, 50]"
    by (simp add: number_spec_def sign_text_def sign_char_def prefix_text_def digits_text_def magnitude_def
        digit_set_def flag_def flag_defs Let_def base_digits.simps upper_digits_def bytes_of_def)
  then show ?thesis
    using vsprintf_pieces [of "[Str 0x1000, Lit [61], Dec (- 12)]"
        "\<lambda>a. if a = 0x1000 then Some [111, 107, 0] else None" "replicate 8 7" "[]" "[]"]
    by (simp add: bytes_of_def Let_def replicate_numeral)
qed

text \<open>C23: the decimal text \<^verbatim>\<open>sprintf\<close> writes for \<^verbatim>\<open>%d\<close> is read back by
  \<^verbatim>\<open>atoi\<close> as the number it was printed from, for every 32-bit integer except
  -2^31 and every buffer of at least twelve bytes.\<close>

theorem sprintf_atoi_roundtrip:
  assumes "n \<noteq> 0x80000000" "12 \<le> length buf"
  shows "\<exists>buf' len. sprintf m buf (Some [37, 100, 0]) [n] = Inr (buf', [], len) \<and> atoi buf' = Inr (sint n)"
proof -
  let ?out = "number_spec n 10 (-1) (-1) SIGN"
  have "length ?out < length buf" using number_spec_decimal_length [of n] assms(2) by simp
  then show ?thesis
    using vsprintf_pieces_eq [of "[Dec n]" m buf "[]" "[]"] atoi_number_spec [OF assms(1)] assms(1)
    by (simp add: sprintf_def Let_def)
qed

theorem sprintf_atoi_roundtrip_witness:
  "\<exists>buf' len. sprintf (\<lambda>_. None) (replicate 16 0) (Some [37, 100, 0]) [- 2147483647] = Inr (buf', [], len)
     \<and> atoi buf' = Inr (- 2147483647)"
  using sprintf_atoi_roundtrip [of "- 2147483647" "replicate 16 0" "\<lambda>_. None"] by simp

end
