(* ===== verification/TimeLib.thy ===== *)
theory TimeLib
  imports Vsprintf "HOL-Library.Signed_Division"
begin

text \<open>
  Calendar time of the user library: \<^verbatim>\<open>gmtime_r\<close>, \<^verbatim>\<open>localtime_r\<close> and \<^verbatim>\<open>mktime\<close>
  of \<^verbatim>\<open>src/libc/time.c\<close>.  The fields of \<^verbatim>\<open>struct tm\<close> are integers; a signed addition
  that leaves the range of \<^verbatim>\<open>int\<close> is a failure.  \<^verbatim>\<open>_timezone\<close> and
  \<^verbatim>\<open>_dstbias\<close> are arguments (the source initialises both to 0), C division and
  remainder are \<open>sdiv\<close> and \<open>smod\<close>.
\<close>

section \<open>Data\<close>

record tm =
  tm_sec :: int
  tm_min :: int
  tm_hour :: int
  tm_mday :: int
  tm_mon :: int
  tm_year :: int
  tm_wday :: int
  tm_yday :: int
  tm_isdst :: int
  tm_gmtoff :: int
  tm_zone :: bytes

definition YEAR0 :: int where "YEAR0 = 1900"
definition EPOCH_YR :: int where "EPOCH_YR = 1970"
definition SECS_DAY :: int where "SECS_DAY = 24 * 60 * 60"
definition TIME_MAX :: int where "TIME_MAX = 2147483647"

definition LEAPYEAR :: "int \<Rightarrow> bool" where
  "LEAPYEAR year \<longleftrightarrow> year smod 4 = 0 \<and> (year smod 100 \<noteq> 0 \<or> year smod 400 = 0)"

definition YEARSIZE :: "int \<Rightarrow> nat" where
  "YEARSIZE year = (if LEAPYEAR year then 366 else 365)"

definition ytab :: "bool \<Rightarrow> nat list" where
  "ytab leap = [31, if leap then 29 else 28, 31, 30, 31, 30, 31, 31, 30, 31, 30, 31]"

lemma YEARSIZE_pos [simp]: "0 < YEARSIZE y" "YEARSIZE y \<noteq> 0"
  by (simp_all add: YEARSIZE_def)

section \<open>gmtime\<close>

function year_loop :: "nat \<Rightarrow> int \<Rightarrow> nat \<times> int" where
  "year_loop dayno year =
     (if dayno \<ge> YEARSIZE year then year_loop (dayno - YEARSIZE year) (year + 1) else (dayno, year))"
  by pat_completeness auto
termination
proof (relation "measure fst")
  fix dayno and year :: int
  assume "dayno \<ge> YEARSIZE year"
  then show "((dayno - YEARSIZE year, year + 1), dayno, year) \<in> measure fst"
    using YEARSIZE_pos(1) [of year] by (simp del: YEARSIZE_pos)
qed simp

function month_loop :: "nat list \<Rightarrow> nat \<Rightarrow> nat \<Rightarrow> (nat \<times> nat) res" where
  "month_loop tab dayno mon =
     (if mon < length tab
      then if dayno \<ge> tab ! mon then month_loop tab (dayno - tab ! mon) (Suc mon) else Inr (dayno, mon)
      else Inl Out_of_bounds)"
  by pat_completeness auto
termination by (relation "measure (\<lambda>(tab, dayno, mon). length tab - mon)") auto

declare year_loop.simps [simp del] month_loop.simps [simp del]

definition gmtime_r :: "u32 \<Rightarrow> tm res" where
  "gmtime_r time =
     (let dayclock = unat time mod 86400;
          dayno = unat time div 86400;
          (yday, year) = year_loop dayno EPOCH_YR in
      rmap (\<lambda>(mday, mon).
        \<lparr>tm_sec = int (dayclock mod 60), tm_min = int (dayclock mod 3600 div 60),
         tm_hour = int (dayclock div 3600), tm_mday = int mday + 1, tm_mon = int mon,
         tm_year = year - YEAR0, tm_wday = int ((dayno + 4) mod 7), tm_yday = int yday,
         tm_isdst = 0, tm_gmtoff = 0, tm_zone = bytes_of ''UTC'' @ [0]\<rparr>)
        (month_loop (ytab (LEAPYEAR year)) yday 0))"

definition localtime_r :: "int \<Rightarrow> u32 \<Rightarrow> tm res" where
  "localtime_r timezone timer = rbind (c_int (sint timer - timezone)) (\<lambda>t. gmtime_r (of_int t))"

section \<open>mktime\<close>

text \<open>One carry: \<^verbatim>\<open>hi += lo / n; lo %= n; if (lo < 0) { lo += n; hi--; }\<close>\<close>

definition carry :: "int \<Rightarrow> int \<Rightarrow> int \<Rightarrow> (int \<times> int) res" where
  "carry lo hi n =
     rbind (c_int (hi + lo sdiv n)) (\<lambda>hi.
     let lo = lo smod n in
     if lo < 0 then rmap (\<lambda>hi. (lo + n, hi)) (c_int (hi - 1)) else Inr (lo, hi))"

text \<open>The length of month \<open>mon\<close> of year \<open>YEAR0 + year\<close>; \<open>mon\<close> is in range in both loops.\<close>

definition month_days :: "int \<Rightarrow> int \<Rightarrow> int res" where
  "month_days year mon =
     rbind (c_int (YEAR0 + year)) (\<lambda>y.
     if 0 \<le> mon \<and> mon < 12 then Inr (int (ytab (LEAPYEAR y) ! nat mon)) else Inl Out_of_bounds)"

lemma month_days_ge: "month_days year mon = Inr n \<Longrightarrow> 28 \<le> n"
proof -
  have "\<forall>m\<in>{0..11}. 28 \<le> ytab l ! m" for l
    by (simp add: ytab_def numeral_nat atLeast0AtMost atMost_Suc)
  then show "month_days year mon = Inr n \<Longrightarrow> 28 \<le> n"
    by (force simp: month_days_def res_simps split: if_splits)
qed

function days_up :: "int \<Rightarrow> int \<Rightarrow> int \<Rightarrow> (int \<times> int \<times> int) res" where
  "days_up day year mon =
     (if day < 0
      then let (year, mon) = (if mon - 1 < 0 then (year - 1, 11) else (year, mon - 1)) in
        (case month_days year mon of
           Inl e \<Rightarrow> Inl e
         | Inr n \<Rightarrow> days_up (day + n) year mon)
      else Inr (day, year, mon))"
  by pat_completeness auto
termination
  by (relation "measure (\<lambda>(day, year, mon). nat (- day))") (auto dest!: month_days_ge split: if_splits)

function days_down :: "int \<Rightarrow> int \<Rightarrow> int \<Rightarrow> (int \<times> int \<times> int) res" where
  "days_down day year mon =
     (case month_days year mon of
        Inl e \<Rightarrow> Inl e
      | Inr n \<Rightarrow>
          if day \<ge> n
          then if mon + 1 = 12 then days_down (day - n) (year + 1) 0 else days_down (day - n) year (mon + 1)
          else Inr (day, year, mon))"
  by pat_completeness auto
termination
  by (relation "measure (\<lambda>(day, year, mon). nat (day + 1))") (auto dest!: month_days_ge)

declare days_up.simps [simp del] days_down.simps [simp del]

fun yday_loop :: "nat list \<Rightarrow> nat \<Rightarrow> int" where
  "yday_loop tab 0 = 0"
| "yday_loop tab (Suc month) = yday_loop tab month + int (tab ! month)"

definition of_flag :: "bool \<Rightarrow> int" where
  "of_flag b = (if b then 1 else 0)"

text \<open>Days from 1 January 1970 to 1 January of \<open>y\<close>, as the code computes them, and
  whether it counts an overflow.\<close>

definition epoch_days :: "int \<Rightarrow> (int \<times> bool) res" where
  "epoch_days y =
     (let year = EPOCH_YR; o1 = TIME_MAX sdiv 365 < y - year in
      rbind (c_int ((y - year) * 365)) (\<lambda>day.
      let o2 = TIME_MAX - day < (y - year) sdiv 4 + 1 in
      rbind (c_int (day + ((y - year) sdiv 4 + of_flag (y smod 4 \<noteq> 0 \<and> y smod 4 < year smod 4)))) (\<lambda>day.
      rbind (c_int (day - ((y - year) sdiv 100 + of_flag (y smod 100 \<noteq> 0 \<and> y smod 100 < year smod 100)))) (\<lambda>day.
      rbind (c_int (day + ((y - year) sdiv 400 + of_flag (y smod 400 \<noteq> 0 \<and> y smod 400 < year smod 400)))) (\<lambda>day.
      Inr (day, o1 \<or> o2))))))"

text \<open>The first half: the fields brought into range.\<close>

definition normalise :: "tm \<Rightarrow> tm res" where
  "normalise t =
     rbind (carry (tm_sec t) (tm_min t) 60) (\<lambda>(sec, mn).
     rbind (carry mn (tm_hour t) 60) (\<lambda>(mn, hour).
     rbind (carry hour 0 24) (\<lambda>(hour, day).
     rbind (carry (tm_mon t) (tm_year t) 12) (\<lambda>(mon, year).
     rbind (c_int (tm_mday t - 1)) (\<lambda>m.
     rbind (c_int (day + m)) (\<lambda>day.
     rbind (days_up day year mon) (\<lambda>(day, year, mon).
     rbind (days_down day year mon) (\<lambda>(day, year, mon).
     Inr (t\<lparr>tm_sec := sec, tm_min := mn, tm_hour := hour, tm_mday := day + 1, tm_mon := mon,
            tm_year := year\<rparr>)))))))))"

definition mktime :: "int \<Rightarrow> int \<Rightarrow> tm \<Rightarrow> (int \<times> tm) res" where
  "mktime timezone dstbias t =
     rbind (normalise t) (\<lambda>t.
     if tm_year t < EPOCH_YR - YEAR0 then Inr (-1, t)
     else
       rbind (c_int (tm_year t + YEAR0)) (\<lambda>y.
       rbind (epoch_days y) (\<lambda>(day, ov).
       let yday = yday_loop (ytab (LEAPYEAR y)) (nat (tm_mon t)) + (tm_mday t - 1) in
       rbind (c_int (day + yday)) (\<lambda>sum.
       let ov = (ov \<or> sum < 0);
           day = sum;
           t = t\<lparr>tm_yday := yday, tm_wday := (day + 4) smod 7\<rparr>;
           seconds = (tm_hour t * 60 + tm_min t) * 60 + tm_sec t;
           ov = (ov \<or> (TIME_MAX - seconds) sdiv SECS_DAY < day) in
       rbind (c_int (day * SECS_DAY)) (\<lambda>ds.
       rbind (c_int (seconds + ds)) (\<lambda>seconds.
       let ov = (ov \<or> (timezone > 0 \<and> TIME_MAX - timezone < seconds) \<or> (timezone < 0 \<and> seconds < - timezone)) in
       rbind (c_int (seconds + timezone)) (\<lambda>seconds.
       let dst = (if tm_isdst t \<noteq> 0 then dstbias else 0);
           ov = (ov \<or> dst > seconds) in
       rbind (c_int (seconds - dst)) (\<lambda>seconds.
       if ov then Inr (-1, t) else Inr (seconds, t)))))))))"

section \<open>The calendar\<close>

lemma sdiv_smod_nonneg:
  fixes a b :: int
  assumes "0 \<le> a" "0 < b"
  shows "a sdiv b = a div b" "a smod b = a mod b"
  using assms by (simp_all add: signed_divide_int_def signed_modulo_int_def sgn_if)

lemma smod_eq_0_iff: "0 < b \<Longrightarrow> (a :: int) smod b = 0 \<longleftrightarrow> a mod b = 0"
  by (auto simp: signed_modulo_int_def sgn_if mod_eq_0_iff_dvd)

lemma LEAPYEAR_mod [code]:
  "LEAPYEAR year \<longleftrightarrow> year mod 4 = 0 \<and> (year mod 100 \<noteq> 0 \<or> year mod 400 = 0)"
  by (simp add: LEAPYEAR_def smod_eq_0_iff)

text \<open>Days from the first of January of \<open>y\<close> over \<open>n\<close> years, and to the first of a month.\<close>

definition days_of_years :: "int \<Rightarrow> nat \<Rightarrow> nat" where
  "days_of_years y n = (\<Sum>k<n. YEARSIZE (y + int k))"

definition days_of_months :: "bool \<Rightarrow> nat \<Rightarrow> nat" where
  "days_of_months leap m = sum_list (take m (ytab leap))"

lemma length_ytab [simp]: "length (ytab l) = 12"
  by (simp add: ytab_def)

lemma sum_ytab: "sum_list (ytab (LEAPYEAR y)) = YEARSIZE y"
  by (simp add: ytab_def YEARSIZE_def)

lemma year_loop_ok:
  "year_loop d y = (d', y') \<Longrightarrow>
   \<exists>n. y' = y + int n \<and> d = days_of_years y n + d' \<and> d' < YEARSIZE y'"
proof (induction d y rule: year_loop.induct)
  case (1 d y)
  show ?case
  proof (cases "d \<ge> YEARSIZE y")
    case True
    then have "year_loop (d - YEARSIZE y) (y + 1) = (d', y')" using 1(2) by (subst (asm) year_loop.simps) simp
    from 1(1) [OF True this] obtain n where n: "y' = y + 1 + int n"
      "d - YEARSIZE y = days_of_years (y + 1) n + d'" "d' < YEARSIZE y'" by blast
    have "days_of_years y (Suc n) = YEARSIZE y + days_of_years (y + 1) n"
      unfolding days_of_years_def sum.lessThan_Suc_shift by (simp add: add.assoc)
    then show ?thesis using n True by (intro exI [of _ "Suc n"]) auto
  next
    case False
    then show ?thesis using 1(2)
      by (subst (asm) year_loop.simps) (auto simp: days_of_years_def intro: exI [of _ 0])
  qed
qed

lemma month_loop_ok:
  assumes "m < length tab" "d < sum_list (drop m tab)"
  shows "\<exists>d' m'. month_loop tab d m = Inr (d', m') \<and> m' < length tab \<and> d' < tab ! m'
    \<and> sum_list (take m tab) + d = sum_list (take m' tab) + d'"
  using assms
proof (induction tab d m rule: month_loop.induct)
  case (1 tab d m)
  show ?case
  proof (cases "d \<ge> tab ! m")
    case True
    have dr: "drop m tab = tab ! m # drop (Suc m) tab" using 1(2) by (rule Cons_nth_drop_Suc [symmetric])
    then have lt: "d - tab ! m < sum_list (drop (Suc m) tab)" using 1(3) True by simp
    then have "Suc m < length tab" by (cases "Suc m < length tab") auto
    then obtain d' m' where "month_loop tab (d - tab ! m) (Suc m) = Inr (d', m')" "m' < length tab" "d' < tab ! m'"
      "sum_list (take (Suc m) tab) + (d - tab ! m) = sum_list (take m' tab) + d'"
      using 1(1) [OF 1(2) True _ lt] by blast
    then show ?thesis using True 1(2)
      by (subst month_loop.simps) (auto simp: take_Suc_conv_app_nth)
  next
    case False
    then show ?thesis using 1(2) by (subst month_loop.simps) auto
  qed
qed

lemma yday_loop_eq: "m \<le> 12 \<Longrightarrow> yday_loop (ytab l) m = int (days_of_months l m)"
  by (induction m) (simp_all add: days_of_months_def take_Suc_conv_app_nth)

lemma gmtime_ok:
  fixes time :: u32
  shows "\<exists>n mon mday. gmtime_r time = Inr
     \<lparr>tm_sec = int (unat time mod 60), tm_min = int (unat time mod 3600 div 60),
      tm_hour = int (unat time mod 86400 div 3600), tm_mday = int mday + 1, tm_mon = int mon,
      tm_year = EPOCH_YR + int n - YEAR0, tm_wday = int ((unat time div 86400 + 4) mod 7),
      tm_yday = int (days_of_months (LEAPYEAR (EPOCH_YR + int n)) mon + mday),
      tm_isdst = 0, tm_gmtoff = 0, tm_zone = bytes_of ''UTC'' @ [0]\<rparr>
    \<and> mon < 12 \<and> mday < ytab (LEAPYEAR (EPOCH_YR + int n)) ! mon
    \<and> unat time div 86400 = days_of_years EPOCH_YR n + days_of_months (LEAPYEAR (EPOCH_YR + int n)) mon + mday"
proof -
  obtain yday y where l: "year_loop (unat time div 86400) EPOCH_YR = (yday, y)" by fastforce
  from year_loop_ok [OF l] obtain n where n: "y = EPOCH_YR + int n"
    "unat time div 86400 = days_of_years EPOCH_YR n + yday" "yday < YEARSIZE y" by blast
  have "yday < sum_list (drop 0 (ytab (LEAPYEAR y)))" using n(3) by (simp add: sum_ytab)
  from month_loop_ok [OF _ this] obtain mday mon where
    m: "month_loop (ytab (LEAPYEAR y)) yday 0 = Inr (mday, mon)" "mon < 12" "mday < ytab (LEAPYEAR y) ! mon"
    "yday = days_of_months (LEAPYEAR y) mon + mday"
    by (auto simp: days_of_months_def)
  have md: "unat time mod 86400 mod 60 = unat time mod 60" "unat time mod 86400 mod 3600 = unat time mod 3600"
    by (simp_all add: mod_mod_cancel)
  show ?thesis
    unfolding gmtime_r_def Let_def l prod.case m(1) rmap_simps md
    using n(2) m(2,3) unfolding m(4) n(1)
    by (intro exI [of _ n] exI [of _ mon] exI [of _ mday] conjI refl) (simp_all only: add.assoc)
qed

section \<open>mktime inverts gmtime\<close>

lemma carry_in_range: "0 \<le> lo \<Longrightarrow> lo < n \<Longrightarrow> in_int hi \<Longrightarrow> carry lo hi n = Inr (lo, hi)"
  by (simp add: carry_def sdiv_smod_nonneg)

lemma month_days_ok:
  "in_int (YEAR0 + year) \<Longrightarrow> mon < 12 \<Longrightarrow> month_days year (int mon) = Inr (int (ytab (LEAPYEAR (YEAR0 + year)) ! mon))"
  by (simp add: month_days_def)

lemma normalise_in_range:
  assumes "0 \<le> tm_sec t" "tm_sec t < 60" "0 \<le> tm_min t" "tm_min t < 60" "0 \<le> tm_hour t" "tm_hour t < 24"
    and "tm_mon t = int mon" "mon < 12" "tm_mday t = int mday + 1"
    and "mday < ytab (LEAPYEAR (YEAR0 + tm_year t)) ! mon" "0 \<le> tm_year t" "tm_year t < 10000"
  shows "normalise t = Inr t"
proof -
  have m: "month_days (tm_year t) (int mon) = Inr (int (ytab (LEAPYEAR (YEAR0 + tm_year t)) ! mon))"
    using assms by (intro month_days_ok) (simp_all add: in_int_iff YEAR0_def)
  have "ytab l ! mon \<le> 31" for l using assms(8)
    by (auto simp: ytab_def less_Suc_eq numeral_nat nth_Cons')
  then have "mday < 31" using assms(10) by (meson less_le_trans)
  then show ?thesis using assms m
    by (simp add: normalise_def carry_in_range in_int_iff days_up.simps [of "int mday"]
        days_down.simps [of "int mday"])
qed

text \<open>The closed forms of the leap-year counts in \<^verbatim>\<open>mktime\<close>.\<close>

lemma leap_count:
  fixes n m c :: nat
  assumes "0 < c" "c < m"
  shows "n div m + (if (n + c) mod m \<noteq> 0 \<and> (n + c) mod m < c then 1 else 0) = (n + (c - 1)) div m"
proof -
  define q r where "q = n div m" and "r = n mod m"
  have n: "n = q * m + r" "r < m" using assms by (simp_all add: q_def r_def)
  have "(n + c) mod m = (r + c) mod m" by (simp add: n(1) add.assoc)
  also have "\<dots> = (if r + c < m then r + c else r + c - m)"
    using assms n(2) by (simp add: mod_if)
  finally have md: "(n + c) mod m = (if r + c < m then r + c else r + c - m)" .
  have "n + (c - 1) = r + (c - 1) + q * m" using n(1) by simp
  then have "(n + (c - 1)) div m = q + (r + (c - 1)) div m"
    using assms div_mult_self1 [of m "r + (c - 1)" q] by (simp only:)
  also have "(r + (c - 1)) div m = (if r + (c - 1) < m then 0 else 1)"
    using assms n(2) by (auto intro!: div_nat_eqI)
  finally show ?thesis using md assms n(2) unfolding q_def [symmetric] by auto
qed

lemma leap_count_int:
  assumes "0 < c" "c < m"
  shows "int n div int m + of_flag ((int n + int c) mod int m \<noteq> 0 \<and> (int n + int c) mod int m < int c) =
    int ((n + (c - 1)) div m)"
  unfolding leap_count [OF assms, symmetric]
  by (simp add: of_flag_def flip: of_nat_add zmod_int zdiv_int)

lemma epoch_mod:
  "(EPOCH_YR + int n) mod 4 = int ((n + 2) mod 4)" "(EPOCH_YR + int n) mod 100 = int ((n + 70) mod 100)"
  "(EPOCH_YR + int n) mod 400 = int ((n + 370) mod 400)"
proof -
  have y: "EPOCH_YR + int n = int (n + 2) + 492 * 4" "EPOCH_YR + int n = int (n + 70) + 19 * 100"
    "EPOCH_YR + int n = int (n + 370) + 4 * 400" by (simp_all add: EPOCH_YR_def)
  show "(EPOCH_YR + int n) mod 4 = int ((n + 2) mod 4)"
    unfolding y(1) by (simp only: mod_mult_self1 zmod_int of_nat_numeral)
  show "(EPOCH_YR + int n) mod 100 = int ((n + 70) mod 100)"
    unfolding y(2) by (simp only: mod_mult_self1 zmod_int of_nat_numeral)
  show "(EPOCH_YR + int n) mod 400 = int ((n + 370) mod 400)"
    unfolding y(3) by (simp only: mod_mult_self1 zmod_int of_nat_numeral)
qed

lemma century_mod:
  "((n :: nat) + 370) mod 400 = 0 \<Longrightarrow> (n + 70) mod 100 = 0" "(n + 70) mod 100 = 0 \<Longrightarrow> (n + 2) mod 4 = 0"
proof -
  assume "(n + 370) mod 400 = 0"
  then obtain k where "n + 370 = 400 * k" by (auto simp: mod_eq_0_iff_dvd elim: dvdE)
  then have "n + 70 = 100 * (4 * k - 3)" by linarith
  then show "(n + 70) mod 100 = 0" by simp
next
  assume "(n + 70) mod 100 = 0"
  then obtain k where "n + 70 = 100 * k" by (auto simp: mod_eq_0_iff_dvd elim: dvdE)
  then have "n + 2 = 4 * (25 * k - 17)" by linarith
  then show "(n + 2) mod 4 = 0" by simp
qed

lemma epoch_days_closed:
  "int (days_of_years EPOCH_YR n) =
     int n * 365 + int ((n + 1) div 4) - int ((n + 69) div 100) + int ((n + 369) div 400)"
proof (induction n)
  case 0
  then show ?case by (simp add: days_of_years_def)
next
  case (Suc n)
  have d: "(Suc n + 1) div 4 = (n + 1) div 4 + (if (n + 2) mod 4 = 0 then 1 else 0)"
    "(Suc n + 69) div 100 = (n + 69) div 100 + (if (n + 70) mod 100 = 0 then 1 else 0)"
    "(Suc n + 369) div 400 = (n + 369) div 400 + (if (n + 370) mod 400 = 0 then 1 else 0)"
    using div_Suc [of "n + 1" 4] div_Suc [of "n + 69" 100] div_Suc [of "n + 369" 400] by (simp_all add: add.commute)
  have "int (YEARSIZE (EPOCH_YR + int n)) = 365 + (if (n + 2) mod 4 = 0 then 1 else 0)
      - (if (n + 70) mod 100 = 0 then 1 else 0) + (if (n + 370) mod 400 = 0 then 1 else 0)"
    unfolding YEARSIZE_def LEAPYEAR_mod epoch_mod using century_mod [of n] by auto
  then show ?case using Suc d by (simp add: days_of_years_def)
qed

lemma epoch_days_ok:
  assumes "n < 100000"
  shows "epoch_days (EPOCH_YR + int n) = Inr (int (days_of_years EPOCH_YR n), False)"
proof -
  have q: "int n div 4 + of_flag ((EPOCH_YR + int n) mod 4 \<noteq> 0 \<and> (EPOCH_YR + int n) mod 4 < 2) = int ((n + 1) div 4)"
    "int n div 100 + of_flag ((EPOCH_YR + int n) mod 100 \<noteq> 0 \<and> (EPOCH_YR + int n) mod 100 < 70) = int ((n + 69) div 100)"
    "int n div 400 + of_flag ((EPOCH_YR + int n) mod 400 \<noteq> 0 \<and> (EPOCH_YR + int n) mod 400 < 370) = int ((n + 369) div 400)"
    unfolding epoch_mod zmod_int
    using leap_count_int [of 2 4 n] leap_count_int [of 70 100 n] leap_count_int [of 370 400 n]
    by (simp_all add: add.commute)
  define A B C where "A = int ((n + 1) div 4)" and "B = int ((n + 69) div 100)" and "C = int ((n + 369) div 400)"
  have y: "EPOCH_YR + int n - EPOCH_YR = int n" "0 \<le> EPOCH_YR + int n" by (simp_all add: EPOCH_YR_def)
  have e: "EPOCH_YR smod 4 = 2" "EPOCH_YR smod 100 = 70" "EPOCH_YR smod 400 = 370"
    by (simp_all add: EPOCH_YR_def sdiv_smod_nonneg)
  have b: "0 \<le> A" "A \<le> 100000" "0 \<le> B" "B \<le> 100000" "0 \<le> C" "C \<le> 100000"
    using assms unfolding A_def B_def C_def by linarith+
  have d: "int n sdiv 4 = int n div 4" "int n sdiv 100 = int n div 100" "int n sdiv 400 = int n div 400"
    "(EPOCH_YR + int n) smod 4 = (EPOCH_YR + int n) mod 4" "(EPOCH_YR + int n) smod 100 = (EPOCH_YR + int n) mod 100"
    "(EPOCH_YR + int n) smod 400 = (EPOCH_YR + int n) mod 400"
    using y(2) by (simp_all add: sdiv_smod_nonneg)
  have "int n div 4 \<le> 100000" using assms by linarith
  then show ?thesis
    unfolding epoch_days_def Let_def y(1) e d q epoch_days_closed A_def [symmetric] B_def [symmetric] C_def [symmetric]
    using assms b by (simp add: in_int_iff TIME_MAX_def sdiv_smod_nonneg)
qed

lemma days_of_years_ge: "365 * n \<le> days_of_years y n"
proof -
  have "(\<Sum>k<n. 365) \<le> days_of_years y n" unfolding days_of_years_def
    by (intro sum_mono) (simp add: YEARSIZE_def)
  then show ?thesis by simp
qed

lemma clock_eq: "((s :: nat) div 3600 * 60 + s mod 3600 div 60) * 60 + s mod 60 = s"
proof -
  have "(a * 60 + b) * 60 + c = s" if "a * 3600 + r = s" "b * 60 + c = r" for a b c r
    using that by simp
  from this [OF div_mult_mod_eq div_mult_mod_eq] show ?thesis by (simp add: mod_mod_cancel)
qed

lemma clock_eq_int: "(int (s div 3600) * 60 + int (s mod 3600 div 60)) * 60 + int (s mod 60) = int s"
  using arg_cong [OF clock_eq, of int s] by (simp only: of_nat_add of_nat_mult of_nat_numeral)

lemma mktime_normal:
  assumes "normalise g = Inr g" "tm_year g = EPOCH_YR + int n - YEAR0" "tm_mon g = int mon" "mon \<le> 12"
    and "tm_mday g = int mday + 1" "tm_isdst g = 0" "n < 1000"
    and "(tm_hour g * 60 + tm_min g) * 60 + tm_sec g = int s" "s < 86400"
    and "d = days_of_years EPOCH_YR n + days_of_months (LEAPYEAR (EPOCH_YR + int n)) mon + mday"
    and "d * 86400 + s \<le> 2147483647"
  shows "mktime 0 0 g = Inr (int d * 86400 + int s,
    g\<lparr>tm_yday := int (days_of_months (LEAPYEAR (EPOCH_YR + int n)) mon + mday), tm_wday := (int d + 4) smod 7\<rparr>)"
proof -
  have d: "int d \<le> 24855" "int s < 86400" "int d * 86400 + int s \<le> 2147483647" using assms(9,11) by linarith+
  have "(2147483647 - int s) sdiv 86400 \<ge> int d"
    using d zdiv_mono1 [of "int d * 86400" "2147483647 - int s" 86400] by (simp add: sdiv_smod_nonneg)
  moreover have "yday_loop (ytab (LEAPYEAR (EPOCH_YR + int n))) mon =
      int (days_of_months (LEAPYEAR (EPOCH_YR + int n)) mon)"
    using assms(4) by (rule yday_loop_eq)
  moreover have "in_int (EPOCH_YR + int n)" "\<not> EPOCH_YR + int n - YEAR0 < EPOCH_YR - YEAR0"
    using assms(7) by (simp_all add: in_int_iff EPOCH_YR_def)
  moreover have "int (days_of_years EPOCH_YR n) +
      (int (days_of_months (LEAPYEAR (EPOCH_YR + int n)) mon) + int mday) = int d" using assms(10) by simp
  ultimately show ?thesis
    using assms(1-6,8) d epoch_days_ok [of n] assms(7)
    by (simp add: mktime_def in_int_iff TIME_MAX_def SECS_DAY_def Let_def)
qed

lemma mktime_gmtime_eq:
  assumes "unat time < 2 ^ 31"
  shows "\<exists>g. gmtime_r time = Inr g \<and> mktime 0 0 g = Inr (int (unat time), g)"
proof -
  define d s where "d = unat time div 86400" and "s = unat time mod 86400"
  have t: "unat time = d * 86400 + s" "s < 86400" by (simp_all add: d_def s_def)
  obtain n mon mday where g: "gmtime_r time = Inr
     \<lparr>tm_sec = int (unat time mod 60), tm_min = int (unat time mod 3600 div 60),
      tm_hour = int (unat time mod 86400 div 3600), tm_mday = int mday + 1, tm_mon = int mon,
      tm_year = EPOCH_YR + int n - YEAR0, tm_wday = int ((unat time div 86400 + 4) mod 7),
      tm_yday = int (days_of_months (LEAPYEAR (EPOCH_YR + int n)) mon + mday),
      tm_isdst = 0, tm_gmtoff = 0, tm_zone = bytes_of ''UTC'' @ [0]\<rparr>" (is "_ = Inr ?g")
    "mon < 12" "mday < ytab (LEAPYEAR (EPOCH_YR + int n)) ! mon"
    "d = days_of_years EPOCH_YR n + days_of_months (LEAPYEAR (EPOCH_YR + int n)) mon + mday"
    using gmtime_ok [of time] unfolding d_def by blast
  have ds: "d * 86400 + s \<le> 2147483647" using assms unfolding t(1) by simp
  then have "365 * n \<le> 24855" using days_of_years_ge [of n EPOCH_YR] g(4) by linarith
  then have n: "n \<le> 68" by simp
  have norm: "normalise ?g = Inr ?g"
    using g(2,3) n by (intro normalise_in_range) (simp_all add: EPOCH_YR_def YEAR0_def)
  have clock: "(tm_hour ?g * 60 + tm_min ?g) * 60 + tm_sec ?g = int s"
  proof -
    have "unat time mod 60 = s mod 60" "unat time mod 3600 = s mod 3600" "unat time mod 86400 = s"
      by (simp_all add: s_def mod_mod_cancel)
    then show ?thesis by (simp only: tm.select_convs clock_eq_int)
  qed
  have wday: "(int d + 4) smod 7 = int ((unat time div 86400 + 4) mod 7)"
    by (simp add: sdiv_smod_nonneg zmod_int d_def)
  have "mktime 0 0 ?g = Inr (int d * 86400 + int s, ?g)"
    using mktime_normal [OF norm _ _ _ _ _ _ clock t(2) g(4) ds] g(2) n unfolding wday by simp
  then show ?thesis using g(1) t(1) by simp
qed

section \<open>Properties\<close>

text \<open>C28: for every 32-bit time \<^verbatim>\<open>gmtime_r\<close> terminates and returns a calendar date in
  range, without reading past the month table: seconds and minutes below 60, hours
  below 24, a month of that year and a day of that month, and counting the days of the
  whole years since 1970, of the whole months and the clock gives back the time.\<close>

theorem gmtime_calendar:
  "\<exists>t n mon mday hour mn sec. gmtime_r time = Inr t
     \<and> tm_sec t = int sec \<and> tm_min t = int mn \<and> tm_hour t = int hour \<and> tm_mday t = int mday + 1
     \<and> tm_mon t = int mon \<and> tm_year t = 70 + int n
     \<and> sec < 60 \<and> mn < 60 \<and> hour < 24 \<and> mon < 12 \<and> mday < ytab (LEAPYEAR (1970 + int n)) ! mon
     \<and> unat time = (days_of_years 1970 n + days_of_months (LEAPYEAR (1970 + int n)) mon + mday) * 86400
         + (hour * 60 + mn) * 60 + sec"
proof -
  define d s where "d = unat time div 86400" and "s = unat time mod 86400"
  have t: "unat time = d * 86400 + s" "s < 86400" by (simp_all add: d_def s_def)
  have m: "unat time mod 60 = s mod 60" "unat time mod 3600 = s mod 3600" "unat time mod 86400 = s"
    by (simp_all add: s_def mod_mod_cancel)
  define hour mn sec where "hour = s div 3600" and "mn = s mod 3600 div 60" and "sec = s mod 60"
  have c: "hour < 24" "mn < 60" "sec < 60"
    using t(2) by (simp_all add: hour_def mn_def sec_def less_mult_imp_div_less)
  have "(hour * 60 + mn) * 60 + sec = s" unfolding hour_def mn_def sec_def by (rule clock_eq)
  then have u: "unat time = d * 86400 + (hour * 60 + mn) * 60 + sec" using t(1) by (simp only: add.assoc)
  obtain t n mon mday where g: "gmtime_r time = Inr t" "tm_sec t = int sec" "tm_min t = int mn"
      "tm_hour t = int hour" "tm_mday t = int mday + 1" "tm_mon t = int mon"
      "tm_year t = EPOCH_YR + int n - YEAR0" "mon < 12" "mday < ytab (LEAPYEAR (EPOCH_YR + int n)) ! mon"
      "d = days_of_years EPOCH_YR n + days_of_months (LEAPYEAR (EPOCH_YR + int n)) mon + mday"
    using gmtime_ok [of time]
    unfolding m hour_def [symmetric] mn_def [symmetric] sec_def [symmetric] d_def [symmetric] by auto
  have y: "tm_year t = 70 + int n" using g(7) by (simp add: EPOCH_YR_def YEAR0_def)
  show ?thesis
    using g(1-6) y g(8-9) c u unfolding g(10) EPOCH_YR_def by blast
qed

text \<open>C29: \<^verbatim>\<open>mktime\<close> inverts \<^verbatim>\<open>gmtime_r\<close> on every time from 0 to 2^31 - 1: it returns
  the same time without reporting an overflow and leaves every field as it was,
  weekday and day of the year included.\<close>

theorem mktime_gmtime:
  assumes "unat time < 2 ^ 31"
  shows "\<exists>g. gmtime_r time = Inr g \<and> mktime 0 0 g = Inr (int (unat time), g)"
  using assms by (rule mktime_gmtime_eq)

theorem mktime_gmtime_witness:
  "\<exists>g. gmtime_r 1709251199 = Inr g \<and> mktime 0 0 g = Inr (1709251199, g)"
  using mktime_gmtime [of 1709251199] by simp

end
