(* ===== verification/Strftime.thy ===== *)
theory Strftime
  imports TimeLib
begin

text \<open>
  \<^verbatim>\<open>strftime\<close> of \<^verbatim>\<open>src/libc/strftime.c\<close>, on top of \<^verbatim>\<open>sprintf\<close> and \<^verbatim>\<open>mktime\<close>.
  The output position is the length of the text written so far and the limit is
  \<^verbatim>\<open>maxsize\<close>.  A conversion either stands for another format or for a sequence of
  items, each a string for \<^verbatim>\<open>_add\<close> or a number for \<^verbatim>\<open>_conv\<close>.
\<close>

section \<open>Text\<close>

abbreviation ch :: "char \<Rightarrow> u8" where "ch c \<equiv> of_char c"

definition cstring :: "string \<Rightarrow> bytes" where
  "cstring s = bytes_of s @ [0]"

definition days :: "bytes list" where
  "days = map cstring [''Sunday'', ''Monday'', ''Tuesday'', ''Wednesday'', ''Thursday'', ''Friday'', ''Saturday'']"

definition days_abbrev :: "bytes list" where
  "days_abbrev = map cstring [''Sun'', ''Mon'', ''Tue'', ''Wed'', ''Thu'', ''Fri'', ''Sat'']"

definition months :: "bytes list" where
  "months = map cstring [''January'', ''February'', ''March'', ''April'', ''May'', ''June'', ''July'',
     ''August'', ''September'', ''October'', ''November'', ''December'']"

definition months_abbrev :: "bytes list" where
  "months_abbrev = map cstring [''Jan'', ''Feb'', ''Mar'', ''Apr'', ''May'', ''Jun'', ''Jul'', ''Aug'',
     ''Sep'', ''Oct'', ''Nov'', ''Dec'']"

fun add_loop :: "bytes \<Rightarrow> nat \<Rightarrow> bytes res" where
  "add_loop str 0 = Inr []"
| "add_loop [] (Suc room) = Inl Out_of_bounds"
| "add_loop (c # str) (Suc room) = (if c = 0 then Inr [] else rmap ((#) c) (add_loop str room))"

definition fmt_add :: "nat \<Rightarrow> bytes \<Rightarrow> bytes \<Rightarrow> bytes res" where
  "fmt_add lim str out = rmap (\<lambda>s. out @ s) (add_loop str (lim - length out))"

text \<open>The scratch buffer of \<^verbatim>\<open>_conv\<close> has 32 bytes.\<close>

definition fmt_conv :: "nat \<Rightarrow> u32 \<Rightarrow> bytes \<Rightarrow> bytes \<Rightarrow> bytes res" where
  "fmt_conv lim n format out =
     rbind (sprintf (\<lambda>_. None) (replicate 32 0) (Some format) [n]) (\<lambda>(buf, _, _). fmt_add lim buf out)"

section \<open>Conversions\<close>

datatype item = Add bytes | Conv int bytes

definition name_of :: "bytes list \<Rightarrow> int \<Rightarrow> bytes" where
  "name_of names i = (if i < 0 \<or> i > int (length names) - 1 then cstring ''?'' else names ! nat i)"

definition hour12 :: "tm \<Rightarrow> int" where
  "hour12 t = (if tm_hour t smod 12 \<noteq> 0 then tm_hour t smod 12 else 12)"

text \<open>The loop of the ISO 8601 conversions; the fuel bounds its rounds.\<close>

definition year_len :: "int \<Rightarrow> int" where
  "year_len year = (if LEAPYEAR year then 366 else 365)"

fun iso_week :: "nat \<Rightarrow> int \<Rightarrow> int \<Rightarrow> int \<Rightarrow> (int \<times> int) res" where
  "iso_week 0 year yday wday = Inl Diverges"
| "iso_week (Suc fuel) year yday wday =
     (let len = year_len year;
          bot = (yday + 11 - wday) smod 7 - 3;
          top = bot - len smod 7;
          top = (if top < -3 then top + 7 else top) + len in
      if yday \<ge> top then Inr (year + 1, 1)
      else if yday \<ge> bot then Inr (year, 1 + (yday - bot) sdiv 7)
      else iso_week fuel (year - 1) (yday + year_len (year - 1)) wday)"

definition d02 :: bytes where "d02 = cstring ''%02d''"
definition d2 :: bytes where "d2 = cstring ''%2d''"
definition d03 :: bytes where "d03 = cstring ''%03d''"
definition d04 :: bytes where "d04 = cstring ''%04d''"
definition d1 :: bytes where "d1 = cstring ''%d''"

text \<open>Conversions that expand to another format.\<close>

definition fmt_alias :: "u8 \<Rightarrow> bytes option" where
  "fmt_alias c =
     (if c = ch CHR ''c'' then Some (cstring ''%a %b %e %H:%M:%S %Y'')
      else if c = ch CHR ''D'' \<or> c = ch CHR ''x'' then Some (cstring ''%m/%d/%y'')
      else if c = ch CHR ''F'' then Some (cstring ''%Y-%m-%d'')
      else if c = ch CHR ''R'' then Some (cstring ''%H:%M'')
      else if c = ch CHR ''r'' then Some (cstring ''%I:%M:%S %p'')
      else if c = ch CHR ''T'' \<or> c = ch CHR ''X'' then Some (cstring ''%H:%M:%S'')
      else if c = ch CHR ''v'' then Some (cstring ''%e-%b-%Y'')
      else if c = ch CHR ''+'' then Some (cstring ''%a, %d %b %Y %H:%M:%S %z'')
      else None)"

text \<open>Conversions of a field.  \<^verbatim>\<open>%s\<close> prints what \<^verbatim>\<open>mktime\<close> returns for a copy.\<close>

definition fmt_item :: "int \<Rightarrow> int \<Rightarrow> tm \<Rightarrow> u8 \<Rightarrow> item list res option" where
  "fmt_item timezone dstbias t c =
     (if c = ch CHR ''A'' then Some (Inr [Add (name_of days (tm_wday t))])
      else if c = ch CHR ''a'' then Some (Inr [Add (name_of days_abbrev (tm_wday t))])
      else if c = ch CHR ''B'' then Some (Inr [Add (name_of months (tm_mon t))])
      else if c = ch CHR ''b'' \<or> c = ch CHR ''h'' then Some (Inr [Add (name_of months_abbrev (tm_mon t))])
      else if c = ch CHR ''C'' then Some (Inr [Conv ((tm_year t + 1900) sdiv 100) d02])
      else if c = ch CHR ''d'' then Some (Inr [Conv (tm_mday t) d02])
      else if c = ch CHR ''e'' then Some (Inr [Conv (tm_mday t) d2])
      else if c = ch CHR ''H'' then Some (Inr [Conv (tm_hour t) d02])
      else if c = ch CHR ''I'' then Some (Inr [Conv (hour12 t) d02])
      else if c = ch CHR ''j'' then Some (Inr [Conv (tm_yday t + 1) d03])
      else if c = ch CHR ''k'' then Some (Inr [Conv (tm_hour t) d2])
      else if c = ch CHR ''l'' then Some (Inr [Conv (hour12 t) d2])
      else if c = ch CHR ''M'' then Some (Inr [Conv (tm_min t) d02])
      else if c = ch CHR ''m'' then Some (Inr [Conv (tm_mon t + 1) d02])
      else if c = ch CHR ''n'' then Some (Inr [Add [10, 0]])
      else if c = ch CHR ''p'' then Some (Inr [Add (if tm_hour t \<ge> 12 then cstring ''pm'' else cstring ''am'')])
      else if c = ch CHR ''S'' then Some (Inr [Conv (tm_sec t) d02])
      else if c = ch CHR ''s'' then
        Some (rbind (mktime timezone dstbias t) (\<lambda>(mkt, _).
              rbind (sprintf (\<lambda>_. None) (replicate 32 0) (Some (cstring ''%lu'')) [of_int mkt]) (\<lambda>(buf, _, _).
              Inr [Add buf])))
      else if c = ch CHR ''t'' then Some (Inr [Add [9, 0]])
      else if c = ch CHR ''U'' then Some (Inr [Conv ((tm_yday t + 7 - tm_wday t) sdiv 7) d02])
      else if c = ch CHR ''u'' then Some (Inr [Conv (if tm_wday t = 0 then 7 else tm_wday t) d1])
      else if c = ch CHR ''V'' \<or> c = ch CHR ''G'' \<or> c = ch CHR ''g'' then
        Some (rmap (\<lambda>(year, w).
                [if c = ch CHR ''V'' then Conv w d02
                 else if c = ch CHR ''g'' then Conv (year smod 100) d02 else Conv year d04])
              (iso_week 3 (tm_year t + 1900) (tm_yday t) (tm_wday t)))
      else if c = ch CHR ''W'' then
        Some (Inr [Conv ((tm_yday t + 7 - (if tm_wday t \<noteq> 0 then tm_wday t - 1 else 6)) sdiv 7) d02])
      else if c = ch CHR ''w'' then Some (Inr [Conv (tm_wday t) d1])
      else if c = ch CHR ''y'' then Some (Inr [Conv ((tm_year t + 1900) smod 100) d02])
      else if c = ch CHR ''Y'' then Some (Inr [Conv (tm_year t + 1900) d04])
      else if c = ch CHR ''Z'' then Some (Inr [Add (cstring ''?'')])
      else if c = ch CHR ''z'' then
        Some (Inr [Add (if timezone \<ge> 0 then cstring ''+'' else cstring ''-''),
                   Conv (timezone sdiv 3600) d02, Conv (timezone smod 3600 sdiv 60) d02])
      else None)"

fun emit_items :: "nat \<Rightarrow> item list \<Rightarrow> bytes \<Rightarrow> bytes res" where
  "emit_items lim [] out = Inr out"
| "emit_items lim (Add str # its) out = rbind (fmt_add lim str out) (emit_items lim its)"
| "emit_items lim (Conv n format # its) out = rbind (fmt_conv lim (of_int n) format out) (emit_items lim its)"

section \<open>The format loop\<close>

text \<open>The first argument bounds the nesting of formats.  After \<^verbatim>\<open>%\<close> the source tests the
  percent sign itself for \<^verbatim>\<open>E\<close> and \<^verbatim>\<open>O\<close>, so no modifier is ever skipped.\<close>

fun fmt :: "nat \<Rightarrow> int \<Rightarrow> int \<Rightarrow> tm \<Rightarrow> nat \<Rightarrow> bytes \<Rightarrow> bytes \<Rightarrow> bytes res" where
  "fmt depth tz dst t lim [] out = Inl Out_of_bounds"
| "fmt depth tz dst t lim [f] out =
     (if f = 0 then Inr out else Inl Out_of_bounds)"
| "fmt depth tz dst t lim (f # c # format) out =
     (if f = 0 then Inr out
      else if f \<noteq> ch CHR ''%'' then
        if length out = lim then Inr out else fmt depth tz dst t lim (c # format) (out @ [f])
      else if c = 0 then
        if length out = lim then Inr out else fmt depth tz dst t lim (c # format) (out @ [f])
      else case fmt_item tz dst t c of
        Some its \<Rightarrow> rbind its (\<lambda>its. rbind (emit_items lim its out) (fmt depth tz dst t lim format))
      | None \<Rightarrow>
          (case fmt_alias c of
             Some al \<Rightarrow>
               (case depth of
                  0 \<Rightarrow> Inl Diverges
                | Suc depth' \<Rightarrow>
                    rbind (fmt depth' tz dst t lim al out) (fmt depth tz dst t lim format))
           | None \<Rightarrow>
               if length out = lim then Inr out else fmt depth tz dst t lim format (out @ [c])))"

definition strftime :: "int \<Rightarrow> int \<Rightarrow> bytes \<Rightarrow> u32 \<Rightarrow> bytes option \<Rightarrow> tm \<Rightarrow> (bytes \<times> u32) res" where
  "strftime tz dst buf maxsize format t =
     (let lim = unat maxsize in
      rbind (fmt 2 tz dst t lim (case format of None \<Rightarrow> cstring ''%c'' | Some f \<Rightarrow> f) []) (\<lambda>out.
      if length out > length buf then Inl Out_of_bounds
      else if length out = lim then Inr (out @ drop (length out) buf, 0)
      else if length out < length buf
      then Inr (out @ 0 # drop (Suc (length out)) buf, of_nat (length out))
      else Inl Out_of_bounds))"

section \<open>Every conversion writes text within the limit\<close>

definition small :: "int \<Rightarrow> bool" where
  "small n \<longleftrightarrow> - 1000000 \<le> n \<and> n \<le> 1000000"

definition number_formats :: "bytes list" where
  "number_formats = [d02, d2, d03, d04, d1]"

fun item_ok :: "item \<Rightarrow> bool" where
  "item_ok (Add str) \<longleftrightarrow> terminated str"
| "item_ok (Conv n f) \<longleftrightarrow> small n \<and> f \<in> set number_formats"

lemma add_loop_ok: "terminated str \<Longrightarrow> add_loop str n = Inr (take n (cstr str))"
  by (induction str n rule: add_loop.induct) auto

lemma fmt_add_ok: "terminated str \<Longrightarrow> fmt_add lim str out = Inr (out @ take (lim - length out) (cstr str))"
  by (simp add: fmt_add_def add_loop_ok)

lemma terminated_cstring [simp]: "terminated (cstring s)"
  by (simp add: cstring_def)

lemma small_word:
  assumes "small n"
  shows "sint (word_of_int n :: u32) = n" "(word_of_int n :: u32) \<noteq> 0x80000000"
proof -
  show s: "sint (word_of_int n :: u32) = n"
    using assms by (simp add: small_def sint_sbintrunc' signed_take_bit_int_eq_self)
  show "(word_of_int n :: u32) \<noteq> 0x80000000"
  proof
    assume "(word_of_int n :: u32) = 0x80000000"
    then have "n = sint (0x80000000 :: u32)" using s by simp
    then show False using assms by (simp add: small_def)
  qed
qed

lemma magnitude_less: "magnitude num ty < 10 ^ 10"
proof -
  have "nat (- sint num) \<le> 2147483648" using in_int_sint [of num] unfolding in_int_iff by linarith
  then show ?thesis using u32_less [of num] by (auto simp: magnitude_def)
qed

lemma number_spec_text:
  assumes "sz \<le> 4" "\<not> flag ty SPECIAL" "\<not> flag ty SMALL"
  shows "length (number_spec n 10 sz (-1) ty) \<le> 11" "0 \<notin> set (number_spec n 10 sz (-1) ty)"
proof -
  let ?ds = "digits_text 10 ty (magnitude n ty)"
  have ds: "digit_set ty = upper_digits" using assms(3) by (simp add: digit_set_def)
  have len: "length ?ds \<le> 10"
    using base_digits_length [OF magnitude_less [of n ty]] by (simp add: digits_text_def)
  have nz: "0 \<notin> set ?ds"
    using base_digits_less [of _ 10 "magnitude n ty"] upper_decimal(3)
    by (auto simp: digits_text_def ds)
  have sg: "length (sign_text n ty) \<le> 1" "0 \<notin> set (sign_text n ty)" by (simp_all add: sign_text_def)
  have pre: "prefix_text 10 ty = []" by (simp add: prefix_text_def)
  have sz: "nat sz \<le> 4" using assms(1) by simp
  show "length (number_spec n 10 sz (-1) ty) \<le> 11" "0 \<notin> set (number_spec n 10 sz (-1) ty)"
    using len nz sg sz by (auto simp: number_spec_def pre Let_def)
qed

lemma emit_number_d:
  assumes "n \<noteq> 0x80000000" "-1 \<le> sz" "sz \<le> 4"
  shows "emit_number n 10 sz (-1) ty = Inr (number_spec n 10 sz (-1) ty)"
  using number_eq [of 10 sz "-1" ty n] assms by (simp add: emit_number_def)

lemma is_digit_simps [simp]: "is_digit 50" "is_digit 51" "is_digit 52" "\<not> is_digit 100"
  by (simp_all add: is_digit_def)

lemmas conv_defs = cstring_def bytes_of_def directive_def parse_width_def parse_precision_def
  parse_qualifier_def skip_atoi_def conversion_def emit_number_d in_int_iff

lemma conv_loop:
  assumes "n \<noteq> 0x80000000"
  shows "vsprintf_loop m d02 [n] [] [] = Inr (number_spec n 10 2 (-1) (ZEROPAD OR SIGN), [])"
    "vsprintf_loop m d2 [n] [] [] = Inr (number_spec n 10 2 (-1) SIGN, [])"
    "vsprintf_loop m d03 [n] [] [] = Inr (number_spec n 10 3 (-1) (ZEROPAD OR SIGN), [])"
    "vsprintf_loop m d04 [n] [] [] = Inr (number_spec n 10 4 (-1) (ZEROPAD OR SIGN), [])"
    "vsprintf_loop m d1 [n] [] [] = Inr (number_spec n 10 (-1) (-1) SIGN, [])"
  using assms by (simp_all add: d02_def d2_def d03_def d04_def d1_def conv_defs)

lemma conv_flags:
  "\<not> flag SIGN SPECIAL" "\<not> flag SIGN SMALL" "\<not> flag (ZEROPAD OR SIGN) SPECIAL" "\<not> flag (ZEROPAD OR SIGN) SMALL"
  by (simp_all add: flag_def flag_defs)

lemma conv_text:
  assumes "f \<in> set number_formats" "n \<noteq> 0x80000000"
  shows "\<exists>txt. sprintf m (replicate 32 0) (Some f) [n] = Inr (txt @ 0 # replicate (31 - length txt) 0, [], of_nat (length txt))
    \<and> 0 \<notin> set txt"
proof -
  have "\<exists>sz ty. sz \<le> 4 \<and> \<not> flag ty SPECIAL \<and> \<not> flag ty SMALL
      \<and> vsprintf_loop m f [n] [] [] = Inr (number_spec n 10 sz (-1) ty, [])"
  proof -
    consider "f = d02" | "f = d2" | "f = d03" | "f = d04" | "f = d1"
      using assms(1) by (auto simp: number_formats_def)
    then show ?thesis
    proof cases
      case 1
      then show ?thesis using conv_loop(1) [OF assms(2)] conv_flags by (intro exI [of _ 2] exI [of _ "ZEROPAD OR SIGN"]) simp
    next
      case 2
      then show ?thesis using conv_loop(2) [OF assms(2)] conv_flags by (intro exI [of _ 2] exI [of _ SIGN]) simp
    next
      case 3
      then show ?thesis using conv_loop(3) [OF assms(2)] conv_flags by (intro exI [of _ 3] exI [of _ "ZEROPAD OR SIGN"]) simp
    next
      case 4
      then show ?thesis using conv_loop(4) [OF assms(2)] conv_flags by (intro exI [of _ 4] exI [of _ "ZEROPAD OR SIGN"]) simp
    next
      case 5
      then show ?thesis using conv_loop(5) [OF assms(2)] conv_flags by (intro exI [of _ "-1"] exI [of _ SIGN]) simp
    qed
  qed
  then obtain sz ty where "sz \<le> 4" "\<not> flag ty SPECIAL" "\<not> flag ty SMALL"
    and l: "vsprintf_loop m f [n] [] [] = Inr (number_spec n 10 sz (-1) ty, [])" by blast
  then have t: "length (number_spec n 10 sz (-1) ty) \<le> 11" "0 \<notin> set (number_spec n 10 sz (-1) ty)"
    using number_spec_text by blast+
  then show ?thesis using l
    by (intro exI [of _ "number_spec n 10 sz (-1) ty"]) (simp add: sprintf_def vsprintf_def)
qed

lemma emit_items_ok:
  assumes "\<forall>it\<in>set its. item_ok it" "length out \<le> lim" "0 \<notin> set out"
  shows "\<exists>out'. emit_items lim its out = Inr out' \<and> length out' \<le> lim \<and> 0 \<notin> set out'"
  using assms
proof (induction lim its out rule: emit_items.induct)
  case (2 lim str its out)
  let ?o = "out @ take (lim - length out) (cstr str)"
  have "fmt_add lim str out = Inr ?o" using 2(2) by (simp add: fmt_add_ok)
  moreover have "length ?o \<le> lim" "0 \<notin> set ?o"
    using 2(3,4) nul_notin_cstr [of str] by (auto dest: in_set_takeD)
  ultimately show ?case using 2(1) [of ?o] 2(2) by simp
next
  case (3 lim n f its out)
  have "f \<in> set number_formats" "(of_int n :: u32) \<noteq> 0x80000000" using 3(2) small_word by simp_all
  from conv_text [OF this, of "\<lambda>_. None"] obtain tx where
    tx: "sprintf (\<lambda>_. None) (replicate 32 0) (Some f) [of_int n] =
      Inr (tx @ 0 # replicate (31 - length tx) 0, [], of_nat (length tx))" "0 \<notin> set tx"
    by (elim exE conjE) (rule that)
  let ?o = "out @ take (lim - length out) tx"
  have "fmt_conv lim (of_int n) f out = Inr ?o"
    using tx by (simp add: fmt_conv_def fmt_add_ok)
  moreover have "length ?o \<le> lim" "0 \<notin> set ?o" using 3(3,4) tx(2) by (auto dest: in_set_takeD)
  ultimately show ?case using 3(1) [of ?o] 3(2) by simp
qed simp

section \<open>Dates in range\<close>

definition tm_ok :: "tm \<Rightarrow> bool" where
  "tm_ok t \<longleftrightarrow> 0 \<le> tm_sec t \<and> tm_sec t \<le> 60 \<and> 0 \<le> tm_min t \<and> tm_min t < 60 \<and> 0 \<le> tm_hour t \<and> tm_hour t < 24
     \<and> 1 \<le> tm_mday t \<and> tm_mday t \<le> 31 \<and> 0 \<le> tm_mon t \<and> tm_mon t \<le> 11 \<and> 0 \<le> tm_year t \<and> tm_year t \<le> 10000
     \<and> 0 \<le> tm_wday t \<and> tm_wday t \<le> 6 \<and> 0 \<le> tm_yday t \<and> tm_yday t \<le> 365"

lemma smod_range: "0 < b \<Longrightarrow> 0 \<le> (a :: int) \<Longrightarrow> 0 \<le> a smod b \<and> a smod b < b"
  by (simp add: sdiv_smod_nonneg)

lemma iso_week_ok:
  assumes "0 \<le> yday" "yday \<le> 365" "0 \<le> wday" "wday \<le> 6" "0 \<le> year" "year \<le> 20000"
  shows "\<exists>y w. iso_week 3 year yday wday = Inr (y, w) \<and> small y \<and> small w"
proof -
  define bot where "bot = (yday + 11 - wday) smod 7 - 3"
  have bot: "- 3 \<le> bot" "bot \<le> 3" using smod_range [of 7 "yday + 11 - wday"] assms by (auto simp: bot_def)
  have sd: "0 \<le> a \<Longrightarrow> a \<le> 1000 \<Longrightarrow> small (1 + a sdiv 7)" for a :: int
    by (simp add: small_def sdiv_smod_nonneg)
  show ?thesis
  proof (cases "yday < bot")
    case False
    then show ?thesis using bot sd [of "yday - bot"] assms
      unfolding numeral_3_eq_3 iso_week.simps(2) Let_def bot_def [symmetric] by (auto simp: small_def)
  next
    case True
    define len yday' where "len = year_len year" and "yday' = yday + year_len (year - 1)"
    have y': "365 \<le> yday'" "yday' \<le> 369" using True bot assms by (auto simp: yday'_def year_len_def)
    define bot' where "bot' = (yday' + 11 - wday) smod 7 - 3"
    have bot': "- 3 \<le> bot'" "bot' \<le> 3" using smod_range [of 7 "yday' + 11 - wday"] y' assms by (auto simp: bot'_def)
    have top: "\<not> yday \<ge> (if bot - len smod 7 < - 3 then bot - len smod 7 + 7 else bot - len smod 7) + len"
      using True bot by (auto simp: len_def year_len_def sdiv_smod_nonneg)
    show ?thesis using True top y' bot' sd [of "yday' - bot'"] assms
      unfolding numeral_3_eq_3 iso_week.simps(2) Let_def bot_def [symmetric] len_def [symmetric]
        yday'_def [symmetric] bot'_def [symmetric] by (auto simp: small_def)
  qed
qed

lemma name_of_ok:
  "terminated (name_of days i)" "terminated (name_of days_abbrev i)" "terminated (name_of months i)"
  "terminated (name_of months_abbrev i)"
proof -
  have "terminated (name_of (map cstring ns) i)" for ns
    by (auto simp: name_of_def)
  then show "terminated (name_of days i)" "terminated (name_of days_abbrev i)" "terminated (name_of months i)"
    "terminated (name_of months_abbrev i)"
    unfolding days_def days_abbrev_def months_def months_abbrev_def by blast+
qed

lemma small_sdiv: "small a \<Longrightarrow> 0 < b \<Longrightarrow> small (a sdiv b)"
proof -
  assume a: "small a" "0 < b"
  have "\<bar>a sdiv b\<bar> \<le> \<bar>a\<bar>"
    using a(2) zdiv_mono2 [of "\<bar>a\<bar>" 1 b]
    by (auto simp: signed_divide_int_def abs_mult sgn_if pos_imp_zdiv_nonneg_iff)
  then show ?thesis using a(1) unfolding small_def by linarith
qed

lemma small_smod: "small a \<Longrightarrow> 0 < b \<Longrightarrow> small (a smod b)"
proof -
  assume a: "small a" "0 < b"
  have "\<bar>a smod b\<bar> \<le> \<bar>a\<bar>"
    using a(2) zmod_le_nonneg_dividend [of "\<bar>a\<bar>" b]
    by (auto simp: signed_modulo_int_def abs_mult sgn_if)
  then show ?thesis using a(1) unfolding small_def by linarith
qed

lemma tm_ok_small:
  assumes "tm_ok t"
  shows "small (tm_mday t)" "small (tm_hour t)" "small (hour12 t)" "small (tm_yday t + 1)" "small (tm_min t)"
    "small (tm_mon t + 1)" "small (tm_sec t)" "small (tm_wday t)" "small (tm_year t + 1900)"
    "small (tm_yday t + 7 - tm_wday t)" "small (tm_yday t + 7 - (if tm_wday t \<noteq> 0 then tm_wday t - 1 else 6))"
  using assms by (auto simp: tm_ok_def small_def hour12_def sdiv_smod_nonneg)

lemma fmt_item_ok:
  assumes "tm_ok t" "small tz" "c \<noteq> ch CHR ''s''" "fmt_item tz dst t c = Some r"
  shows "\<exists>its. r = Inr its \<and> (\<forall>it\<in>set its. item_ok it)"
proof -
  note s = tm_ok_small [OF assms(1)]
  obtain y w where iso: "iso_week 3 (tm_year t + 1900) (tm_yday t) (tm_wday t) = Inr (y, w)" "small y" "small w"
    using iso_week_ok [of "tm_yday t" "tm_wday t" "tm_year t + 1900"] assms(1) by (auto simp: tm_ok_def)
  have f: "d02 \<in> set number_formats" "d2 \<in> set number_formats" "d03 \<in> set number_formats"
    "d04 \<in> set number_formats" "d1 \<in> set number_formats" by (simp_all add: number_formats_def)
  have w: "small 7" "small (8 + (tm_yday t - tm_wday t))" "small (1 + tm_yday t)"
    using assms(1) by (simp_all add: small_def tm_ok_def)
  show ?thesis
    using assms(3,4) unfolding fmt_item_def
    by (simp only: if_not_P not_False_eq_True)
       (auto simp: iso f s w name_of_ok small_sdiv small_smod assms(2) split: if_split_asm)
qed

section \<open>Well-formed formats\<close>

text \<open>A format is covered when it ends and, after a per cent sign, has none of \<^verbatim>\<open>%s\<close> (whose text
  is that of \<^verbatim>\<open>mktime\<close>); the number says how deep the nested formats may be.\<close>

fun fmt_wf :: "bool \<Rightarrow> bytes \<Rightarrow> bool" where
  "fmt_wf nested [] \<longleftrightarrow> False"
| "fmt_wf nested [f] \<longleftrightarrow> f = 0"
| "fmt_wf nested (f # c # format) \<longleftrightarrow>
     f = 0 \<or> (if f \<noteq> ch CHR ''%'' \<or> c = 0 then fmt_wf nested (c # format)
      else c \<noteq> ch CHR ''s'' \<and> (nested \<longrightarrow> fmt_alias c = None) \<and> fmt_wf nested format)"

lemma fmt_alias_wf: "fmt_alias c = Some al \<Longrightarrow> fmt_wf True al"
  by (auto simp: fmt_alias_def cstring_def bytes_of_def split: if_split_asm)

lemma fmt_ok:
  assumes "tm_ok t" "small tz" "fmt_wf nested format" "length out \<le> lim" "0 \<notin> set out"
    "nested \<or> 0 < depth"
  shows "\<exists>out'. fmt depth tz dst t lim format out = Inr out' \<and> length out' \<le> lim \<and> 0 \<notin> set out'"
  using assms
proof (induction depth tz dst t lim format out arbitrary: nested rule: fmt.induct)
  case (3 depth tz dst t lim f c format out)
  show ?case
  proof (cases "f = 0 \<or> f \<noteq> ch CHR ''%'' \<or> c = 0")
    case True
    then show ?thesis using 3(1,2) 3(7-) by fastforce
  next
    case False
    then have wf: "c \<noteq> ch CHR ''s''" "nested \<longrightarrow> fmt_alias c = None" "fmt_wf nested format" using 3(9) by auto
    show ?thesis
    proof (cases "fmt_item tz dst t c")
      case (Some r)
      then obtain its where its: "r = Inr its" "\<forall>it\<in>set its. item_ok it"
        using fmt_item_ok [OF 3(7,8) wf(1)] by blast
      obtain out' where "emit_items lim its out = Inr out'" "length out' \<le> lim" "0 \<notin> set out'"
        using emit_items_ok [OF its(2) 3(10,11)] by blast
      moreover from this have "\<exists>o2. fmt depth tz dst t lim format out' = Inr o2 \<and> length o2 \<le> lim \<and> 0 \<notin> set o2"
        using False wf(3) 3(7,8,12) by (intro 3(6) [OF _ _ _ Some]) simp_all
      ultimately show ?thesis using False Some its(1) by simp
    next
      case None
      show ?thesis
      proof (cases "fmt_alias c")
        case nal: None
        have "length out \<noteq> lim \<Longrightarrow>
          \<exists>o2. fmt depth tz dst t lim format (out @ [c]) = Inr o2 \<and> length o2 \<le> lim \<and> 0 \<notin> set o2"
          using False wf(3) 3(7-12) by (intro 3(3) [OF _ _ _ None nal]) simp_all
        then show ?thesis using False None nal 3(10,11) by auto
      next
        case (Some al)
        then obtain d where d: "\<not> nested" "depth = Suc d" using wf(2) 3(12) by (cases depth) auto
        have "\<exists>o2. fmt d tz dst t lim al out = Inr o2 \<and> length o2 \<le> lim \<and> 0 \<notin> set o2"
          using False 3(7-11) fmt_alias_wf [OF Some] by (intro 3(4) [OF _ _ _ None Some d(2), of True]) simp_all
        then obtain out' where out': "fmt d tz dst t lim al out = Inr out'" "length out' \<le> lim" "0 \<notin> set out'"
          by blast
        then have "\<exists>o2. fmt depth tz dst t lim format out' = Inr o2 \<and> length o2 \<le> lim \<and> 0 \<notin> set o2"
          using False wf(3) 3(7,8,12) by (intro 3(5) [OF _ _ _ None Some d(2)]) simp_all
        then show ?thesis using False None Some d(2) out'(1) by simp
      qed
    qed
  qed
qed auto

lemma fmt_wf_date: "fmt_wf False (cstring ''%F %T'')"
  by (simp add: cstring_def bytes_of_def)

text \<open>C30: On a date in range and a well-formed format without \<^verbatim>\<open>%s\<close>, \<^verbatim>\<open>strftime\<close> returns and writes
  only the first \<^verbatim>\<open>maxsize\<close> bytes of its buffer.  A result other than 0 is the length of the
  terminated string it left there, and is less than \<^verbatim>\<open>maxsize\<close>.\<close>

theorem strftime_safe:
  assumes "tm_ok t" "small tz" "fmt_wf False format" "unat maxsize \<le> length buf"
  shows "\<exists>buf' n. strftime tz dst buf maxsize (Some format) t = Inr (buf', n)
    \<and> length buf' = length buf \<and> drop (unat maxsize) buf' = drop (unat maxsize) buf
    \<and> (n \<noteq> 0 \<longrightarrow> n < maxsize \<and> terminated buf' \<and> length (cstr buf') = unat n)"
proof -
  obtain out where out: "fmt 2 tz dst t (unat maxsize) format [] = Inr out" "length out \<le> unat maxsize" "0 \<notin> set out"
    using fmt_ok [of t tz False format "[]" "unat maxsize" 2 dst] assms by auto
  show ?thesis
  proof (cases "length out = unat maxsize")
    case True
    then show ?thesis using out assms(4) by (simp add: strftime_def)
  next
    case False
    then have l: "length out < unat maxsize" using out(2) by simp
    then have "unat (of_nat (length out) :: u32) = length out"
      using u32_less [of maxsize] by (simp add: unat_of_nat)
    then show ?thesis using l out assms(4)
      by (auto simp: strftime_def word_less_nat_alt cstr_append_nul drop_Cons')
  qed
qed

theorem strftime_safe_witness:
  "\<exists>buf' n. strftime 0 0 (replicate 16 7) 12 (Some (cstring ''%F %T'')) 
    \<lparr>tm_sec = 5, tm_min = 4, tm_hour = 3, tm_mday = 2, tm_mon = 1, tm_year = 100, tm_wday = 3, tm_yday = 32,
      tm_isdst = 0, tm_gmtoff = 0, tm_zone = []\<rparr> = Inr (buf', n)
    \<and> length buf' = 16"
  using strftime_safe [of "\<lparr>tm_sec = 5, tm_min = 4, tm_hour = 3, tm_mday = 2, tm_mon = 1, tm_year = 100, tm_wday = 3,
      tm_yday = 32, tm_isdst = 0, tm_gmtoff = 0, tm_zone = []\<rparr>" 0 "cstring ''%F %T''" 12 "replicate 16 7" 0]
  by (auto simp: tm_ok_def small_def fmt_wf_date)

end
