(* ===== verification/Ports.thy ===== *)
theory Ports
  imports Prelude
begin

text \<open>
  Port input and output (\<^verbatim>\<open>src/hal/common.c\<close>).  The functions are single machine
  instructions, so what answers on the other side of a port is a parameter: a device
  with a state of any type, a function per width that says what a read returns and how
  it changes the state, and one per width for writes.
\<close>

record 'd device =
  rd8 :: "u16 \<Rightarrow> 'd \<Rightarrow> u8 \<times> 'd"
  rd16 :: "u16 \<Rightarrow> 'd \<Rightarrow> u16 \<times> 'd"
  rd32 :: "u16 \<Rightarrow> 'd \<Rightarrow> u32 \<times> 'd"
  wr8 :: "u16 \<Rightarrow> u8 \<Rightarrow> 'd \<Rightarrow> 'd"
  wr16 :: "u16 \<Rightarrow> u16 \<Rightarrow> 'd \<Rightarrow> 'd"
  wr32 :: "u16 \<Rightarrow> u32 \<Rightarrow> 'd \<Rightarrow> 'd"

definition outb :: "'d device \<Rightarrow> u16 \<Rightarrow> u8 \<Rightarrow> 'd \<Rightarrow> 'd" where
  "outb dv port v d = wr8 dv port v d"

definition inb :: "'d device \<Rightarrow> u16 \<Rightarrow> 'd \<Rightarrow> u8 \<times> 'd" where
  "inb dv port d = rd8 dv port d"

definition ins :: "'d device \<Rightarrow> u16 \<Rightarrow> 'd \<Rightarrow> u16 \<times> 'd" where
  "ins dv port d = rd16 dv port d"

definition outs :: "'d device \<Rightarrow> u16 \<Rightarrow> u16 \<Rightarrow> 'd \<Rightarrow> 'd" where
  "outs dv port v d = wr16 dv port v d"

definition outl :: "'d device \<Rightarrow> u16 \<Rightarrow> u32 \<Rightarrow> 'd \<Rightarrow> 'd" where
  "outl dv port v d = wr32 dv port v d"

text \<open>\<^verbatim>\<open>inl\<close> is declared \<^verbatim>\<open>void\<close>: the read happens and the value is dropped.\<close>

definition inl :: "'d device \<Rightarrow> u16 \<Rightarrow> 'd \<Rightarrow> 'd" where
  "inl dv port d = snd (rd32 dv port d)"

text \<open>\<^verbatim>\<open>rep insw\<close> and \<^verbatim>\<open>rep outsw\<close> move 16-bit words, the low byte first.\<close>

fun insm :: "'d device \<Rightarrow> u16 \<Rightarrow> nat \<Rightarrow> 'd \<Rightarrow> bytes \<times> 'd" where
  "insm dv port 0 d = ([], d)"
| "insm dv port (Suc n) d =
     (let (v, d) = ins dv port d; (bs, d) = insm dv port n d in (ucast v # ucast (drop_bit 8 v) # bs, d))"

definition word_of_bytes :: "u8 \<Rightarrow> u8 \<Rightarrow> u16" where
  "word_of_bytes lo hi = ucast lo OR push_bit 8 (ucast hi)"

fun outsm :: "'d device \<Rightarrow> u16 \<Rightarrow> bytes \<Rightarrow> nat \<Rightarrow> 'd \<Rightarrow> 'd res" where
  "outsm dv port bs 0 d = Inr d"
| "outsm dv port (lo # hi # bs) (Suc n) d = outsm dv port bs n (outs dv port (word_of_bytes lo hi) d)"
| "outsm dv port bs (Suc n) d = Inl Out_of_bounds"

text \<open>\<^verbatim>\<open>local_irq_enable\<close> returns the flag before the call.\<close>

definition local_irq_enable :: "bool \<Rightarrow> u32 \<times> bool" where
  "local_irq_enable intr_flag = (if intr_flag then 1 else 0, True)"

lemma word_of_bytes_split [simp]:
  "ucast (word_of_bytes lo hi) = lo" "ucast (drop_bit 8 (word_of_bytes lo hi)) = hi"
proof -
  have "bit lo n \<Longrightarrow> n < 8" "bit hi n \<Longrightarrow> n < 8" for n
    using bit_imp_le_length [of lo n] bit_imp_le_length [of hi n] by simp_all
  then show "ucast (word_of_bytes lo hi) = lo" "ucast (drop_bit 8 (word_of_bytes lo hi)) = hi"
    unfolding word_of_bytes_def by (rule_tac [!] bit_eqI) (fastforce simp: bit_simps)+
qed

text \<open>A device that stores what \<^verbatim>\<open>outsm\<close> wrote gives it back to \<^verbatim>\<open>insm\<close> as the same bytes:
  the two instructions agree on the order of the bytes of a word.\<close>

lemma outsm_fifo:
  assumes "\<And>v q. wr16 dv port v q = q @ [v]"
  shows "length bs = 2 * n \<Longrightarrow> \<exists>ws. outsm dv port bs n q = Inr (q @ ws) \<and> length ws = n
     \<and> concat (map (\<lambda>v. [ucast v, ucast (drop_bit 8 v)]) ws) = bs"
proof (induction n arbitrary: bs q)
  case (Suc n)
  then obtain lo hi r where bs: "bs = lo # hi # r" "length r = 2 * n"
    by (auto simp: length_Suc_conv numeral_2_eq_2)
  let ?w = "word_of_bytes lo hi"
  from Suc.IH [OF bs(2), of "q @ [?w]"] obtain ws where
    "outsm dv port r n (q @ [?w]) = Inr ((q @ [?w]) @ ws)" "length ws = n"
    "concat (map (\<lambda>v. [ucast v, ucast (drop_bit 8 v)]) ws) = r" by blast
  then show ?case by (intro exI [of _ "?w # ws"]) (simp add: bs outs_def assms)
qed simp

lemma insm_fifo:
  assumes "\<And>v q. rd16 dv port (v # q) = (v, q)"
  shows "insm dv port (length ws) (ws @ q) = (concat (map (\<lambda>v. [ucast v, ucast (drop_bit 8 v)]) ws), q)"
  by (induction ws) (simp_all add: ins_def assms)

end
