(* ===== verification/Cmos.thy ===== *)
theory Cmos
  imports Ports Sched TimeLib
begin

text \<open>
  The real-time clock (\<^verbatim>\<open>src/drivers/cmos.c\<close>) and the start of the timer.  The clock chip
  is a device behind two ports; \<open>clock_chip\<close> states what its data sheet promises while
  no update is in progress.
\<close>

section \<open>Definitions\<close>

definition CMOS_ADDRESS :: u16 where "CMOS_ADDRESS = 0x70"
definition CMOS_DATA :: u16 where "CMOS_DATA = 0x71"

definition CMOS_SECOND :: nat where "CMOS_SECOND = 0"
definition CMOS_MINUTE :: nat where "CMOS_MINUTE = 2"
definition CMOS_HOUR :: nat where "CMOS_HOUR = 4"
definition CMOS_DAY :: nat where "CMOS_DAY = 7"
definition CMOS_MONTH :: nat where "CMOS_MONTH = 8"
definition CMOS_YEAR :: nat where "CMOS_YEAR = 9"

definition from_bcd :: "u16 \<Rightarrow> int" where
  "from_bcd val = int (unat val) div 16 * 10 + int (unat (val AND 0xf))"

definition is_update_in_progress :: "'d device \<Rightarrow> 'd \<Rightarrow> bool \<times> 'd" where
  "is_update_in_progress dv d =
     (let (v, d) = inb dv CMOS_DATA (outb dv CMOS_ADDRESS 0x0a d) in (v AND 0x80 \<noteq> 0, d))"

fun dump_loop :: "'d device \<Rightarrow> nat \<Rightarrow> u16 \<Rightarrow> 'd \<Rightarrow> u16 list \<times> 'd" where
  "dump_loop dv 0 index d = ([], d)"
| "dump_loop dv (Suc n) index d =
     (let (v, d) = inb dv CMOS_DATA (outb dv CMOS_ADDRESS (ucast index) d);
          (vs, d) = dump_loop dv n (index + 1) d in (ucast v # vs, d))"

definition cmos_dump :: "'d device \<Rightarrow> 'd \<Rightarrow> u16 list \<times> 'd" where
  "cmos_dump dv d = dump_loop dv 128 0 d"

definition get_date :: "'d device \<Rightarrow> 'd \<Rightarrow> (u16 \<times> u16) \<times> 'd" where
  "get_date dv d =
     (let (values, d) = cmos_dump dv d in
      ((of_int (from_bcd (values ! CMOS_MONTH)), of_int (from_bcd (values ! CMOS_DAY))), d))"

definition get_time :: "'d device \<Rightarrow> 'd \<Rightarrow> (u16 \<times> u16 \<times> u16) \<times> 'd" where
  "get_time dv d =
     (let (values, d) = cmos_dump dv d in
      ((of_int (from_bcd (values ! CMOS_HOUR)), of_int (from_bcd (values ! CMOS_MINUTE)),
        of_int (from_bcd (values ! CMOS_SECOND))), d))"

function years_loop :: "u32 \<Rightarrow> int \<Rightarrow> u32" where
  "years_loop days years =
     (if years > 1969
      then let days = days + 365;
               days = (if years smod 4 = 0
                       then if years smod 100 = 0
                            then if years smod 400 = 0 then days + 1 else days
                            else days + 1
                       else days)
           in years_loop days (years - 1)
      else days)"
  by pat_completeness auto
termination by (relation "measure (\<lambda>(days, years). nat (years - 1969))") auto

declare years_loop.simps [simp del]

definition secs_of_years :: "int \<Rightarrow> u32 res" where
  "secs_of_years years = rmap (\<lambda>years. years_loop 0 years * 86400) (c_int (years + 2000))"

text \<open>The labels of the \<^verbatim>\<open>switch\<close> in source order with what each adds; control falls
  through from the label that matches to the end.\<close>

definition month_labels :: "int \<Rightarrow> (int \<times> u32) list" where
  "month_labels year =
     [(11, 30), (10, 31), (9, 30), (8, 31), (7, 31), (6, 30), (5, 31), (4, 30), (3, 31),
      (2, 28 + (if year smod 4 = 0 \<and> (year smod 100 \<noteq> 0 \<or> year smod 400 = 0) then 1 else 0)), (1, 31)]"

definition secs_of_month :: "int \<Rightarrow> int \<Rightarrow> u32 res" where
  "secs_of_month months year =
     rmap (\<lambda>year. sum_list (map snd (dropWhile (\<lambda>(l, _). l \<noteq> months) (month_labels year))) * 86400)
       (c_int (year + 2000))"

fun wait_update :: "nat \<Rightarrow> 'd device \<Rightarrow> 'd \<Rightarrow> 'd res" where
  "wait_update 0 dv d = Inl Diverges"
| "wait_update (Suc fuel) dv d =
     (let (busy, d) = is_update_in_progress dv d in if busy then wait_update fuel dv d else Inr d)"

text \<open>The comparison of two dumps looks at the six time registers only.\<close>

definition same_time :: "u16 list \<Rightarrow> u16 list \<Rightarrow> bool" where
  "same_time old new \<longleftrightarrow>
     (\<forall>r\<in>{CMOS_SECOND, CMOS_MINUTE, CMOS_HOUR, CMOS_DAY, CMOS_MONTH, CMOS_YEAR}. old ! r = new ! r)"

text \<open>\<^verbatim>\<open>memcpy(old_values, values, 128)\<close> copies 128 bytes, the first 64 values.\<close>

fun stable_dump :: "nat \<Rightarrow> 'd device \<Rightarrow> u16 list \<Rightarrow> u16 list \<Rightarrow> 'd \<Rightarrow> (u16 list \<times> 'd) res" where
  "stable_dump 0 dv old_values values d = Inl Diverges"
| "stable_dump (Suc fuel) dv old_values values d =
     (let old_values = take 64 values @ drop 64 old_values in
      rbind (wait_update fuel dv d) (\<lambda>d.
      let (values, d) = cmos_dump dv d in
      if \<not> same_time old_values values then stable_dump fuel dv old_values values d else Inr (values, d)))"

text \<open>\<open>old0\<close> and \<open>values0\<close> are what the two local arrays hold before they are written.\<close>

definition read_cmos :: "nat \<Rightarrow> 'd device \<Rightarrow> u16 list \<Rightarrow> u16 list \<Rightarrow> 'd \<Rightarrow> (u32 \<times> 'd) res" where
  "read_cmos fuel dv old0 values0 d =
     rbind (wait_update fuel dv d) (\<lambda>d.
     rbind (stable_dump fuel dv old0 values0 d) (\<lambda>(values, d).
     rbind (secs_of_years (from_bcd (values ! CMOS_YEAR) - 1)) (\<lambda>ys.
     rbind (secs_of_month (from_bcd (values ! CMOS_MONTH) - 1) (from_bcd (values ! CMOS_YEAR))) (\<lambda>ms.
     Inr (ys + ms + of_int ((from_bcd (values ! CMOS_DAY) - 1) * 86400)
            + of_int (from_bcd (values ! CMOS_HOUR) * 3600) + of_int (from_bcd (values ! CMOS_MINUTE) * 60)
            + of_int (from_bcd (values ! CMOS_SECOND)) + 0, d)))))"

record timeval =
  tv_sec :: u32
  tv_usec :: u32

definition sys_gettimeofday :: "sched \<Rightarrow> timeval" where
  "sys_gettimeofday st =
     \<lparr>tv_sec = boot_time st + timer_ticks st + of_int (timer_drift st), tv_usec = timer_subticks st * 1000\<rparr>"

text \<open>\<^verbatim>\<open>timer_init\<close>; \<open>handler\<close> is the address of \<^verbatim>\<open>timer_callback\<close> and \<open>now\<close> the result of \<^verbatim>\<open>read_cmos\<close>.\<close>

definition timer_init :: "u32 \<Rightarrow> u32 \<Rightarrow> sched \<Rightarrow> sched res" where
  "timer_init now handler st =
     (let st = st\<lparr>boot_time := now\<rparr> in
      rbind (register_interrupt_handler 0 handler (intr_st st)) (\<lambda>s.
      rmap (\<lambda>s. st\<lparr>intr_st := s\<rparr>) (timer_phase 1000 s)))"

section \<open>What the chip promises\<close>

text \<open>On the states \<open>S\<close> no update is in progress: selecting a register and reading the data
  port returns the register, and the chip stays in \<open>S\<close>.\<close>

definition clock_chip :: "'d device \<Rightarrow> (u8 \<Rightarrow> u8) \<Rightarrow> 'd set \<Rightarrow> bool" where
  "clock_chip dv rtc S \<longleftrightarrow> rtc 0x0a AND 0x80 = 0 \<and>
     (\<forall>d\<in>S. \<forall>i. fst (inb dv CMOS_DATA (outb dv CMOS_ADDRESS i d)) = rtc i
        \<and> snd (inb dv CMOS_DATA (outb dv CMOS_ADDRESS i d)) \<in> S)"

definition to_bcd :: "nat \<Rightarrow> u8" where
  "to_bcd n = of_nat (n div 10 * 16 + n mod 10)"

definition shows_date :: "(u8 \<Rightarrow> u8) \<Rightarrow> nat \<Rightarrow> nat \<Rightarrow> nat \<Rightarrow> nat \<Rightarrow> nat \<Rightarrow> nat \<Rightarrow> bool" where
  "shows_date rtc year mon day hour mn sec \<longleftrightarrow>
     rtc 9 = to_bcd year \<and> rtc 8 = to_bcd mon \<and> rtc 7 = to_bcd day
     \<and> rtc 4 = to_bcd hour \<and> rtc 2 = to_bcd mn \<and> rtc 0 = to_bcd sec"

section \<open>Reading the chip\<close>

lemma from_bcd_to_bcd:
  assumes "n < 100"
  shows "from_bcd (ucast (to_bcd n)) = int n"
proof -
  define a b where "a = n div 10" and "b = n mod 10"
  have n: "n = a * 10 + b" "a < 10" "b < 10" using assms by (simp_all add: a_def b_def)
  have u: "unat (ucast (to_bcd n) :: u16) = a * 16 + b"
    using n(2,3) unfolding to_bcd_def a_def [symmetric] b_def [symmetric]
    by (simp add: unsigned_ucast_eq unat_of_nat take_bit_nat_eq_self_iff del: of_nat_add of_nat_mult)
  have "ucast (to_bcd n) AND 0xf = (take_bit 4 (ucast (to_bcd n)) :: u16)"
    by (simp add: take_bit_eq_mask mask_eq_exp_minus_1)
  then have "unat (ucast (to_bcd n) AND 0xf :: u16) = b"
    using u n(3) by (simp add: take_bit_eq_mod unat_mod)
  then show ?thesis using u n by (simp add: from_bcd_def)
qed

lemma chip_read:
  assumes "clock_chip dv rtc S" "d \<in> S"
  obtains d' where "inb dv CMOS_DATA (outb dv CMOS_ADDRESS i d) = (rtc i, d')" "d' \<in> S"
  using that [of "snd (inb dv CMOS_DATA (outb dv CMOS_ADDRESS i d))"] assms
  by (simp add: clock_chip_def prod_eq_iff)

lemma wait_update_ok:
  assumes "clock_chip dv rtc S" "d \<in> S" "0 < fuel"
  shows "\<exists>d'\<in>S. wait_update fuel dv d = Inr d'"
proof -
  obtain d' where "inb dv CMOS_DATA (outb dv CMOS_ADDRESS 0x0a d) = (rtc 0x0a, d')" "d' \<in> S"
    using chip_read [OF assms(1,2)] by metis
  moreover have "rtc 0x0a AND 0x80 = 0" using assms(1) by (simp add: clock_chip_def)
  ultimately show ?thesis using assms(3) by (cases fuel) (simp_all add: is_update_in_progress_def)
qed

lemma dump_loop_ok:
  assumes "clock_chip dv rtc S" "d \<in> S"
  shows "\<exists>vs d'. dump_loop dv n index d = (vs, d') \<and> d' \<in> S \<and> length vs = n
    \<and> (\<forall>i<n. vs ! i = ucast (rtc (ucast (index + of_nat i))))"
  using assms(2)
proof (induction n arbitrary: index d)
  case (Suc n)
  obtain d1 where d1: "inb dv CMOS_DATA (outb dv CMOS_ADDRESS (ucast index) d) = (rtc (ucast index), d1)" "d1 \<in> S"
    using chip_read [OF assms(1) Suc.prems] by metis
  from Suc.IH [OF d1(2), of "index + 1"] obtain vs d' where
    vs: "dump_loop dv n (index + 1) d1 = (vs, d')" "d' \<in> S" "length vs = n"
      "\<forall>i<n. vs ! i = ucast (rtc (ucast (index + 1 + of_nat i)))" by blast
  have "\<forall>i<Suc n. (ucast (rtc (ucast index)) # vs) ! i = ucast (rtc (ucast (index + of_nat i)))"
    using vs(4) by (simp add: All_less_Suc2 add.assoc)
  then show ?case using d1 vs(1-3) by simp
qed simp

lemma cmos_dump_ok:
  assumes "clock_chip dv rtc S" "d \<in> S"
  shows "\<exists>vs d'. cmos_dump dv d = (vs, d') \<and> d' \<in> S \<and> length vs = 128 \<and> (\<forall>i<128. vs ! i = ucast (rtc (of_nat i)))"
proof -
  have "ucast (of_nat i :: u16) = (of_nat i :: u8)" if "i < 128" for i
    using that by (simp add: unsigned_of_nat take_bit_nat_eq_self)
  then show ?thesis using dump_loop_ok [OF assms, of 128 0] by (simp add: cmos_dump_def)
qed

lemma stable_dump_ok:
  assumes "clock_chip dv rtc S" "d \<in> S"
  shows "\<exists>vs d'. stable_dump (Suc (Suc (Suc fuel))) dv old values d = Inr (vs, d') \<and> d' \<in> S
    \<and> (\<forall>i<128. vs ! i = ucast (rtc (of_nat i)))"
proof -
  obtain d1 where d1: "wait_update (Suc (Suc fuel)) dv d = Inr d1" "d1 \<in> S"
    using wait_update_ok [OF assms] by blast
  obtain v1 d2 where d2: "cmos_dump dv d1 = (v1, d2)" "d2 \<in> S" "length v1 = 128" "\<forall>i<128. v1 ! i = ucast (rtc (of_nat i))"
    using cmos_dump_ok [OF assms(1) d1(2)] by blast
  obtain d3 where d3: "wait_update (Suc fuel) dv d2 = Inr d3" "d3 \<in> S"
    using wait_update_ok [OF assms(1) d2(2)] by blast
  obtain v2 d4 where d4: "cmos_dump dv d3 = (v2, d4)" "d4 \<in> S" "\<forall>i<128. v2 ! i = ucast (rtc (of_nat i))"
    using cmos_dump_ok [OF assms(1) d3(2)] by blast
  have "same_time (take 64 v1 @ o1) v2" for o1
    using d2(3,4) d4(3) by (simp add: same_time_def nth_append CMOS_SECOND_def CMOS_MINUTE_def CMOS_HOUR_def
        CMOS_DAY_def CMOS_MONTH_def CMOS_YEAR_def)
  then show ?thesis using d1 d2 d3 d4
    by (simp add: Let_def del: wait_update.simps)
qed

section \<open>The time of a date\<close>

lemma years_loop_ok: "years_loop acc (1969 + int n) = acc + of_nat (days_of_years 1970 n)"
proof (induction n arbitrary: acc)
  case 0
  then show ?case by (subst years_loop.simps) (simp add: days_of_years_def)
next
  case (Suc n)
  have y: "1969 + int (Suc n) = 1970 + int n" "1970 + int n - 1 = 1969 + int n" "1970 + int n > 1969" by simp_all
  show ?case
    unfolding y(1) years_loop.simps [of acc "1970 + int n"]
    using y(2,3) by (simp only: Let_def if_True Suc)
      (simp add: days_of_years_def YEARSIZE_def LEAPYEAR_def)
qed

lemma months_sum:
  assumes "m < 12"
  shows "sum_list (map snd (dropWhile (\<lambda>(l, _). l \<noteq> int m) (month_labels y))) = of_nat (days_of_months (LEAPYEAR y) m)"
proof -
  have "m \<in> set [0..<12]" using assms by simp
  also have "set [0..<12] = {0, 1, 2, 3, 4, 5, 6, 7, 8, 9, 10, 11 :: nat}" by code_simp
  finally have "m \<in> {0, 1, 2, 3, 4, 5, 6, 7, 8, 9, 10, 11}" .
  then show ?thesis
    by (elim insertE emptyE) (simp_all add: month_labels_def days_of_months_def ytab_def LEAPYEAR_def)
qed

lemma year_loop_days: "d < YEARSIZE (y + int n) \<Longrightarrow> year_loop (days_of_years y n + d) y = (d, y + int n)"
proof (induction n arbitrary: y)
  case 0
  then show ?case by (subst year_loop.simps) (simp add: days_of_years_def)
next
  case (Suc n)
  have "days_of_years y (Suc n) = YEARSIZE y + days_of_years (y + 1) n"
    by (simp add: days_of_years_def sum.lessThan_Suc_shift add.assoc del: sum.lessThan_Suc)
  then show ?case using Suc.IH [of "y + 1"] Suc.prems by (subst year_loop.simps) (simp add: ac_simps)
qed

lemma month_loop_days:
  assumes "m < length tab" "d < tab ! m"
  shows "k \<le> m \<Longrightarrow> month_loop tab (sum_list (drop k (take m tab)) + d) k = Inr (d, m)"
proof (induction "m - k" arbitrary: k)
  case 0
  then show ?case using assms by (subst month_loop.simps) simp
next
  case (Suc j)
  then have "drop k (take m tab) = tab ! k # drop (Suc k) (take m tab)"
    using assms(1) by (subst Cons_nth_drop_Suc [symmetric]) simp_all
  then show ?case using Suc assms(1) by (subst month_loop.simps) simp
qed

lemma date_clock:
  assumes "hour < 24" "mn < 60" "sec < (60 :: nat)"
  shows "(hour * 60 + mn) * 60 + sec < 86400" "((hour * 60 + mn) * 60 + sec) mod 60 = sec"
    "((hour * 60 + mn) * 60 + sec) mod 3600 div 60 = mn" "((hour * 60 + mn) * 60 + sec) div 3600 = hour"
proof -
  have e: "(hour * 60 + mn) * 60 + sec = hour * 3600 + (mn * 60 + sec)" "mn * 60 + sec < 3600" using assms by simp_all
  then show "((hour * 60 + mn) * 60 + sec) mod 3600 div 60 = mn" "((hour * 60 + mn) * 60 + sec) div 3600 = hour"
    using assms by (simp_all only: e(1)) simp_all
  show "(hour * 60 + mn) * 60 + sec < 86400" using assms by simp
  show "((hour * 60 + mn) * 60 + sec) mod 60 = sec" using assms(3) by (simp only: mod_mult_self3 mod_less)
qed

lemma days_of_months_less: "m < 12 \<Longrightarrow> d < ytab l ! m \<Longrightarrow> days_of_months l m + d < sum_list (ytab l)"
proof -
  assume a: "m < 12" "d < ytab l ! m"
  have "sum_list (ytab l) = days_of_months l m + sum_list (drop m (ytab l))"
    using sum_list_append [of "take m (ytab l)" "drop m (ytab l)"] by (simp add: days_of_months_def)
  also have "drop m (ytab l) = ytab l ! m # drop (Suc m) (ytab l)" using a(1) by (simp add: Cons_nth_drop_Suc)
  finally show ?thesis using a(2) by simp
qed

lemma gmtime_of_date:
  fixes time :: u32
  assumes "unat time = (days_of_years 1970 n + days_of_months (LEAPYEAR (1970 + int n)) mon + mday) * 86400
      + (hour * 60 + mn) * 60 + sec"
    and "mon < 12" "mday < ytab (LEAPYEAR (1970 + int n)) ! mon" "hour < 24" "mn < 60" "sec < 60"
  shows "\<exists>g. gmtime_r time = Inr g \<and> tm_year g = 70 + int n \<and> tm_mon g = int mon \<and> tm_mday g = int mday + 1
     \<and> tm_hour g = int hour \<and> tm_min g = int mn \<and> tm_sec g = int sec"
proof -
  define d s where "d = days_of_years 1970 n + (days_of_months (LEAPYEAR (1970 + int n)) mon + mday)"
    and "s = (hour * 60 + mn) * 60 + sec"
  have s: "s < 86400" "s mod 60 = sec" "s mod 3600 div 60 = mn" "s div 3600 = hour"
    using date_clock [OF assms(4-6)] by (simp_all add: s_def)
  have t: "unat time = d * 86400 + s" using assms(1) by (simp add: d_def s_def)
  then have dm: "unat time mod 86400 = s" "unat time div 86400 = d" using s(1) by simp_all
  have "days_of_months (LEAPYEAR (1970 + int n)) mon + mday < YEARSIZE (1970 + int n)"
    using days_of_months_less [OF assms(2,3)] by (simp only: sum_ytab)
  then have "year_loop d EPOCH_YR = (days_of_months (LEAPYEAR (1970 + int n)) mon + mday, 1970 + int n)"
    unfolding d_def EPOCH_YR_def by (rule year_loop_days)
  moreover have "month_loop (ytab (LEAPYEAR (1970 + int n))) (days_of_months (LEAPYEAR (1970 + int n)) mon + mday) 0 = Inr (mday, mon)"
    using month_loop_days [of mon "ytab (LEAPYEAR (1970 + int n))" mday 0] assms(2,3) by (simp add: days_of_months_def)
  ultimately show ?thesis
    unfolding gmtime_r_def dm by (simp add: s YEAR0_def)
qed

lemma ytab_le: "m < 12 \<Longrightarrow> ytab l ! m \<le> 31"
  using nth_mem [of m "ytab l"] by (auto simp: ytab_def)

lemma epoch_bound:
  assumes "y < 100" "m < 12" "d < ytab (LEAPYEAR (1970 + int (30 + y))) ! m" "hour < 24" "mn < 60" "sec < 60"
  shows "(days_of_years 1970 (30 + y) + days_of_months (LEAPYEAR (1970 + int (30 + y))) m + d) * 86400
    + (hour * 60 + mn) * 60 + sec < 4294967296"
proof -
  have "days_of_years 1970 (30 + y) \<le> (\<Sum>k<30 + y. 366)" unfolding days_of_years_def
    by (intro sum_mono) (simp add: YEARSIZE_def)
  moreover have "days_of_months (LEAPYEAR (1970 + int (30 + y))) m + d < YEARSIZE (1970 + int (30 + y))"
    using days_of_months_less [OF assms(2,3)] by (simp only: sum_ytab)
  moreover have "YEARSIZE (1970 + int (30 + y)) \<le> 366" by (simp add: YEARSIZE_def)
  ultimately have n: "days_of_years 1970 (30 + y) + days_of_months (LEAPYEAR (1970 + int (30 + y))) m + d < 47580"
    using assms(1) by simp
  have "N * 86400 + s < 4294967296" if "N < 47580" "s < 86400" for N s :: nat using that by linarith
  from this [OF n date_clock(1) [OF assms(4-6)]] show ?thesis by (simp only: add.assoc)
qed

lemma read_cmos_date:
  assumes "clock_chip dv rtc S" "dev \<in> S" "shows_date rtc y (Suc m) (Suc d) hour mn sec"
    and "y < 100" "m < 12" "d < ytab (LEAPYEAR (1970 + int (30 + y))) ! m" "hour < 24" "mn < 60" "sec < 60"
  shows "\<exists>time dev'. read_cmos (Suc (Suc (Suc fuel))) dv old values dev = Inr (time, dev') \<and> dev' \<in> S
    \<and> unat time = (days_of_years 1970 (30 + y) + days_of_months (LEAPYEAR (1970 + int (30 + y))) m + d) * 86400
       + (hour * 60 + mn) * 60 + sec"
proof -
  let ?f = "Suc (Suc (Suc fuel))"
  obtain d1 where d1: "wait_update ?f dv dev = Inr d1" "d1 \<in> S" using wait_update_ok [OF assms(1,2)] by blast
  obtain vs d2 where d2: "stable_dump ?f dv old values d1 = Inr (vs, d2)" "d2 \<in> S"
    "\<forall>i<128. vs ! i = ucast (rtc (of_nat i))" using stable_dump_ok [OF assms(1) d1(2)] by blast
  have d99: "Suc d < 100" using assms(6) ytab_le [OF assms(5), of "LEAPYEAR (1970 + int (30 + y))"] by linarith
  have m99: "Suc m < 100" using assms(5) by simp
  have reg: "vs ! 9 = ucast (rtc 9)" "vs ! 8 = ucast (rtc 8)" "vs ! 7 = ucast (rtc 7)" "vs ! 4 = ucast (rtc 4)"
    "vs ! 2 = ucast (rtc 2)" "vs ! 0 = ucast (rtc 0)"
    using d2(3) [rule_format, of 9] d2(3) [rule_format, of 8] d2(3) [rule_format, of 7] d2(3) [rule_format, of 4]
      d2(3) [rule_format, of 2] d2(3) [rule_format, of 0] by simp_all
  have bcd: "rtc 9 = to_bcd y" "rtc 8 = to_bcd (Suc m)" "rtc 7 = to_bcd (Suc d)" "rtc 4 = to_bcd hour"
    "rtc 2 = to_bcd mn" "rtc 0 = to_bcd sec" using assms(3) unfolding shows_date_def by blast+
  have "hour < 100" "mn < 100" "sec < 100" using assms(7-9) by simp_all
  have v: "from_bcd (vs ! CMOS_YEAR) = int y" "from_bcd (vs ! CMOS_MONTH) = int (Suc m)"
    "from_bcd (vs ! CMOS_DAY) = int (Suc d)" "from_bcd (vs ! CMOS_HOUR) = int hour"
    "from_bcd (vs ! CMOS_MINUTE) = int mn" "from_bcd (vs ! CMOS_SECOND) = int sec"
    unfolding CMOS_SECOND_def CMOS_MINUTE_def CMOS_HOUR_def CMOS_DAY_def CMOS_MONTH_def CMOS_YEAR_def reg bcd
    by (rule from_bcd_to_bcd, fact)+
  have ys: "secs_of_years (int y - 1) = Inr (of_nat (days_of_years 1970 (30 + y)) * 86400)"
    using years_loop_ok [of 0 "30 + y"] assms(4) by (simp add: secs_of_years_def in_int_iff algebra_simps)
  have ms: "secs_of_month (int m) (int y) = Inr (of_nat (days_of_months (LEAPYEAR (1970 + int (30 + y))) m) * 86400)"
    using months_sum [OF assms(5), of "int y + 2000"] assms(4)
    by (simp add: secs_of_month_def in_int_iff add.commute)
  let ?n = "(days_of_years 1970 (30 + y) + days_of_months (LEAPYEAR (1970 + int (30 + y))) m + d) * 86400
       + (hour * 60 + mn) * 60 + sec"
  have "read_cmos ?f dv old values dev = Inr (of_nat ?n, d2)"
    unfolding read_cmos_def d1(1) rbind.simps d2(1) prod.case v
    by (simp add: ys ms algebra_simps)
  moreover have "unat (of_nat ?n :: u32) = ?n"
    using epoch_bound [OF assms(4-9)] by (intro unat_of_nat32) simp
  ultimately show ?thesis using d2(2) by blast
qed

text \<open>C37: When the registers of the clock chip hold a date between 2000 and 2099 in binary coded
  decimal and no update is in progress, \<^verbatim>\<open>read_cmos\<close> returns, whatever its two arrays held before,
  and \<^verbatim>\<open>gmtime_r\<close> of the time it returns gives back the year, month, day, hour, minute and second
  of the registers.\<close>

theorem read_cmos_gmtime:
  assumes "clock_chip dv rtc S" "dev \<in> S" "shows_date rtc y (Suc m) (Suc d) hour mn sec"
    and "y < 100" "m < 12" "d < ytab (LEAPYEAR (2000 + int y)) ! m" "hour < 24" "mn < 60" "sec < 60" "3 \<le> fuel"
  shows "\<exists>time dev' g. read_cmos fuel dv old values dev = Inr (time, dev') \<and> dev' \<in> S
    \<and> gmtime_r time = Inr g \<and> tm_year g = 100 + int y \<and> tm_mon g = int m \<and> tm_mday g = int d + 1
    \<and> tm_hour g = int hour \<and> tm_min g = int mn \<and> tm_sec g = int sec"
proof -
  obtain f where f: "fuel = Suc (Suc (Suc f))" using assms(10) by (metis add_2_eq_Suc le_Suc_ex numeral_3_eq_3 plus_nat.simps(2))
  have d: "d < ytab (LEAPYEAR (1970 + int (30 + y))) ! m" using assms(6) by simp
  from read_cmos_date [OF assms(1-5) d assms(7-9)] gmtime_of_date [OF _ assms(5) d assms(7-9)]
  show ?thesis unfolding f by fastforce
qed

text \<open>A chip that keeps the selected register as its state.\<close>

definition latched_chip :: "(u8 \<Rightarrow> u8) \<Rightarrow> u8 device" where
  "latched_chip rtc =
     \<lparr>rd8 = \<lambda>port d. (if port = CMOS_DATA then rtc d else 0, d), rd16 = \<lambda>_ d. (0, d), rd32 = \<lambda>_ d. (0, d),
      wr8 = \<lambda>port v d. if port = CMOS_ADDRESS then v else d, wr16 = \<lambda>_ _ d. d, wr32 = \<lambda>_ _ d. d\<rparr>"

definition leap_day :: "u8 \<Rightarrow> u8" where
  "leap_day i = (if i = 9 then 0x24 else if i = 8 then 0x02 else if i = 7 then 0x29
     else if i = 4 then 0x23 else if i = 2 then 0x59 else if i = 0 then 0x58 else 0)"

theorem read_cmos_gmtime_witness:
  "\<exists>time dev' g. read_cmos 3 (latched_chip leap_day) [] [] 0 = Inr (time, dev') \<and> gmtime_r time = Inr g
    \<and> tm_year g = 124 \<and> tm_mon g = 1 \<and> tm_mday g = 29 \<and> tm_hour g = 23 \<and> tm_min g = 59 \<and> tm_sec g = 58"
proof -
  have "clock_chip (latched_chip leap_day) leap_day UNIV"
    by (simp add: clock_chip_def latched_chip_def inb_def outb_def leap_day_def)
  moreover have "shows_date leap_day 24 (Suc 1) (Suc 28) 23 59 58"
    by (simp add: shows_date_def leap_day_def to_bcd_def)
  ultimately show ?thesis
    using read_cmos_gmtime [of "latched_chip leap_day" leap_day UNIV 0 24 1 28 23 59 58 3 "[]" "[]"]
    by (simp add: ytab_def LEAPYEAR_mod)
qed

text \<open>C38: The tick that completes a second resynchronises the clock: whatever the drift was before,
  \<^verbatim>\<open>sys_gettimeofday\<close> then reports the time read from the chip, with no microseconds.\<close>

theorem gettimeofday_resync:
  assumes "timer_subticks st = 999"
  shows "sys_gettimeofday (timer_advance now st) = \<lparr>tv_sec = now, tv_usec = 0\<rparr>"
  using assms by (simp add: sys_gettimeofday_def timer_advance_def Let_def)

theorem gettimeofday_resync_witness:
  "sys_gettimeofday (timer_advance 1709251199 ((boot_sched 16)\<lparr>timer_subticks := 999, timer_ticks := 5\<rparr>))
     = \<lparr>tv_sec = 1709251199, tv_usec = 0\<rparr>"
  by (rule gettimeofday_resync) simp

end
