(* ===== verification/Pipe.thy ===== *)
theory Pipe
  imports Sched
begin

text \<open>
  The pipe device of \<^verbatim>\<open>src/fs/pipe.c\<close>: a ring buffer with a read and a write index
  and two queues of waiting processes.  A call that finds nothing to do sleeps on its
  queue and is repeated when the process is woken, so one pass of the outer loop of
  \<^verbatim>\<open>read_pipe\<close> and \<^verbatim>\<open>write_pipe\<close> is a step of the model; between two passes other
  processes run.  The abstract view is a bounded first-in first-out queue of bytes.
\<close>

section \<open>Data and operations\<close>

record pipe_device =
  pd_buffer :: bytes
  write_ptr :: u32
  read_ptr :: u32
  pd_size :: u32
  pd_refs :: u32
  wait_queue_readers :: list_t
  wait_queue_writers :: list_t
  pd_dead :: bool

definition pipe_increment_read :: "pipe_device \<Rightarrow> pipe_device" where
  "pipe_increment_read pipe =
     (let pipe = pipe\<lparr>read_ptr := read_ptr pipe + 1\<rparr> in
      if read_ptr pipe = pd_size pipe then pipe\<lparr>read_ptr := 0\<rparr> else pipe)"

definition pipe_increment_write :: "pipe_device \<Rightarrow> pipe_device" where
  "pipe_increment_write pipe =
     (let pipe = pipe\<lparr>write_ptr := write_ptr pipe + 1\<rparr> in
      if write_ptr pipe = pd_size pipe then pipe\<lparr>write_ptr := 0\<rparr> else pipe)"

definition pipe_available :: "pipe_device \<Rightarrow> u32" where
  "pipe_available pipe =
     (if read_ptr pipe = write_ptr pipe then pd_size pipe - 1
      else if read_ptr pipe > write_ptr pipe then read_ptr pipe - write_ptr pipe - 1
      else (pd_size pipe - write_ptr pipe) + read_ptr pipe - 1)"

definition pipe_unread :: "pipe_device \<Rightarrow> u32" where
  "pipe_unread pipe =
     (if read_ptr pipe = write_ptr pipe then 0
      else if read_ptr pipe > write_ptr pipe then (pd_size pipe - read_ptr pipe) + write_ptr pipe
      else write_ptr pipe - read_ptr pipe)"

definition pipe_load :: "pipe_device \<Rightarrow> u8 res" where
  "pipe_load pipe =
     (if unat (read_ptr pipe) < length (pd_buffer pipe) then Inr (pd_buffer pipe ! unat (read_ptr pipe))
      else Inl Out_of_bounds)"

definition pipe_store :: "u8 \<Rightarrow> pipe_device \<Rightarrow> pipe_device res" where
  "pipe_store b pipe =
     (if unat (write_ptr pipe) < length (pd_buffer pipe)
      then Inr (pipe\<lparr>pd_buffer := (pd_buffer pipe)[unat (write_ptr pipe) := b]\<rparr>)
      else Inl Out_of_bounds)"

text \<open>The inner loops; the number is \<^verbatim>\<open>size - collected\<close>, the list the bytes not yet
  written.\<close>

fun read_copy :: "nat \<Rightarrow> pipe_device \<Rightarrow> (bytes \<times> pipe_device) res" where
  "read_copy 0 pipe = Inr ([], pipe)"
| "read_copy (Suc n) pipe =
     (if pipe_unread pipe > 0
      then rbind (pipe_load pipe) (\<lambda>b.
           rmap (\<lambda>(bs, pipe). (b # bs, pipe)) (read_copy n (pipe_increment_read pipe)))
      else Inr ([], pipe))"

fun write_copy :: "bytes \<Rightarrow> pipe_device \<Rightarrow> (bytes \<times> pipe_device) res" where
  "write_copy [] pipe = Inr ([], pipe)"
| "write_copy (b # bs) pipe =
     (if pipe_available pipe > 0
      then rbind (pipe_store b pipe) (\<lambda>pipe. write_copy bs (pipe_increment_write pipe))
      else Inr (b # bs, pipe))"

text \<open>The outcome of one pass: the call returns, or it sleeps with what is left.\<close>

datatype 'a outcome = Returns 'a | Sleeps

definition read_pass :: "cpu \<Rightarrow> u32 \<Rightarrow> pipe_device \<Rightarrow> sched \<Rightarrow> (bytes outcome \<times> pipe_device \<times> sched) res" where
  "read_pass r sz pipe st =
     rbind (read_copy (unat sz) pipe) (\<lambda>(bs, pipe).
     rbind (wakeup_from (wait_queue_writers pipe) st) (\<lambda>(q, st).
     let pipe = pipe\<lparr>wait_queue_writers := q\<rparr> in
     if bs = []
     then rmap (\<lambda>(q, st). (Sleeps, pipe\<lparr>wait_queue_readers := q\<rparr>, st))
            (sleep_on r (wait_queue_readers pipe) st)
     else Inr (Returns bs, pipe, st)))"

definition read_pipe :: "cpu \<Rightarrow> u32 \<Rightarrow> pipe_device option \<Rightarrow> sched \<Rightarrow> (bytes outcome \<times> pipe_device \<times> sched) res" where
  "read_pipe r sz device st =
     (case device of
        None \<Rightarrow> Inl Panic
      | Some pipe \<Rightarrow> if pd_dead pipe then Inr (Returns [], pipe, st) else read_pass r sz pipe st)"

definition write_pass :: "cpu \<Rightarrow> bytes \<Rightarrow> pipe_device \<Rightarrow> sched \<Rightarrow> (bytes \<times> pipe_device \<times> sched) res" where
  "write_pass r bs pipe st =
     rbind (write_copy bs pipe) (\<lambda>(left, pipe).
     rbind (wakeup_from (wait_queue_readers pipe) st) (\<lambda>(q, st).
     let pipe = pipe\<lparr>wait_queue_readers := q\<rparr> in
     if left \<noteq> []
     then rmap (\<lambda>(q, st). (left, pipe\<lparr>wait_queue_writers := q\<rparr>, st))
            (sleep_on r (wait_queue_writers pipe) st)
     else Inr ([], pipe, st)))"

text \<open>\<open>write_pipe\<close> returns when nothing is left; the bytes left over belong to the next pass.\<close>

definition write_pipe :: "cpu \<Rightarrow> bytes \<Rightarrow> pipe_device option \<Rightarrow> sched \<Rightarrow> (bytes \<times> pipe_device \<times> sched) res" where
  "write_pipe r bs device st =
     (case device of
        None \<Rightarrow> Inl Panic
      | Some pipe \<Rightarrow>
          if pd_dead pipe \<or> bs = [] then Inr ([], pipe, st) else write_pass r bs pipe st)"

definition open_pipe :: "pipe_device option \<Rightarrow> pipe_device res" where
  "open_pipe device =
     (case device of None \<Rightarrow> Inl Panic | Some pipe \<Rightarrow> Inr (pipe\<lparr>pd_refs := pd_refs pipe + 1\<rparr>))"

definition close_pipe :: "pipe_device option \<Rightarrow> pipe_device res" where
  "close_pipe device =
     (case device of None \<Rightarrow> Inl Panic | Some pipe \<Rightarrow> Inr (pipe\<lparr>pd_refs := pd_refs pipe - 1\<rparr>))"

text \<open>The device \<^verbatim>\<open>create_pipe\<close> sets up; the buffer comes uninitialised from the
  allocator.\<close>

definition create_pipe :: "bytes \<Rightarrow> u32 \<Rightarrow> pipe_device" where
  "create_pipe buf sz =
     \<lparr>pd_buffer = buf, write_ptr = 0, read_ptr = 0, pd_size = sz, pd_refs = 0,
      wait_queue_readers = list_create, wait_queue_writers = list_create, pd_dead = False\<rparr>"

section \<open>The ring buffer is a bounded queue\<close>

definition pipe_rep :: "pipe_device \<Rightarrow> bytes \<Rightarrow> bool" where
  "pipe_rep pipe q \<longleftrightarrow> length (pd_buffer pipe) = unat (pd_size pipe)
     \<and> unat (read_ptr pipe) < unat (pd_size pipe) \<and> length q < unat (pd_size pipe)
     \<and> unat (write_ptr pipe) = (unat (read_ptr pipe) + length q) mod unat (pd_size pipe)
     \<and> (\<forall>i < length q. pd_buffer pipe ! ((unat (read_ptr pipe) + i) mod unat (pd_size pipe)) = q ! i)"

lemma create_pipe_rep: "length buf = unat sz \<Longrightarrow> sz \<noteq> 0 \<Longrightarrow> pipe_rep (create_pipe buf sz) []"
  by (simp add: pipe_rep_def create_pipe_def unat_gt_0)

lemma ring_mod:
  fixes a :: nat
  assumes "a < n" "k \<le> n"
  shows "(a + k) mod n = (if a + k < n then a + k else a + k - n)"
proof (cases "a + k < n")
  case False
  then have "(a + k) mod n = (a + k - n) mod n" by (simp add: le_mod_geq)
  also have "\<dots> = a + k - n" using assms by (intro mod_less) linarith
  finally show ?thesis using False by simp
qed simp

lemma ring_write_ptr:
  assumes "pipe_rep pipe q"
  shows "unat (write_ptr pipe) =
    (if unat (read_ptr pipe) + length q < unat (pd_size pipe) then unat (read_ptr pipe) + length q
     else unat (read_ptr pipe) + length q - unat (pd_size pipe))"
  using assms by (simp add: pipe_rep_def ring_mod less_imp_le)

lemma unread_ok: "pipe_rep pipe q \<Longrightarrow> unat (pipe_unread pipe) = length q"
proof -
  assume rep: "pipe_rep pipe q"
  note w = ring_write_ptr [OF rep]
  have b: "unat (read_ptr pipe) < unat (pd_size pipe)" "length q < unat (pd_size pipe)"
    using rep by (simp_all add: pipe_rep_def)
  consider "length q = 0" | "unat (read_ptr pipe) > unat (write_ptr pipe)" "length q \<noteq> 0"
    | "unat (read_ptr pipe) < unat (write_ptr pipe)" "length q \<noteq> 0"
    using w b by (cases "length q = 0") (auto split: if_splits)
  then show ?thesis
  proof cases
    case 1
    then show ?thesis using w b by (simp add: pipe_unread_def word_unat_eq_iff)
  next
    case 2
    have "unat (pd_size pipe - read_ptr pipe) = unat (pd_size pipe) - unat (read_ptr pipe)"
      using b by (intro unat_sub) (simp add: word_le_nat_alt)
    then show ?thesis using 2 w b u32_less [of "pd_size pipe"]
      by (auto simp: pipe_unread_def word_unat_eq_iff word_less_nat_alt unat_word_ariths split: if_splits)
  next
    case 3
    then show ?thesis using w b
      by (auto simp: pipe_unread_def word_unat_eq_iff word_less_nat_alt word_le_nat_alt unat_sub split: if_splits)
  qed
qed

lemma available_ok: "pipe_rep pipe q \<Longrightarrow> unat (pipe_available pipe) = unat (pd_size pipe) - 1 - length q"
proof -
  assume rep: "pipe_rep pipe q"
  note w = ring_write_ptr [OF rep]
  have b: "unat (read_ptr pipe) < unat (pd_size pipe)" "length q < unat (pd_size pipe)"
    using rep by (simp_all add: pipe_rep_def)
  consider "length q = 0" | "unat (read_ptr pipe) > unat (write_ptr pipe)" "length q \<noteq> 0"
    | "unat (read_ptr pipe) < unat (write_ptr pipe)" "length q \<noteq> 0"
    using w b by (cases "length q = 0") (auto split: if_splits)
  then show ?thesis
  proof cases
    case 1
    have "pd_size pipe \<noteq> 0" using b by auto
    then show ?thesis using 1 w b by (simp add: pipe_available_def word_unat_eq_iff unat_minus_one)
  next
    case 2
    have d: "unat (read_ptr pipe - write_ptr pipe) = unat (read_ptr pipe) - unat (write_ptr pipe)"
      using 2 by (intro unat_sub) (simp add: word_le_nat_alt)
    then have "read_ptr pipe - write_ptr pipe \<noteq> 0" using 2 by auto
    then show ?thesis using 2 w b d
      by (auto simp: pipe_available_def word_unat_eq_iff word_less_nat_alt unat_minus_one split: if_splits)
  next
    case 3
    have d: "unat (pd_size pipe - write_ptr pipe) = unat (pd_size pipe) - unat (write_ptr pipe)"
      using 3 w b by (intro unat_sub) (auto simp: word_le_nat_alt split: if_splits)
    have e: "unat (pd_size pipe - write_ptr pipe + read_ptr pipe) =
        unat (pd_size pipe) - unat (write_ptr pipe) + unat (read_ptr pipe)"
      using 3 d u32_less [of "pd_size pipe"] w b by (auto simp: unat_word_ariths split: if_splits)
    moreover have "pd_size pipe - write_ptr pipe + read_ptr pipe \<noteq> 0"
      using e 3 w b by (auto split: if_splits)
    ultimately show ?thesis using 3 w b
      by (auto simp: pipe_available_def word_unat_eq_iff word_less_nat_alt unat_minus_one split: if_splits)
  qed
qed

lemma ring_succ:
  fixes x :: u32
  assumes "unat x < unat n"
  shows "unat (if x + 1 = n then 0 else x + 1) = Suc (unat x) mod unat n"
proof -
  have s: "unat (x + 1) = Suc (unat x)"
    using assms u32_less [of n] by (simp add: unat_word_ariths)
  show ?thesis
  proof (cases "x + 1 = n")
    case False
    then have "Suc (unat x) \<noteq> unat n" using s by (metis word_unat_eq_iff)
    then show ?thesis using False s assms by simp
  qed (use s in auto)
qed

lemma ring_inj:
  "r < n \<Longrightarrow> i < n \<Longrightarrow> j < n \<Longrightarrow> i \<noteq> j \<Longrightarrow> ((r :: nat) + i) mod n \<noteq> (r + j) mod n"
  using ring_mod [of r n i] ring_mod [of r n j] by (simp split: if_splits)

lemma read_step:
  assumes "pipe_rep pipe (b # q)"
  shows "pipe_load pipe = Inr b" "pipe_rep (pipe_increment_read pipe) q"
proof -
  let ?r = "unat (read_ptr pipe)" and ?n = "unat (pd_size pipe)"
  have p: "length (pd_buffer pipe) = ?n" "?r < ?n" "Suc (length q) < ?n"
    "unat (write_ptr pipe) = (?r + Suc (length q)) mod ?n"
    and el: "\<And>i. i < Suc (length q) \<Longrightarrow> pd_buffer pipe ! ((?r + i) mod ?n) = (b # q) ! i"
    using assms by (auto simp: pipe_rep_def)
  show "pipe_load pipe = Inr b" using el [of 0] p by (simp add: pipe_load_def)
  have r': "unat (read_ptr (pipe_increment_read pipe)) = Suc ?r mod ?n"
    using ring_succ [OF p(2)] by (auto simp: pipe_increment_read_def Let_def)
  have same: "pd_buffer (pipe_increment_read pipe) = pd_buffer pipe"
    "pd_size (pipe_increment_read pipe) = pd_size pipe" "write_ptr (pipe_increment_read pipe) = write_ptr pipe"
    by (simp_all add: pipe_increment_read_def Let_def)
  have "pd_buffer pipe ! ((Suc ?r mod ?n + i) mod ?n) = q ! i" if "i < length q" for i
    using el [of "Suc i"] that by (simp add: mod_simps)
  then show "pipe_rep (pipe_increment_read pipe) q"
    using p r' by (simp add: pipe_rep_def same mod_simps)
qed

lemma write_step:
  assumes "pipe_rep pipe q" "Suc (length q) < unat (pd_size pipe)"
  shows "\<exists>pipe'. pipe_store b pipe = Inr pipe' \<and> pipe_rep (pipe_increment_write pipe') (q @ [b])"
proof -
  let ?r = "unat (read_ptr pipe)" and ?n = "unat (pd_size pipe)" and ?w = "unat (write_ptr pipe)"
  have p: "length (pd_buffer pipe) = ?n" "?r < ?n" "?w = (?r + length q) mod ?n" "?w < ?n"
    and el: "\<And>i. i < length q \<Longrightarrow> pd_buffer pipe ! ((?r + i) mod ?n) = q ! i"
    using assms by (auto simp: pipe_rep_def)
  define pipe' where "pipe' = pipe\<lparr>pd_buffer := (pd_buffer pipe)[?w := b]\<rparr>"
  have w': "unat (write_ptr (pipe_increment_write pipe')) = Suc ?w mod ?n"
    using ring_succ [OF p(4)] by (auto simp: pipe_increment_write_def pipe'_def Let_def)
  have same: "pd_buffer (pipe_increment_write pipe') = (pd_buffer pipe)[?w := b]"
    "pd_size (pipe_increment_write pipe') = pd_size pipe" "read_ptr (pipe_increment_write pipe') = read_ptr pipe"
    by (simp_all add: pipe_increment_write_def pipe'_def Let_def)
  have "(pd_buffer pipe)[?w := b] ! ((?r + i) mod ?n) = (q @ [b]) ! i" if "i < Suc (length q)" for i
  proof (cases "i = length q")
    case True
    then show ?thesis using p by simp
  next
    case False
    then have "i < length q" using that by simp
    then have "(?r + i) mod ?n \<noteq> ?w" using assms(2) p(2) unfolding p(3) by (intro ring_inj) auto
    then show ?thesis using el [of i] \<open>i < length q\<close> by (simp add: nth_append)
  qed
  then have "pipe_rep (pipe_increment_write pipe') (q @ [b])"
    using p assms(2) w' by (simp add: pipe_rep_def same mod_simps)
  then show ?thesis using p by (simp add: pipe_store_def pipe'_def)
qed

lemma read_copy_fifo:
  "pipe_rep pipe q \<Longrightarrow> \<exists>pipe'. read_copy n pipe = Inr (take n q, pipe') \<and> pipe_rep pipe' (drop n q)
     \<and> pd_size pipe' = pd_size pipe \<and> wait_queue_readers pipe' = wait_queue_readers pipe
     \<and> wait_queue_writers pipe' = wait_queue_writers pipe"
proof (induction n arbitrary: pipe q)
  case (Suc n)
  show ?case
  proof (cases q)
    case Nil
    then have "\<not> pipe_unread pipe > 0" using unread_ok [OF Suc.prems] by (simp add: word_less_nat_alt)
    then show ?thesis using Nil Suc.prems by simp
  next
    case (Cons b q')
    then have "pipe_unread pipe > 0" using unread_ok [OF Suc.prems] by (simp add: word_less_nat_alt)
    moreover note s = read_step [OF Suc.prems [unfolded Cons]]
    ultimately show ?thesis
      using Suc.IH [OF s(2)] Cons by (auto simp: pipe_increment_read_def Let_def)
  qed
qed simp

lemma write_copy_fifo:
  "pipe_rep pipe q \<Longrightarrow> \<exists>pipe'. write_copy bs pipe = Inr (drop (unat (pd_size pipe) - 1 - length q) bs, pipe')
     \<and> pipe_rep pipe' (q @ take (unat (pd_size pipe) - 1 - length q) bs)
     \<and> pd_size pipe' = pd_size pipe \<and> wait_queue_readers pipe' = wait_queue_readers pipe
     \<and> wait_queue_writers pipe' = wait_queue_writers pipe"
proof (induction bs arbitrary: pipe q)
  case (Cons b bs)
  let ?k = "unat (pd_size pipe) - 1 - length q"
  show ?case
  proof (cases "?k = 0")
    case True
    then have "\<not> pipe_available pipe > 0" using available_ok [OF Cons.prems] by (simp add: word_less_nat_alt)
    then show ?thesis using True Cons.prems by simp
  next
    case False
    then have av: "pipe_available pipe > 0" using available_ok [OF Cons.prems] by (simp add: word_less_nat_alt)
    obtain p1 where p1: "pipe_store b pipe = Inr p1" "pipe_rep (pipe_increment_write p1) (q @ [b])"
      using write_step [OF Cons.prems, of b] False by auto
    have same: "pd_size (pipe_increment_write p1) = pd_size pipe"
      "wait_queue_readers (pipe_increment_write p1) = wait_queue_readers pipe"
      "wait_queue_writers (pipe_increment_write p1) = wait_queue_writers pipe"
      using p1(1) by (auto simp: pipe_increment_write_def pipe_store_def Let_def split: if_splits)
    obtain k where k: "?k = Suc k" "unat (pd_size pipe) - 1 - length (q @ [b]) = k"
      using False by (cases ?k) auto
    show ?thesis using Cons.IH [OF p1(2)] av p1(1) k unfolding same by auto
  qed
qed simp

section \<open>Waking the other side\<close>

text \<open>A wait queue beside the queues of the scheduler.\<close>

definition waiting :: "sched \<Rightarrow> u32 set \<Rightarrow> (u32 \<times> u32) list \<Rightarrow> (u32 \<times> u32) list \<Rightarrow> (u32 \<times> u32) list \<Rightarrow>
    list_t \<Rightarrow> (u32 \<times> u32) list \<Rightarrow> bool" where
  "waiting st L rq fq sq q wq \<longleftrightarrow> dlist q (nodes (heap st)) wq \<and> addrs wq \<subseteq> L
     \<and> addrs wq \<inter> (addrs rq \<union> addrs fq \<union> addrs sq) = {}"

lemma wakeup_from_rep:
  assumes rep: "sched_rep st L rq fq sq" and w: "waiting st L rq fq sq q (wq @ [(a, p)])"
    and "p \<noteq> 0" "kheap_room (Suc n) (heap st)"
  shows "\<exists>b q' st'. wakeup_from q st = Inr (q', st') \<and> b \<notin> L - {a}
    \<and> sched_rep st' (insert b (L - {a})) ((b, p) # rq) fq sq
    \<and> waiting st' (insert b (L - {a})) ((b, p) # rq) fq sq q' wq \<and> kheap_room n (heap st')"
proof -
  let ?S = "addrs rq \<union> addrs fq \<union> addrs sq"
  note d = sched_repD [OF rep]
  have wq: "dlist q (nodes (heap st)) (wq @ [(a, p)])" "addrs wq \<subseteq> L" "a \<in> L" "a \<notin> ?S" "addrs wq \<inter> ?S = {}"
    using w by (auto simp: waiting_def)
  obtain q' h where pop: "list_pop_back q (nodes (heap st)) = Inr (a, q', h)" "dlist q' h wq"
    "h a = nodes (heap st) a" "\<forall>b. b \<notin> addrs wq \<longrightarrow> h b = nodes (heap st) b"
    using list_pop_back_ok [OF wq(1)] by blast
  obtain nd where nd: "nodes (heap st) a = Some nd" "ln_value nd = p" "a \<noteq> 0" "a \<notin> addrs wq"
    using wq(1) by (auto simp: dlist_def dseg_append)
  have "kheap_rep ((heap st)\<lparr>nodes := h\<rparr>) L" using d(1) by (simp add: kheap_rep_def)
  then obtain kh where kh: "kfree a ((heap st)\<lparr>nodes := h\<rparr>) = Inr kh" "kheap_rep kh (L - {a})"
    "\<forall>n. kheap_room n ((heap st)\<lparr>nodes := h\<rparr>) \<longrightarrow> kheap_room n kh" "nodes kh = h"
    using kfree_used [of _ L a] wq(3) by fastforce
  have sub: "?S \<subseteq> L - {a}" using d(5-7) wq(4) by blast
  have same: "\<forall>b\<in>?S. nodes kh b = nodes (heap st) b" using pop(4) wq(5) kh(4) by blast
  have rep1: "sched_rep (st\<lparr>heap := kh\<rparr>) (L - {a}) rq fq sq"
  proof -
    have "sched_rep (st\<lparr>process_queue := process_queue st, heap := kh\<rparr>) (L - {a}) rq fq sq"
    proof (rule sched_rep_run [OF rep kh(2)])
      show "dlist (process_queue st) (nodes kh) rq"
        using dlist_frame [of rq "nodes kh" "nodes (heap st)"] same d(2) by blast
      show "addrs rq \<subseteq> L - {a}" "addrs fq \<union> addrs sq \<subseteq> L - {a}" using sub by blast+
      show "\<forall>b\<in>addrs fq \<union> addrs sq. nodes kh b = nodes (heap st) b" using same by blast
      show "addrs rq \<inter> (addrs fq \<union> addrs sq) = {}" using d(8,9) by blast
    qed
    then show ?thesis by simp
  qed
  have "kheap_room (Suc n) kh" using assms(4) kh(3) by (simp add: kheap_room_def)
  then obtain b q2 kh2 where b: "sched_enqueue p (st\<lparr>heap := kh\<rparr>) = Inr (st\<lparr>process_queue := q2, heap := kh2\<rparr>)"
    "b \<notin> L - {a}" "sched_rep (st\<lparr>process_queue := q2, heap := kh2\<rparr>) (insert b (L - {a})) ((b, p) # rq) fq sq"
    "kheap_room n kh2" "\<forall>c\<in>(L - {a}) - addrs rq. nodes kh2 c = nodes kh c"
    using sched_enqueue_rep_frame [OF rep1 assms(3), of n] by auto
  have wsub: "addrs wq \<subseteq> (L - {a}) - addrs rq" using wq(2,5) nd(4) by blast
  have "dlist q' (nodes kh2) wq"
    using dlist_frame [of wq "nodes kh2" "nodes kh"] agree_subset [OF wsub b(5)] pop(2) kh(4) by blast
  moreover have "addrs wq \<inter> (addrs ((b, p) # rq) \<union> addrs fq \<union> addrs sq) = {}"
    using wq(5) b(2) wsub by auto
  ultimately have "waiting (st\<lparr>process_queue := q2, heap := kh2\<rparr>) (insert b (L - {a})) ((b, p) # rq) fq sq q' wq"
    using wsub by (auto simp: waiting_def)
  moreover have "wakeup_from q st = Inr (q', st\<lparr>process_queue := q2, heap := kh2\<rparr>)"
    using pop(1,3) nd kh(1) b(1) assms(3) by (simp add: wakeup_from_def deref_def)
  ultimately show ?thesis using b by (intro exI [of _ b] exI [of _ q'] exI [of _ "st\<lparr>process_queue := q2, heap := kh2\<rparr>"]) simp
qed

text \<open>A process that finds no other one to run stays current after going to sleep on a
  queue.\<close>

lemma sleep_on_idle:
  assumes "sched_rep st L [] fq sq" "waiting st L [] fq sq q wq" "kheap_room (Suc n) (heap st)"
  shows "\<exists>a q' st'. sleep_on r q st = Inr (q', st') \<and> sched_rep st' (insert a L) [] fq sq
    \<and> waiting st' (insert a L) [] fq sq q' ((a, current st) # wq) \<and> kheap_room n (heap st')"
proof -
  note d = sched_repD [OF assms(1)]
  have w: "dlist q (nodes (heap st)) wq" "addrs wq \<subseteq> L" "addrs wq \<inter> (addrs fq \<union> addrs sq) = {}"
    using assms(2) by (auto simp: waiting_def)
  from on_list_push_front [OF d(1) w(1,2) assms(3), of "current st"] obtain a q' kh where
    *: "on_list (list_push_front kmalloc (current st)) q (heap st) = Inr (q', kh)" "a \<notin> L"
    "kheap_rep kh (insert a L)" "dlist q' (nodes kh) ((a, current st) # wq)" "kheap_room n kh"
    "\<forall>b\<in>L - addrs wq. nodes kh b = nodes (heap st) b" by blast
  have sub: "addrs fq \<union> addrs sq \<subseteq> L - addrs wq" using d(6,7) w(3) by blast
  have "sched_rep (st\<lparr>process_queue := process_queue st, heap := kh\<rparr>) (insert a L) [] fq sq"
    using agree_subset [OF sub *(6)] sub d(2)
    by (intro sched_rep_run [OF assms(1) *(3)]) (auto simp: dlist_def)
  then have rep: "sched_rep (st\<lparr>heap := kh\<rparr>) (insert a L) [] fq sq" by simp
  have "context_switch r False (st\<lparr>heap := kh\<rparr>) = Inr (st\<lparr>heap := kh\<rparr>)"
    using sched_available_rep [OF rep] by (simp add: context_switch_def)
  moreover have "waiting (st\<lparr>heap := kh\<rparr>) (insert a L) [] fq sq q' ((a, current st) # wq)"
    using *(2,4) w d(6,7) by (auto simp: waiting_def)
  ultimately show ?thesis using * rep
    by (intro exI [of _ a] exI [of _ q'] exI [of _ "st\<lparr>heap := kh\<rparr>"]) (simp add: sleep_on_def)
qed

section \<open>Properties\<close>

text \<open>C26: the ring buffer of a pipe refines a bounded first-in first-out queue: a write
  stores the longest prefix that fits into the \<^verbatim>\<open>size - 1\<close> usable slots and keeps the
  rest, a following read returns the oldest bytes in the order they were written, the
  read and write indices stay inside the buffer, and no byte is lost or duplicated.\<close>

theorem pipe_fifo:
  assumes "pipe_rep pipe q" "k = unat (pd_size pipe) - 1 - length q"
  shows "\<exists>pipe1 pipe2. write_copy bs pipe = Inr (drop k bs, pipe1) \<and> pipe_rep pipe1 (q @ take k bs)
    \<and> read_copy n pipe1 = Inr (take n (q @ take k bs), pipe2) \<and> pipe_rep pipe2 (drop n (q @ take k bs))"
  using write_copy_fifo [OF assms(1), of bs] read_copy_fifo assms(2) by metis

theorem pipe_fifo_witness:
  "\<exists>pipe1 pipe2. write_copy [1, 2, 3, 4] (create_pipe [0, 0, 0, 0] 4) = Inr ([4], pipe1)
     \<and> read_copy 2 pipe1 = Inr ([1, 2], pipe2) \<and> pipe_rep pipe2 [3]"
proof -
  have r: "pipe_rep (create_pipe [0, 0, 0, 0] 4) []" by (rule create_pipe_rep) simp_all
  have "3 = unat (pd_size (create_pipe [0, 0, 0, 0] 4)) - 1 - length ([] :: bytes)" by (simp add: create_pipe_def)
  from pipe_fifo [OF r this, of "[1, 2, 3, 4]" 2] show ?thesis by (auto simp del: write_copy.simps)
qed

text \<open>C27: a read of a pipe that holds data returns without sleeping the oldest
  \<^verbatim>\<open>size\<close> bytes (all of them when there are fewer), and the writer that has waited
  longest becomes runnable while the other writers keep waiting.\<close>

theorem read_wakes_writer:
  assumes "pipe_rep pipe q" "q \<noteq> []" "sz \<noteq> 0" "sched_rep st L rq fq sq"
    and "waiting st L rq fq sq (wait_queue_writers pipe) (wq @ [(a, p)])" "p \<noteq> 0" "kheap_room 1 (heap st)"
    and "\<not> pd_dead pipe"
  shows "\<exists>pipe' st' L' b. read_pipe r sz (Some pipe) st = Inr (Returns (take (unat sz) q), pipe', st')
    \<and> pipe_rep pipe' (drop (unat sz) q) \<and> sched_rep st' L' ((b, p) # rq) fq sq
    \<and> waiting st' L' ((b, p) # rq) fq sq (wait_queue_writers pipe') wq"
proof -
  obtain pipe1 where p1: "read_copy (unat sz) pipe = Inr (take (unat sz) q, pipe1)" "pipe_rep pipe1 (drop (unat sz) q)"
    "wait_queue_writers pipe1 = wait_queue_writers pipe"
    using read_copy_fifo [OF assms(1)] by blast
  have "kheap_room (Suc 0) (heap st)" using assms(7) by simp
  from wakeup_from_rep [OF assms(4,5,6) this] obtain b q' st' where
    w: "wakeup_from (wait_queue_writers pipe) st = Inr (q', st')"
    "sched_rep st' (insert b (L - {a})) ((b, p) # rq) fq sq"
    "waiting st' (insert b (L - {a})) ((b, p) # rq) fq sq q' wq" by blast
  have "take (unat sz) q \<noteq> []" using assms(2,3) by (simp add: unat_eq_zero)
  moreover have "pipe_rep (pipe1\<lparr>wait_queue_writers := q'\<rparr>) (drop (unat sz) q)"
    using p1(2) by (simp add: pipe_rep_def)
  ultimately show ?thesis using p1 w assms(8)
    by (intro exI [of _ "pipe1\<lparr>wait_queue_writers := q'\<rparr>"] exI [of _ st'] exI [of _ "insert b (L - {a})"] exI [of _ b])
       (simp add: read_pipe_def read_pass_def Let_def)
qed

theorem read_wakes_writer_witness:
  "\<exists>q st pipe' st'. sleep_on \<lparr>r_eip = 1, r_esp = 2, r_ebp = 3\<rparr> list_create (boot_sched 16) = Inr (q, st)
     \<and> read_pipe \<lparr>r_eip = 1, r_esp = 2, r_ebp = 3\<rparr> 1 (Some \<lparr>pd_buffer = [7, 8], write_ptr = 1, read_ptr = 0, pd_size = 2, pd_refs = 0,
          wait_queue_readers = list_create, wait_queue_writers = q, pd_dead = False\<rparr>) st
        = Inr (Returns [7], pipe', st')"
proof -
  have "waiting (boot_sched 16) {} [] [] [] list_create []" by (simp add: waiting_def dlist_def list_create_def)
  moreover have "current (boot_sched 16) = 16" by (simp add: boot_sched_def)
  ultimately obtain a q st where
    s: "sleep_on \<lparr>r_eip = 1, r_esp = 2, r_ebp = 3\<rparr> list_create (boot_sched 16) = Inr (q, st)"
    "sched_rep st {a} [] [] []" "waiting st {a} [] [] [] q ([] @ [(a, 16)])" "kheap_room 2 (heap st)"
    using sleep_on_idle [OF boot_sched_rep(1) _ boot_sched_rep(2), of 16 list_create "[]"
        "\<lparr>r_eip = 1, r_esp = 2, r_ebp = 3\<rparr>"] by auto
  let ?p = "\<lparr>pd_buffer = [7, 8], write_ptr = 1, read_ptr = 0, pd_size = 2, pd_refs = 0,
      wait_queue_readers = list_create, wait_queue_writers = q, pd_dead = False\<rparr>"
  have "pipe_rep ?p [7]" by (simp add: pipe_rep_def)
  from read_wakes_writer [OF this _ _ s(2), of 1 "[]" a 16 "\<lparr>r_eip = 1, r_esp = 2, r_ebp = 3\<rparr>"] s kheap_room_mono [OF s(4), of 1]
  show ?thesis by auto
qed

end
