(* ===== verification/Kbd.thy ===== *)
theory Kbd
  imports Ports Pipe
begin

text \<open>
  The keyboard module (\<^verbatim>\<open>src/modules/kbd.c\<close>, \<^verbatim>\<open>src/include/drivers/kbd.h\<close>): the translation of scan
  codes, the state of the modifier and lock keys, and the interrupt handler, which writes
  the translated key to the pipe that processes read their standard input from.  The
  controller is a device behind two ports.
\<close>

section \<open>Key codes\<close>

text \<open>The members of the enumeration \<^verbatim>\<open>KEYCODE\<close> that the module uses; \<^verbatim>\<open>KEY_UNKNOWN\<close> is the successor of
  \<^verbatim>\<open>KEY_PAUSE\<close>.\<close>

abbreviation KEY_SPACE :: int where "KEY_SPACE \<equiv> 32"
abbreviation KEY_0 :: int where "KEY_0 \<equiv> 48"
abbreviation KEY_1 :: int where "KEY_1 \<equiv> 49"
abbreviation KEY_2 :: int where "KEY_2 \<equiv> 50"
abbreviation KEY_3 :: int where "KEY_3 \<equiv> 51"
abbreviation KEY_4 :: int where "KEY_4 \<equiv> 52"
abbreviation KEY_5 :: int where "KEY_5 \<equiv> 53"
abbreviation KEY_6 :: int where "KEY_6 \<equiv> 54"
abbreviation KEY_7 :: int where "KEY_7 \<equiv> 55"
abbreviation KEY_8 :: int where "KEY_8 \<equiv> 56"
abbreviation KEY_9 :: int where "KEY_9 \<equiv> 57"
abbreviation KEY_A :: int where "KEY_A \<equiv> 97"
abbreviation KEY_B :: int where "KEY_B \<equiv> 98"
abbreviation KEY_C :: int where "KEY_C \<equiv> 99"
abbreviation KEY_D :: int where "KEY_D \<equiv> 100"
abbreviation KEY_E :: int where "KEY_E \<equiv> 101"
abbreviation KEY_F :: int where "KEY_F \<equiv> 102"
abbreviation KEY_G :: int where "KEY_G \<equiv> 103"
abbreviation KEY_H :: int where "KEY_H \<equiv> 104"
abbreviation KEY_I :: int where "KEY_I \<equiv> 105"
abbreviation KEY_J :: int where "KEY_J \<equiv> 106"
abbreviation KEY_K :: int where "KEY_K \<equiv> 107"
abbreviation KEY_L :: int where "KEY_L \<equiv> 108"
abbreviation KEY_M :: int where "KEY_M \<equiv> 109"
abbreviation KEY_N :: int where "KEY_N \<equiv> 110"
abbreviation KEY_O :: int where "KEY_O \<equiv> 111"
abbreviation KEY_P :: int where "KEY_P \<equiv> 112"
abbreviation KEY_Q :: int where "KEY_Q \<equiv> 113"
abbreviation KEY_R :: int where "KEY_R \<equiv> 114"
abbreviation KEY_S :: int where "KEY_S \<equiv> 115"
abbreviation KEY_T :: int where "KEY_T \<equiv> 116"
abbreviation KEY_U :: int where "KEY_U \<equiv> 117"
abbreviation KEY_V :: int where "KEY_V \<equiv> 118"
abbreviation KEY_W :: int where "KEY_W \<equiv> 119"
abbreviation KEY_X :: int where "KEY_X \<equiv> 120"
abbreviation KEY_Y :: int where "KEY_Y \<equiv> 121"
abbreviation KEY_Z :: int where "KEY_Z \<equiv> 122"
abbreviation KEY_RETURN :: int where "KEY_RETURN \<equiv> 13"
abbreviation KEY_ESCAPE :: int where "KEY_ESCAPE \<equiv> 0x1001"
abbreviation KEY_BACKSPACE :: int where "KEY_BACKSPACE \<equiv> 8"
abbreviation KEY_F1 :: int where "KEY_F1 \<equiv> 0x1201"
abbreviation KEY_F2 :: int where "KEY_F2 \<equiv> 0x1202"
abbreviation KEY_F3 :: int where "KEY_F3 \<equiv> 0x1203"
abbreviation KEY_F4 :: int where "KEY_F4 \<equiv> 0x1204"
abbreviation KEY_F5 :: int where "KEY_F5 \<equiv> 0x1205"
abbreviation KEY_F6 :: int where "KEY_F6 \<equiv> 0x1206"
abbreviation KEY_F7 :: int where "KEY_F7 \<equiv> 0x1207"
abbreviation KEY_F8 :: int where "KEY_F8 \<equiv> 0x1208"
abbreviation KEY_F9 :: int where "KEY_F9 \<equiv> 0x1209"
abbreviation KEY_F10 :: int where "KEY_F10 \<equiv> 0x120a"
abbreviation KEY_F11 :: int where "KEY_F11 \<equiv> 0x120b"
abbreviation KEY_F12 :: int where "KEY_F12 \<equiv> 0x120b"
abbreviation KEY_DOT :: int where "KEY_DOT \<equiv> 46"
abbreviation KEY_COMMA :: int where "KEY_COMMA \<equiv> 44"
abbreviation KEY_COLON :: int where "KEY_COLON \<equiv> 58"
abbreviation KEY_SEMICOLON :: int where "KEY_SEMICOLON \<equiv> 59"
abbreviation KEY_SLASH :: int where "KEY_SLASH \<equiv> 47"
abbreviation KEY_BACKSLASH :: int where "KEY_BACKSLASH \<equiv> 92"
abbreviation KEY_PLUS :: int where "KEY_PLUS \<equiv> 43"
abbreviation KEY_MINUS :: int where "KEY_MINUS \<equiv> 45"
abbreviation KEY_ASTERISK :: int where "KEY_ASTERISK \<equiv> 42"
abbreviation KEY_EXCLAMATION :: int where "KEY_EXCLAMATION \<equiv> 33"
abbreviation KEY_QUESTION :: int where "KEY_QUESTION \<equiv> 63"
abbreviation KEY_QUOTEDOUBLE :: int where "KEY_QUOTEDOUBLE \<equiv> 34"
abbreviation KEY_QUOTE :: int where "KEY_QUOTE \<equiv> 39"
abbreviation KEY_EQUAL :: int where "KEY_EQUAL \<equiv> 61"
abbreviation KEY_HASH :: int where "KEY_HASH \<equiv> 35"
abbreviation KEY_PERCENT :: int where "KEY_PERCENT \<equiv> 37"
abbreviation KEY_AMPERSAND :: int where "KEY_AMPERSAND \<equiv> 38"
abbreviation KEY_UNDERSCORE :: int where "KEY_UNDERSCORE \<equiv> 95"
abbreviation KEY_LEFTPARENTHESIS :: int where "KEY_LEFTPARENTHESIS \<equiv> 40"
abbreviation KEY_RIGHTPARENTHESIS :: int where "KEY_RIGHTPARENTHESIS \<equiv> 41"
abbreviation KEY_LEFTBRACKET :: int where "KEY_LEFTBRACKET \<equiv> 91"
abbreviation KEY_RIGHTBRACKET :: int where "KEY_RIGHTBRACKET \<equiv> 93"
abbreviation KEY_LEFTCURL :: int where "KEY_LEFTCURL \<equiv> 123"
abbreviation KEY_RIGHTCURL :: int where "KEY_RIGHTCURL \<equiv> 125"
abbreviation KEY_LESS :: int where "KEY_LESS \<equiv> 60"
abbreviation KEY_GREATER :: int where "KEY_GREATER \<equiv> 62"
abbreviation KEY_BAR :: int where "KEY_BAR \<equiv> 124"
abbreviation KEY_GRAVE :: int where "KEY_GRAVE \<equiv> 96"
abbreviation KEY_TILDE :: int where "KEY_TILDE \<equiv> 126"
abbreviation KEY_AT :: int where "KEY_AT \<equiv> 64"
abbreviation KEY_CARRET :: int where "KEY_CARRET \<equiv> 94"
abbreviation KEY_KP_0 :: int where "KEY_KP_0 \<equiv> 48"
abbreviation KEY_KP_2 :: int where "KEY_KP_2 \<equiv> 50"
abbreviation KEY_KP_3 :: int where "KEY_KP_3 \<equiv> 51"
abbreviation KEY_KP_8 :: int where "KEY_KP_8 \<equiv> 56"
abbreviation KEY_KP_DECIMAL :: int where "KEY_KP_DECIMAL \<equiv> 46"
abbreviation KEY_KP_ASTERISK :: int where "KEY_KP_ASTERISK \<equiv> 42"
abbreviation KEY_KP_NUMLOCK :: int where "KEY_KP_NUMLOCK \<equiv> 0x300f"
abbreviation KEY_TAB :: int where "KEY_TAB \<equiv> 0x4000"
abbreviation KEY_CAPSLOCK :: int where "KEY_CAPSLOCK \<equiv> 0x4001"
abbreviation KEY_LSHIFT :: int where "KEY_LSHIFT \<equiv> 0x4002"
abbreviation KEY_LCTRL :: int where "KEY_LCTRL \<equiv> 0x4003"
abbreviation KEY_LALT :: int where "KEY_LALT \<equiv> 0x4004"
abbreviation KEY_RSHIFT :: int where "KEY_RSHIFT \<equiv> 0x4006"
abbreviation KEY_RCTRL :: int where "KEY_RCTRL \<equiv> 0x4007"
abbreviation KEY_RALT :: int where "KEY_RALT \<equiv> 0x4008"
abbreviation KEY_HOME :: int where "KEY_HOME \<equiv> 0x400c"
abbreviation KEY_PAGEUP :: int where "KEY_PAGEUP \<equiv> 0x400e"
abbreviation KEY_SCROLLLOCK :: int where "KEY_SCROLLLOCK \<equiv> 0x4010"
abbreviation KEY_UNKNOWN :: int where "KEY_UNKNOWN \<equiv> 0x4012"

definition kkybrd_scancode_std :: "int list" where
  "kkybrd_scancode_std =
    [KEY_UNKNOWN, KEY_ESCAPE, KEY_1, KEY_2, KEY_3, KEY_4, KEY_5, KEY_6, KEY_7, KEY_8, KEY_9, KEY_0, KEY_MINUS,
     KEY_EQUAL, KEY_BACKSPACE, KEY_TAB, KEY_Q, KEY_W, KEY_E, KEY_R, KEY_T, KEY_Y, KEY_U, KEY_I, KEY_O, KEY_P,
     KEY_LEFTBRACKET, KEY_RIGHTBRACKET, KEY_RETURN, KEY_LCTRL, KEY_A, KEY_S, KEY_D, KEY_F, KEY_G, KEY_H, KEY_J,
     KEY_K, KEY_L, KEY_SEMICOLON, KEY_QUOTE, KEY_GRAVE, KEY_LSHIFT, KEY_BACKSLASH, KEY_Z, KEY_X, KEY_C, KEY_V,
     KEY_B, KEY_N, KEY_M, KEY_COMMA, KEY_DOT, KEY_SLASH, KEY_RSHIFT, KEY_KP_ASTERISK, KEY_RALT, KEY_SPACE,
     KEY_CAPSLOCK, KEY_F1, KEY_F2, KEY_F3, KEY_F4, KEY_F5, KEY_F6, KEY_F7, KEY_F8, KEY_F9, KEY_F10,
     KEY_KP_NUMLOCK, KEY_SCROLLLOCK, KEY_HOME, KEY_KP_8, KEY_PAGEUP, KEY_KP_2, KEY_KP_3, KEY_KP_0,
     KEY_KP_DECIMAL, KEY_UNKNOWN, KEY_UNKNOWN, KEY_UNKNOWN, KEY_F11, KEY_F12]"

definition scan_key :: "int \<Rightarrow> int res" where
  "scan_key code =
     (if 0 \<le> code \<and> code < int (length kkybrd_scancode_std) then Inr (kkybrd_scancode_std ! nat code)
      else Inl Out_of_bounds)"

section \<open>State and controller\<close>

record kbd =
  k_scancode :: u8
  k_numlock :: int
  k_scrolllock :: int
  k_capslock :: int
  k_bat_res :: int
  k_diag_res :: int
  k_resend_res :: int
  k_shift :: int
  k_alt :: int
  k_ctrl :: int

definition KYBRD_ENC_INPUT_BUF :: u16 where "KYBRD_ENC_INPUT_BUF = 0x60"
definition KYBRD_ENC_CMD_REG :: u16 where "KYBRD_ENC_CMD_REG = 0x60"
definition KYBRD_CTRL_STATS_REG :: u16 where "KYBRD_CTRL_STATS_REG = 0x64"
definition KYBRD_CTRL_STATS_MASK_OUT_BUF :: u8 where "KYBRD_CTRL_STATS_MASK_OUT_BUF = 1"
definition KYBRD_CTRL_STATS_MASK_IN_BUF :: u8 where "KYBRD_CTRL_STATS_MASK_IN_BUF = 2"
definition KYBRD_ENC_CMD_SET_LED :: u8 where "KYBRD_ENC_CMD_SET_LED = 0xED"
definition KYBRD_ERR_BAT_FAILED :: int where "KYBRD_ERR_BAT_FAILED = 0xFC"
definition KYBRD_ERR_DIAG_FAILED :: int where "KYBRD_ERR_DIAG_FAILED = 0xFD"
definition KYBRD_ERR_RESEND_CMD :: int where "KYBRD_ERR_RESEND_CMD = 0xFE"

definition kbd_enc_read_buf :: "'d device \<Rightarrow> 'd \<Rightarrow> u8 \<times> 'd" where
  "kbd_enc_read_buf dv d = inb dv KYBRD_ENC_INPUT_BUF d"

definition kybrd_ctrl_read_status :: "'d device \<Rightarrow> 'd \<Rightarrow> u8 \<times> 'd" where
  "kybrd_ctrl_read_status dv d = inb dv KYBRD_CTRL_STATS_REG d"

fun wait_in_buf :: "nat \<Rightarrow> 'd device \<Rightarrow> 'd \<Rightarrow> 'd res" where
  "wait_in_buf 0 dv d = Inl Diverges"
| "wait_in_buf (Suc fuel) dv d =
     (let (v, d) = kybrd_ctrl_read_status dv d in
      if v AND KYBRD_CTRL_STATS_MASK_IN_BUF = 0 then Inr d else wait_in_buf fuel dv d)"

definition kybrd_enc_send_cmd :: "nat \<Rightarrow> 'd device \<Rightarrow> u8 \<Rightarrow> 'd \<Rightarrow> 'd res" where
  "kybrd_enc_send_cmd fuel dv cmd d = rmap (outb dv KYBRD_ENC_CMD_REG cmd) (wait_in_buf fuel dv d)"

text \<open>The byte \<^verbatim>\<open>kkybrd_set_leds\<close> computes: three assignments, each overwriting the one before.\<close>

definition leds_data :: "int \<Rightarrow> int \<Rightarrow> int \<Rightarrow> u8" where
  "leds_data num caps scroll =
     (let data = 0 :: u8;
          data = (if scroll \<noteq> 0 then data OR 1 else data AND 1);
          data = (if num \<noteq> 0 then of_int (num OR 2) else of_int (num AND 2)) :: u8;
          data = (if caps \<noteq> 0 then of_int (num OR 4) else of_int (num AND 4))
      in data)"

definition kkybrd_set_leds :: "nat \<Rightarrow> 'd device \<Rightarrow> int \<Rightarrow> int \<Rightarrow> int \<Rightarrow> 'd \<Rightarrow> 'd res" where
  "kkybrd_set_leds fuel dv num caps scroll d =
     rbind (kybrd_enc_send_cmd fuel dv KYBRD_ENC_CMD_SET_LED d)
       (kybrd_enc_send_cmd fuel dv (leds_data num caps scroll))"

section \<open>Translation to ASCII\<close>

definition digit_shift :: "int \<Rightarrow> int" where
  "digit_shift key =
     (if key = of_char CHR ''0'' then KEY_RIGHTPARENTHESIS
      else if key = of_char CHR ''1'' then KEY_EXCLAMATION
      else if key = of_char CHR ''2'' then KEY_AT
      else if key = of_char CHR ''3'' then KEY_EXCLAMATION
      else if key = of_char CHR ''4'' then KEY_HASH
      else if key = of_char CHR ''5'' then KEY_PERCENT
      else if key = of_char CHR ''6'' then KEY_CARRET
      else if key = of_char CHR ''7'' then KEY_AMPERSAND
      else if key = of_char CHR ''8'' then KEY_ASTERISK
      else if key = of_char CHR ''9'' then KEY_LEFTPARENTHESIS
      else key)"

definition sign_shift :: "int \<Rightarrow> int" where
  "sign_shift key =
     (if key = KEY_COMMA then KEY_LESS
      else if key = KEY_DOT then KEY_GREATER
      else if key = KEY_SLASH then KEY_QUESTION
      else if key = KEY_SEMICOLON then KEY_COLON
      else if key = KEY_QUOTE then KEY_QUOTEDOUBLE
      else if key = KEY_LEFTBRACKET then KEY_LEFTCURL
      else if key = KEY_RIGHTBRACKET then KEY_RIGHTCURL
      else if key = KEY_GRAVE then KEY_TILDE
      else if key = KEY_MINUS then KEY_UNDERSCORE
      else if key = KEY_PLUS then KEY_EQUAL
      else if key = KEY_BACKSLASH then KEY_BAR
      else key)"

text \<open>\<^verbatim>\<open>uint8_t key = code\<close> keeps the low byte, and the \<^verbatim>\<open>else\<close> belongs to the test for a digit.\<close>

definition kkybrd_key_to_ascii :: "kbd \<Rightarrow> int \<Rightarrow> u8" where
  "kkybrd_key_to_ascii k code =
     (let key = code mod 256 in
      if key \<le> 0x7f
      then let key = (if k_shift k \<noteq> 0 \<or> k_capslock k \<noteq> 0
                      then if of_char CHR ''a'' \<le> key \<and> key \<le> of_char CHR ''z'' then key - 32 else key
                      else key);
               key = (if k_shift k \<noteq> 0 \<and> k_capslock k = 0
                      then if of_char CHR ''0'' \<le> key \<and> key \<le> of_char CHR ''9'' then digit_shift key else sign_shift key
                      else key)
           in of_int key
      else 0)"

section \<open>The interrupt handler\<close>

definition release_mod :: "int \<Rightarrow> kbd \<Rightarrow> kbd" where
  "release_mod key k =
     (if key = KEY_LCTRL \<or> key = KEY_RCTRL then k\<lparr>k_ctrl := 0\<rparr>
      else if key = KEY_LSHIFT \<or> key = KEY_RSHIFT then k\<lparr>k_shift := 0\<rparr>
      else if key = KEY_LALT \<or> key = KEY_RALT then k\<lparr>k_alt := 0\<rparr>
      else k)"

definition toggle :: "int \<Rightarrow> int" where
  "toggle flag = (if flag \<noteq> 0 then 0 else 1)"

definition show_leds :: "nat \<Rightarrow> 'd device \<Rightarrow> kbd \<Rightarrow> 'd \<Rightarrow> (kbd \<times> 'd) res" where
  "show_leds fuel dv k d =
     rmap (\<lambda>d. (k, d)) (kkybrd_set_leds fuel dv (k_numlock k) (k_capslock k) (k_scrolllock k) d)"

definition press_key :: "nat \<Rightarrow> 'd device \<Rightarrow> int \<Rightarrow> kbd \<Rightarrow> 'd \<Rightarrow> (kbd \<times> 'd) res" where
  "press_key fuel dv key k d =
     (if key = KEY_LCTRL \<or> key = KEY_RCTRL then Inr (k\<lparr>k_ctrl := 1\<rparr>, d)
      else if key = KEY_LSHIFT \<or> key = KEY_RSHIFT then Inr (k\<lparr>k_shift := 1\<rparr>, d)
      else if key = KEY_LALT \<or> key = KEY_RALT then Inr (k\<lparr>k_alt := 1\<rparr>, d)
      else if key = KEY_CAPSLOCK then show_leds fuel dv (k\<lparr>k_capslock := toggle (k_capslock k)\<rparr>) d
      else if key = KEY_KP_NUMLOCK then show_leds fuel dv (k\<lparr>k_numlock := toggle (k_numlock k)\<rparr>) d
      else if key = KEY_SCROLLLOCK then show_leds fuel dv (k\<lparr>k_scrolllock := toggle (k_scrolllock k)\<rparr>) d
      else Inr (k, d))"

definition controller_codes :: "int \<Rightarrow> kbd \<Rightarrow> kbd" where
  "controller_codes code k =
     (if code = KYBRD_ERR_BAT_FAILED then k\<lparr>k_bat_res := 0\<rparr>
      else if code = KYBRD_ERR_DIAG_FAILED then k\<lparr>k_diag_res := 0\<rparr>
      else if code = KYBRD_ERR_RESEND_CMD then k\<lparr>k_resend_res := 1\<rparr>
      else k)"

text \<open>The handler.  A write to a full pipe puts the interrupted process to sleep inside the
  handler; the outcome \<open>Sleeps\<close> is the state at that point.\<close>

type_synonym 'd kbd_world = "kbd \<times> 'd \<times> pipe_device \<times> sched"

definition kbd_release :: "cpu \<Rightarrow> int \<Rightarrow> 'd kbd_world \<Rightarrow> (unit outcome \<times> 'd kbd_world) res" where
  "kbd_release r code w = (case w of (k, d, pipe, st) \<Rightarrow>
     (let code = code - 0x80 in
      rbind (scan_key code) (\<lambda>key.
      rbind (write_pipe r [kkybrd_key_to_ascii k key] (Some pipe) st) (\<lambda>(left, pipe, st).
      if left \<noteq> [] then Inr (Sleeps, k, d, pipe, st)
      else Inr (Returns (), controller_codes code (release_mod key k), d, pipe, st)))))"

definition kbd_press :: "nat \<Rightarrow> 'd device \<Rightarrow> int \<Rightarrow> 'd kbd_world \<Rightarrow> (unit outcome \<times> 'd kbd_world) res" where
  "kbd_press fuel dv code w = (case w of (k, d, pipe, st) \<Rightarrow>
     (let k = k\<lparr>k_scancode := of_int code\<rparr> in
      rbind (scan_key code) (\<lambda>key.
      rmap (\<lambda>(k, d). (Returns (), controller_codes code k, d, pipe, st)) (press_key fuel dv key k d))))"

definition kbd_callback :: "cpu \<Rightarrow> nat \<Rightarrow> 'd device \<Rightarrow> 'd kbd_world \<Rightarrow> (unit outcome \<times> 'd kbd_world) res" where
  "kbd_callback r fuel dv w = (case w of (k, d, pipe, st) \<Rightarrow>
     (let (status, d) = kybrd_ctrl_read_status dv d in
      if status AND KYBRD_CTRL_STATS_MASK_OUT_BUF \<noteq> 0
      then let (b, d) = kbd_enc_read_buf dv d; code = int (unat b) in
           if code = 0xe0 \<or> code = 0xe1 then Inr (Returns (), controller_codes code k, d, pipe, st)
           else if code AND 0x80 \<noteq> 0 then kbd_release r code (k, d, pipe, st)
           else kbd_press fuel dv code (k, d, pipe, st)
      else Inr (Returns (), k, d, pipe, st)))"

section \<open>The tables\<close>

lemma scancode_length: "length kkybrd_scancode_std = 83"
  by (simp add: kkybrd_scancode_std_def)

lemma scan_key_ok: "0 \<le> code \<Longrightarrow> code < 83 \<Longrightarrow> scan_key code = Inr (kkybrd_scancode_std ! nat code)"
  by (simp add: scan_key_def scancode_length)

section \<open>The flags stay flags\<close>

definition flags_ok :: "kbd \<Rightarrow> bool" where
  "flags_ok k \<longleftrightarrow> {k_numlock k, k_scrolllock k, k_capslock k, k_bat_res k, k_diag_res k, k_resend_res k,
     k_shift k, k_alt k, k_ctrl k} \<subseteq> {0, 1}"

lemma toggle_flag: "toggle f \<in> {0, 1}"
  by (simp add: toggle_def)

lemma release_mod_flags: "flags_ok k \<Longrightarrow> flags_ok (release_mod key k)"
  by (simp add: release_mod_def flags_ok_def)

lemma controller_codes_flags: "flags_ok k \<Longrightarrow> flags_ok (controller_codes code k)"
  by (simp add: controller_codes_def flags_ok_def)

lemma show_leds_state: "show_leds fuel dv k d = Inr (k', d') \<Longrightarrow> k' = k"
  by (auto simp: show_leds_def res_simps)

lemma press_key_flags:
  assumes "flags_ok k" "press_key fuel dv key k d = Inr (k', d')"
  shows "flags_ok k'"
proof -
  have t: "flags_ok (k\<lparr>k_capslock := toggle (k_capslock k)\<rparr>)" "flags_ok (k\<lparr>k_numlock := toggle (k_numlock k)\<rparr>)"
    "flags_ok (k\<lparr>k_scrolllock := toggle (k_scrolllock k)\<rparr>)" "flags_ok (k\<lparr>k_ctrl := 1\<rparr>)"
    "flags_ok (k\<lparr>k_shift := 1\<rparr>)" "flags_ok (k\<lparr>k_alt := 1\<rparr>)"
    using assms(1) toggle_flag by (simp_all add: flags_ok_def)
  show ?thesis using assms t unfolding press_key_def
    by (auto split: if_split_asm dest!: show_leds_state)
qed

lemma kbd_press_flags:
  assumes "flags_ok k" "kbd_press fuel dv code (k, d, pipe, st) = Inr (res, k', d', pipe', st')"
  shows "flags_ok k'"
proof -
  have "flags_ok (k\<lparr>k_scancode := of_int code\<rparr>)" using assms(1) by (simp add: flags_ok_def)
  then show ?thesis using assms(2)
    by (auto simp: kbd_press_def Let_def res_simps dest: press_key_flags intro: controller_codes_flags)
qed

lemma kbd_release_flags:
  "flags_ok k \<Longrightarrow> kbd_release r code (k, d, pipe, st) = Inr (res, k', d', pipe', st') \<Longrightarrow> flags_ok k'"
  by (auto simp: kbd_release_def Let_def res_simps split: if_split_asm intro: controller_codes_flags release_mod_flags)


section \<open>The lights\<close>

text \<open>The byte sent to the controller depends on the caps lock only when that is off, and then all three
  lights are off; with caps lock on, the scroll light shows the state of num lock.\<close>

lemma leds_data_flags:
  assumes "num \<in> {0, 1}" "caps \<in> {0, 1}" "scroll \<in> {0, 1}"
  shows "leds_data num caps scroll = (if caps = 0 then 0 else if num = 0 then 4 else 5)"
  using assms by (auto simp: leds_data_def)

section \<open>From the keyboard to the reader\<close>

lemma wakeup_from_empty: "l_tail q = 0 \<Longrightarrow> wakeup_from q st = Inr (q, st)"
  by (simp add: wakeup_from_def list_pop_back_def)

lemma write_copy_dead: "write_copy bs pipe = Inr (rest, pipe') \<Longrightarrow> pd_dead pipe' = pd_dead pipe"
  by (induction bs arbitrary: pipe)
     (auto simp: pipe_store_def pipe_increment_write_def Let_def res_simps split: if_split_asm)

lemma pipe_rep_queues [simp]:
  "pipe_rep (pipe\<lparr>wait_queue_readers := w\<rparr>) q = pipe_rep pipe q"
  "pipe_rep (pipe\<lparr>wait_queue_writers := w\<rparr>) q = pipe_rep pipe q"
  by (simp_all add: pipe_rep_def)

lemma release_bit: "128 \<le> n \<Longrightarrow> n < 256 \<Longrightarrow> int n AND 128 \<noteq> 0"
proof -
  assume "128 \<le> n" "n < 256"
  then have "n div 128 = 1" by (intro div_nat_eqI) simp_all
  then have "int n div 2 ^ 7 = 1" by (simp add: zdiv_int [symmetric, of n 128, simplified])
  then have "bit (int n) 7" unfolding bit_iff_odd by simp
  then have "int n AND 2 ^ 7 \<noteq> 0" unfolding and_exp_eq_0_iff_not_bit by simp
  then show ?thesis by simp
qed

text \<open>A byte written to a pipe with room, while a process waits for input.\<close>

lemma write_byte_wakes:
  assumes "pipe_rep pipe q" "length q + 1 < unat (pd_size pipe)" "\<not> pd_dead pipe"
    and "sched_rep st L rq fq sq" "waiting st L rq fq sq (wait_queue_readers pipe) (wq @ [(a, p)])" "p \<noteq> 0"
    and "kheap_room 1 (heap st)"
  shows "\<exists>pipe' st' L' b. write_pipe r [c] (Some pipe) st = Inr ([], pipe', st') \<and> pipe_rep pipe' (q @ [c])
    \<and> \<not> pd_dead pipe' \<and> wait_queue_writers pipe' = wait_queue_writers pipe
    \<and> sched_rep st' L' ((b, p) # rq) fq sq \<and> waiting st' L' ((b, p) # rq) fq sq (wait_queue_readers pipe') wq"
proof -
  obtain k where k: "unat (pd_size pipe) - 1 - length q = Suc k"
    using assms(2) by (metis Suc_eq_plus1 Suc_lessE diff_Suc_Suc add.commute diff_diff_left diff_is_0_eq not_le old.nat.exhaust)
  obtain p1 where p1: "write_copy [c] pipe = Inr ([], p1)" "pipe_rep p1 (q @ [c])"
    "wait_queue_readers p1 = wait_queue_readers pipe" "wait_queue_writers p1 = wait_queue_writers pipe"
    using write_copy_fifo [OF assms(1), of "[c]"] unfolding k by (auto simp del: write_copy.simps)
  have room: "kheap_room (Suc 0) (heap st)" using assms(7) by simp
  obtain b w st' where w: "wakeup_from (wait_queue_readers pipe) st = Inr (w, st')"
    "sched_rep st' (insert b (L - {a})) ((b, p) # rq) fq sq"
    "waiting st' (insert b (L - {a})) ((b, p) # rq) fq sq w wq"
    using wakeup_from_rep [OF assms(4,5,6) room] by blast
  show ?thesis using p1 w assms(3) write_copy_dead [OF p1(1)]
    by (intro exI [of _ "p1\<lparr>wait_queue_readers := w\<rparr>"] exI [of _ st'] exI [of _ "insert b (L - {a})"] exI [of _ b])
       (simp add: write_pipe_def write_pass_def Let_def del: write_copy.simps)
qed

text \<open>C35: A key release reaches the process that waits for input: when the controller has a release code of
  the table in its buffer and the keyboard pipe has room, the handler appends the translated
  key to the pipe and returns, the process that waited longest becomes runnable, and its read
  then returns the bytes that were in the pipe followed by the key, and empties the pipe.\<close>

theorem keyboard_to_reader:
  assumes "kybrd_ctrl_read_status dv d = (status, d1)" "status AND KYBRD_CTRL_STATS_MASK_OUT_BUF \<noteq> 0"
    and "kbd_enc_read_buf dv d1 = (code, d2)" "128 \<le> unat code" "unat code < 211"
    and "pipe_rep pipe q" "length q + 1 < unat (pd_size pipe)" "\<not> pd_dead pipe" "l_tail (wait_queue_writers pipe) = 0"
    and "sched_rep st L rq fq sq" "waiting st L rq fq sq (wait_queue_readers pipe) (wq @ [(a, p)])" "p \<noteq> 0"
    and "kheap_room 1 (heap st)" "length q + 1 \<le> unat sz"
    and c: "c = kkybrd_key_to_ascii k (kkybrd_scancode_std ! (unat code - 128))"
  shows "\<exists>k' pipe' st' L' b pipe2. kbd_callback r fuel dv (k, d, pipe, st) = Inr (Returns (), k', d2, pipe', st')
    \<and> sched_rep st' L' ((b, p) # rq) fq sq \<and> waiting st' L' ((b, p) # rq) fq sq (wait_queue_readers pipe') wq
    \<and> read_pipe r2 sz (Some pipe') st' = Inr (Returns (q @ [c]), pipe2, st') \<and> pipe_rep pipe2 []"
proof -
  obtain p1 st' L' b where w: "write_pipe r [c] (Some pipe) st = Inr ([], p1, st')" "pipe_rep p1 (q @ [c])"
    "\<not> pd_dead p1" "wait_queue_writers p1 = wait_queue_writers pipe"
    "sched_rep st' L' ((b, p) # rq) fq sq" "waiting st' L' ((b, p) # rq) fq sq (wait_queue_readers p1) wq"
    using write_byte_wakes [OF assms(6-8,10-13), of r c] by blast
  define n where "n = unat code"
  have uc: "uint code = int n" unfolding n_def by (rule uint_nat)
  have n: "128 \<le> n" "n < 211" using assms(4,5) by (simp_all add: n_def)
  have key: "scan_key (int n - 128) = Inr (kkybrd_scancode_std ! (n - 128))"
    using n by (subst scan_key_ok) (auto simp: nat_diff_distrib)
  have rel: "kbd_release r (int n) (k, d2, pipe, st) =
      Inr (Returns (), controller_codes (int n - 128) (release_mod (kkybrd_scancode_std ! (n - 128)) k), d2, p1, st')"
    using key w(1) c by (simp add: kbd_release_def Let_def n_def [symmetric])
  have cb: "kbd_callback r fuel dv (k, d, pipe, st) = kbd_release r (int n) (k, d2, pipe, st)"
    using assms(1-3) release_bit [of n] n uc
    unfolding kbd_callback_def prod.case Let_def n_def [symmetric] by (simp add: n_def [symmetric])
  obtain p2 where p2: "read_copy (unat sz) p1 = Inr (q @ [c], p2)" "pipe_rep p2 []"
    "wait_queue_writers p2 = wait_queue_writers p1"
    using read_copy_fifo [OF w(2), of "unat sz"] assms(14) by auto
  have "read_pipe r2 sz (Some p1) st' = Inr (Returns (q @ [c]), p2, st')"
    using p2(1,3) w(3,4) assms(9) by (simp add: read_pipe_def read_pass_def wakeup_from_empty Let_def)
  then show ?thesis using cb rel w(5,6) p2(2) by auto
qed

text \<open>A controller whose buffer holds one code.\<close>

definition held_code :: "u8 \<Rightarrow> unit device" where
  "held_code code =
     \<lparr>rd8 = \<lambda>port d. (if port = 0x64 then 1 else code, d), rd16 = \<lambda>_ d. (0, d), rd32 = \<lambda>_ d. (0, d),
      wr8 = \<lambda>_ _ d. d, wr16 = \<lambda>_ _ d. d, wr32 = \<lambda>_ _ d. d\<rparr>"

definition kbd_idle :: kbd where
  "kbd_idle = \<lparr>k_scancode = 0, k_numlock = 0, k_scrolllock = 0, k_capslock = 0, k_bat_res = 0, k_diag_res = 0,
     k_resend_res = 0, k_shift = 0, k_alt = 0, k_ctrl = 0\<rparr>"

lemmas kbd_ports = kybrd_ctrl_read_status_def kbd_enc_read_buf_def inb_def held_code_def
  KYBRD_CTRL_STATS_REG_def KYBRD_ENC_INPUT_BUF_def KYBRD_CTRL_STATS_MASK_OUT_BUF_def


theorem keyboard_to_reader_witness:
  "\<exists>rq st k' pipe' st' pipe2. sleep_on \<lparr>r_eip = 1, r_esp = 2, r_ebp = 3\<rparr> list_create (boot_sched 16) = Inr (rq, st)
    \<and> kbd_callback \<lparr>r_eip = 1, r_esp = 2, r_ebp = 3\<rparr> 1 (held_code 0x9e)
        (kbd_idle, (), (create_pipe [0, 0] 2)\<lparr>wait_queue_readers := rq\<rparr>, st) = Inr (Returns (), k', (), pipe', st')
    \<and> read_pipe \<lparr>r_eip = 1, r_esp = 2, r_ebp = 3\<rparr> 1 (Some pipe') st' = Inr (Returns [0x61], pipe2, st')"
proof -
  have "waiting (boot_sched 16) {} [] [] [] list_create []" by (simp add: waiting_def dlist_def list_create_def)
  moreover have "current (boot_sched 16) = 16" by (simp add: boot_sched_def)
  ultimately obtain a rq st where
    s: "sleep_on \<lparr>r_eip = 1, r_esp = 2, r_ebp = 3\<rparr> list_create (boot_sched 16) = Inr (rq, st)"
    "sched_rep st {a} [] [] []" "waiting st {a} [] [] [] rq ([] @ [(a, 16)])" "kheap_room 2 (heap st)"
    using sleep_on_idle [OF boot_sched_rep(1) _ boot_sched_rep(2), of 16 list_create "[]"
        "\<lparr>r_eip = 1, r_esp = 2, r_ebp = 3\<rparr>"] by auto
  let ?p = "(create_pipe [0, 0] 2)\<lparr>wait_queue_readers := rq\<rparr>"
  have p: "pipe_rep ?p []" "length ([] :: bytes) + 1 < unat (pd_size ?p)" "\<not> pd_dead ?p" "l_tail (wait_queue_writers ?p) = 0"
    by (simp_all add: pipe_rep_def create_pipe_def list_create_def)
  have c: "kkybrd_key_to_ascii kbd_idle (kkybrd_scancode_std ! (unat (0x9e :: u8) - 128)) = 0x61"
    by (simp add: kkybrd_key_to_ascii_def kbd_idle_def kkybrd_scancode_std_def Let_def)
  have d: "kybrd_ctrl_read_status (held_code 0x9e) () = (1, ())" "1 AND KYBRD_CTRL_STATS_MASK_OUT_BUF \<noteq> 0"
    "kbd_enc_read_buf (held_code 0x9e) () = (0x9e, ())" by (simp_all add: kbd_ports)
  have n: "128 \<le> unat (0x9e :: u8)" "unat (0x9e :: u8) < 211" "length ([] :: bytes) + 1 \<le> unat (1 :: u32)" by simp_all
  have w: "waiting st {a} [] [] [] (wait_queue_readers ?p) ([] @ [(a, 16)])" using s(3) by simp
  have z: "(16 :: u32) \<noteq> 0" "1 \<le> (2 :: nat)" by simp_all
  from keyboard_to_reader [OF d n(1,2) p s(2) w z(1) kheap_room_mono [OF s(4) z(2)] n(3) c [symmetric],
      of "\<lparr>r_eip = 1, r_esp = 2, r_ebp = 3\<rparr>" 1 "\<lparr>r_eip = 1, r_esp = 2, r_ebp = 3\<rparr>"]
  show ?thesis using s(1) unfolding append_Nil by blast
qed

end
