(* ===== verification/Mmu.thy ===== *)
theory Mmu
  imports KHeap Hal
begin

text \<open>
  Paging (\<^verbatim>\<open>src/kernel/mmu.c\<close>): page tables, page directories, mapping and unmapping of
  single pages, and the copy of an address space.  Tables and directories live in typed
  heaps by their address; physical memory is the content of each frame, addressed by the
  20-bit frame number of a page entry.  A \<^verbatim>\<open>page_t *\<close> is the address of its table with an
  index.
\<close>

section \<open>Data\<close>

type_synonym frame_no = "20 word"

record page =
  pg_present :: bool
  pg_rw :: bool
  pg_user :: bool
  pg_write_through :: bool
  pg_cache_disabled :: bool
  pg_accessed :: bool
  pg_dirty :: bool
  pg_global :: bool
  pg_unused :: "4 word"
  pg_addr :: frame_no

record paged_entry =
  pe_present :: bool
  pe_rw :: bool
  pe_user :: bool
  pe_write_through :: bool
  pe_cache_disabled :: bool
  pe_accessed :: bool
  pe_size :: bool
  pe_unused :: "5 word"
  pe_addr :: frame_no

record page_dir =
  tabls :: "u32 list"
  entries :: "paged_entry list"
  physical :: u32

record mmu =
  mheap :: kheap
  tables :: "u32 \<rightharpoonup> page list"
  dirs :: "u32 \<rightharpoonup> page_dir"
  kernel_pd :: u32
  current_pd :: u32
  cr3 :: u32
  paging :: bool
  mem :: "frame_no \<Rightarrow> bytes"
  isr_routines :: "u32 list"

definition page_zero :: page where
  "page_zero = \<lparr>pg_present = False, pg_rw = False, pg_user = False, pg_write_through = False,
     pg_cache_disabled = False, pg_accessed = False, pg_dirty = False, pg_global = False, pg_unused = 0, pg_addr = 0\<rparr>"

definition entry_zero :: paged_entry where
  "entry_zero = \<lparr>pe_present = False, pe_rw = False, pe_user = False, pe_write_through = False,
     pe_cache_disabled = False, pe_accessed = False, pe_size = False, pe_unused = 0, pe_addr = 0\<rparr>"

definition dir_zero :: page_dir where
  "dir_zero = \<lparr>tabls = replicate 1024 0, entries = replicate 1024 entry_zero, physical = 0\<rparr>"

definition PAGE_ALIGN :: "u32 \<Rightarrow> u32" where
  "PAGE_ALIGN addr = (addr + 4096 - 1) AND NOT (4096 - 1)"

definition PAGE_TABLE_INDEX :: "u32 \<Rightarrow> nat" where
  "PAGE_TABLE_INDEX x = unat (drop_bit 12 x AND 0x3ff)"

definition PAGE_DIRECTORY_INDEX :: "u32 \<Rightarrow> nat" where
  "PAGE_DIRECTORY_INDEX x = unat (drop_bit 22 x AND 0x3ff)"

text \<open>Reads and writes through pointers.\<close>

definition dir_at :: "mmu \<Rightarrow> u32 \<Rightarrow> page_dir res" where
  "dir_at st a = (case dirs st a of None \<Rightarrow> Inl Null_deref | Some d \<Rightarrow> Inr d)"

definition tabl_at :: "mmu \<Rightarrow> u32 \<Rightarrow> page list res" where
  "tabl_at st a = (case tables st a of None \<Rightarrow> Inl Null_deref | Some t \<Rightarrow> Inr t)"

definition page_at :: "mmu \<Rightarrow> u32 \<times> nat \<Rightarrow> page res" where
  "page_at st p = (case p of (t, i) \<Rightarrow>
     rbind (tabl_at st t) (\<lambda>ps. if i < length ps then Inr (ps ! i) else Inl Out_of_bounds))"

definition set_page :: "u32 \<times> nat \<Rightarrow> page \<Rightarrow> mmu \<Rightarrow> mmu res" where
  "set_page p v st = (case p of (t, i) \<Rightarrow>
     rbind (tabl_at st t) (\<lambda>ps.
     if i < length ps then Inr (st\<lparr>tables := (tables st)(t \<mapsto> ps[i := v])\<rparr>) else Inl Out_of_bounds))"

definition set_frames :: "frames \<Rightarrow> mmu \<Rightarrow> mmu" where
  "set_frames f st = st\<lparr>mheap := (mheap st)\<lparr>kframes := f\<rparr>\<rparr>"

section \<open>Operations\<close>

definition page_dir_switch :: "u32 \<Rightarrow> mmu \<Rightarrow> mmu res" where
  "page_dir_switch dir st =
     rmap (\<lambda>d. st\<lparr>current_pd := dir, cr3 := physical d, paging := True\<rparr>) (dir_at st dir)"

definition enable_paging :: "mmu \<Rightarrow> mmu" where
  "enable_paging st = st\<lparr>paging := True\<rparr>"

text \<open>\<^verbatim>\<open>page->addr << 12 + offset\<close> shifts by \<^verbatim>\<open>12 + offset\<close>; a shift by the width of the type or more
  has no defined value.\<close>

definition get_physaddr :: "mmu \<Rightarrow> u32 \<Rightarrow> u32 res" where
  "get_physaddr st virtualaddr =
     (let pdidx = unat (drop_bit 22 virtualaddr);
          ptidx = unat (drop_bit 12 virtualaddr AND 0x03ff);
          offset = unat (virtualaddr AND 0xfff) in
      rbind (dir_at st (kernel_pd st)) (\<lambda>d.
      rbind (page_at st (tabls d ! pdidx, ptidx)) (\<lambda>page.
      if 12 + offset < 32 then Inr (push_bit (12 + offset) (ucast (pg_addr page))) else Inl Signed_overflow)))"

definition kmalloc_table :: "u32 \<Rightarrow> mmu \<Rightarrow> (u32 \<times> u32 \<times> mmu) res" where
  "kmalloc_table sz st =
     rbind (kmalloc_i (get_physaddr st) sz True True (mheap st)) (\<lambda>(a, phys, kh).
     if a = 0 then Inl Null_deref else Inr (a, phys, st\<lparr>mheap := kh\<rparr>))"

definition get_page :: "u32 \<Rightarrow> bool \<Rightarrow> u32 \<Rightarrow> mmu \<Rightarrow> ((u32 \<times> nat) option \<times> mmu) res" where
  "get_page virt mk dir st =
     (let pdidx = PAGE_DIRECTORY_INDEX virt in
      if \<not> pdidx < 1024 then Inl Panic
      else rbind (dir_at st dir) (\<lambda>d.
      let tabl = tabls d ! pdidx in
      if tabl \<noteq> 0 then Inr (Some (tabl, PAGE_TABLE_INDEX virt), st)
      else if mk then
        rbind (kmalloc_table 4096 st) (\<lambda>(n, phys, st).
        let entry = (entries d ! pdidx)\<lparr>pe_present := True, pe_rw := True, pe_user := True,
                      pe_addr := ucast (drop_bit 12 phys)\<rparr>;
            d = d\<lparr>tabls := (tabls d)[pdidx := n], entries := (entries d)[pdidx := entry]\<rparr> in
        Inr (Some (n, PAGE_TABLE_INDEX virt),
             st\<lparr>tables := (tables st)(n \<mapsto> replicate 1024 page_zero), dirs := (dirs st)(dir \<mapsto> d)\<rparr>))
      else Inr (None, st)))"

text \<open>The body of \<^verbatim>\<open>page_map\<close> on the page itself.\<close>

definition page_fill :: "page \<Rightarrow> bool \<Rightarrow> bool \<Rightarrow> frames \<Rightarrow> (page \<times> frames) res" where
  "page_fill page kern rw fr =
     (if pg_addr page \<noteq> 0 then Inr (page, fr)
      else rmap (\<lambda>(f, fr). (page_zero\<lparr>pg_rw := rw, pg_user := \<not> kern, pg_present := True, pg_addr := ucast f\<rparr>, fr))
             (alloc_frame fr))"

definition page_map :: "(u32 \<times> nat) option \<Rightarrow> bool \<Rightarrow> bool \<Rightarrow> mmu \<Rightarrow> mmu res" where
  "page_map page kern rw st =
     (case page of
        None \<Rightarrow> Inl Panic
      | Some p \<Rightarrow>
          rbind (page_at st p) (\<lambda>pg.
          rbind (page_fill pg kern rw (kframes (mheap st))) (\<lambda>(pg, fr).
          set_page p pg (set_frames fr st))))"

definition page_unmap :: "(u32 \<times> nat) option \<Rightarrow> mmu \<Rightarrow> mmu res" where
  "page_unmap page st =
     (case page of
        None \<Rightarrow> Inl Panic
      | Some p \<Rightarrow>
          rbind (page_at st p) (\<lambda>pg.
          rbind (free_frame (ucast (pg_addr pg)) (kframes (mheap st))) (\<lambda>fr.
          set_page p (pg\<lparr>pg_addr := 0\<rparr>) (set_frames fr st))))"

definition page_identical_map :: "u32 \<times> nat \<Rightarrow> bool \<Rightarrow> bool \<Rightarrow> u32 \<Rightarrow> mmu \<Rightarrow> mmu res" where
  "page_identical_map p kern rw virt st =
     rbind (page_at st p) (\<lambda>pg.
     if pg_addr pg \<noteq> 0 then Inr st
     else rbind (set_page p (page_zero\<lparr>pg_rw := rw, pg_user := \<not> kern, pg_present := True,
                               pg_addr := ucast (drop_bit 12 virt)\<rparr>) st) (\<lambda>st.
          rmap (\<lambda>fr. set_frames fr st) (get_frame (drop_bit 12 virt) (kframes (mheap st)))))"

text \<open>\<^verbatim>\<open>copy_page_physical\<close> of \<^verbatim>\<open>src/kernel/misc.asm\<close> copies 1024 words between two frames.\<close>

definition copy_page_physical :: "u32 \<Rightarrow> u32 \<Rightarrow> (frame_no \<Rightarrow> bytes) \<Rightarrow> frame_no \<Rightarrow> bytes" where
  "copy_page_physical src dst m = m(ucast (drop_bit 12 dst) := m (ucast (drop_bit 12 src)))"

definition copy_flags :: "page \<Rightarrow> page \<Rightarrow> page" where
  "copy_flags src pg = pg\<lparr>pg_present := pg_present src \<or> pg_present pg, pg_rw := pg_rw src \<or> pg_rw pg,
     pg_user := pg_user src \<or> pg_user pg, pg_accessed := pg_accessed src \<or> pg_accessed pg,
     pg_dirty := pg_dirty src \<or> pg_dirty pg\<rparr>"

fun clone_pages :: "page list \<Rightarrow> frames \<Rightarrow> (frame_no \<Rightarrow> bytes) \<Rightarrow> (page list \<times> frames \<times> (frame_no \<Rightarrow> bytes)) res" where
  "clone_pages [] fr m = Inr ([], fr, m)"
| "clone_pages (src # ps) fr m =
     (if pg_addr src = 0 then rmap (\<lambda>(qs, fr, m). (page_zero # qs, fr, m)) (clone_pages ps fr m)
      else rbind (page_fill page_zero False False fr) (\<lambda>(pg, fr).
           let pg = copy_flags src pg;
               m = copy_page_physical (ucast (pg_addr src) * 0x1000) (ucast (pg_addr pg) * 0x1000) m in
           rmap (\<lambda>(qs, fr, m). (pg # qs, fr, m)) (clone_pages ps fr m)))"

definition table_clone :: "u32 \<Rightarrow> mmu \<Rightarrow> (u32 \<times> u32 \<times> mmu) res" where
  "table_clone src st =
     rbind (kmalloc_table 4096 st) (\<lambda>(tabl, phys, st).
     rbind (tabl_at st src) (\<lambda>ps.
     rbind (clone_pages ps (kframes (mheap st)) (mem st)) (\<lambda>(qs, fr, m).
     Inr (tabl, phys, (set_frames fr st)\<lparr>tables := (tables st)(tabl \<mapsto> qs), mem := m\<rparr>))))"

definition set_dir :: "u32 \<Rightarrow> nat \<Rightarrow> u32 \<Rightarrow> paged_entry \<Rightarrow> mmu \<Rightarrow> mmu res" where
  "set_dir dir i tabl entry st =
     rmap (\<lambda>d. st\<lparr>dirs := (dirs st)(dir \<mapsto> d\<lparr>tabls := (tabls d)[i := tabl], entries := (entries d)[i := entry]\<rparr>)\<rparr>)
       (dir_at st dir)"

fun dir_clone_loop :: "nat \<Rightarrow> nat \<Rightarrow> u32 \<Rightarrow> u32 \<Rightarrow> mmu \<Rightarrow> mmu res" where
  "dir_clone_loop 0 i src dir st = Inr st"
| "dir_clone_loop (Suc n) i src dir st =
     rbind (dir_at st src) (\<lambda>s.
     rbind (dir_at st (kernel_pd st)) (\<lambda>k.
     rbind (dir_at st dir) (\<lambda>d.
     if tabls s ! i = 0 then dir_clone_loop n (Suc i) src dir st
     else if tabls k ! i = tabls s ! i
     then rbind (set_dir dir i (tabls s ! i) (entries s ! i) st) (dir_clone_loop n (Suc i) src dir)
     else rbind (table_clone (tabls s ! i) st) (\<lambda>(tabl, phys, st).
          let entry = (entries d ! i)\<lparr>pe_addr := ucast (drop_bit 12 phys), pe_present := True, pe_rw := True,
                        pe_user := True\<rparr> in
          rbind (set_dir dir i tabl entry st) (dir_clone_loop n (Suc i) src dir)))))"

definition page_dir_clone :: "u32 \<Rightarrow> mmu \<Rightarrow> (u32 \<times> mmu) res" where
  "page_dir_clone src st =
     rbind (kmalloc_table 8196 st) (\<lambda>(dir, phys, st).
     let st = st\<lparr>dirs := (dirs st)(dir \<mapsto> dir_zero\<lparr>physical := phys + 4096\<rparr>)\<rparr> in
     rmap (\<lambda>st. (dir, st)) (dir_clone_loop 1024 0 src dir st))"

text \<open>The loops over pages: the condition is tested before each round.\<close>

fun page_loop :: "nat \<Rightarrow> (u32 \<Rightarrow> 's \<Rightarrow> bool) \<Rightarrow> (u32 \<Rightarrow> 's \<Rightarrow> 's res) \<Rightarrow> u32 \<Rightarrow> 's \<Rightarrow> 's res" where
  "page_loop 0 cond body virt st = Inl Diverges"
| "page_loop (Suc fuel) cond body virt st =
     (if cond virt st then rbind (body virt st) (page_loop fuel cond body (virt + 0x1000)) else Inr st)"

definition KHEAP_START :: u32 where "KHEAP_START = 0xc0000000"
definition KHEAP_INITIAL_SIZE :: u32 where "KHEAP_INITIAL_SIZE = 0x2000000"
definition KHEAP_MAX_SIZE :: u32 where "KHEAP_MAX_SIZE = 0x10000000"

definition make_page :: "u32 \<Rightarrow> mmu \<Rightarrow> mmu res" where
  "make_page virt st = rmap snd (get_page virt True (kernel_pd st) st)"

definition map_page :: "bool \<Rightarrow> u32 \<Rightarrow> mmu \<Rightarrow> mmu res" where
  "map_page mk virt st =
     rbind (get_page virt mk (kernel_pd st) st) (\<lambda>(page, st). page_map page True False st)"

definition identical_page :: "u32 \<Rightarrow> mmu \<Rightarrow> mmu res" where
  "identical_page virt st =
     rbind (get_page virt True (kernel_pd st) st) (\<lambda>(page, st).
     case page of None \<Rightarrow> Inl Panic | Some p \<Rightarrow> page_identical_map p True False virt st)"

text \<open>\<^verbatim>\<open>mmu_init\<close> after \<^verbatim>\<open>frame_init\<close>; \<open>page_fault\<close> is the address of the handler, \<open>fb\<close> and \<open>fb_length\<close> describe the frame buffer.  The fuel of a loop is
  the number of pages of the address space.\<close>

definition mmu_init :: "u32 \<Rightarrow> u32 \<Rightarrow> u32 \<Rightarrow> mmu \<Rightarrow> mmu res" where
  "mmu_init page_fault fb fb_length st =
     (let fuel = 2 ^ 20 + 1 in
      rbind (kmalloc_i (get_physaddr st) 8196 True False (mheap st)) (\<lambda>(k, _, kh).
      if k AND 0xfff \<noteq> 0 then Inl Panic
      else let st = st\<lparr>mheap := kh, kernel_pd := k, dirs := (dirs st)(k \<mapsto> dir_zero\<lparr>physical := k + 4096\<rparr>)\<rparr> in
      rbind (page_loop fuel (\<lambda>v _. v < KHEAP_START + KHEAP_MAX_SIZE) make_page KHEAP_START st) (\<lambda>st.
      rbind (page_loop fuel (\<lambda>v _. v < fb + fb_length) make_page fb st) (\<lambda>st.
      rbind (page_loop fuel (\<lambda>v st. v < placement_addr (kframes (mheap st)) + 0x1000) (map_page True) 0 st) (\<lambda>st.
      rbind (page_loop fuel (\<lambda>v _. v < KHEAP_START + KHEAP_INITIAL_SIZE) (map_page False) KHEAP_START st) (\<lambda>st.
      rbind (page_loop fuel (\<lambda>v _. v < fb + fb_length) identical_page fb st) (\<lambda>st.
      let st = st\<lparr>isr_routines := isrs_install_handler 14 page_fault (isr_routines st)\<rparr> in
      rbind (page_dir_switch (kernel_pd st) st) (\<lambda>st.
      let st = st\<lparr>mheap := kmalloc_init 0xc0000000 (mheap st)\<rparr> in
      rbind (page_dir_clone (kernel_pd st) st) (\<lambda>(c, st).
      page_dir_switch c (st\<lparr>current_pd := c\<rparr>))))))))))"

section \<open>Indices\<close>

lemma index_less [simp]: "PAGE_TABLE_INDEX v < 1024" "PAGE_DIRECTORY_INDEX v < 1024"
proof -
  have "unat (w AND 0x3ff :: u32) < 1024" for w
    using and_mask_take_bit(5) [of w] take_bit_nat_less_exp [of 10 "unat w"] by (simp add: unsigned_take_bit_eq)
  then show "PAGE_TABLE_INDEX v < 1024" "PAGE_DIRECTORY_INDEX v < 1024"
    by (simp_all add: PAGE_TABLE_INDEX_def PAGE_DIRECTORY_INDEX_def)
qed

text \<open>The two indices and the offset are the digits of an address.\<close>

lemma index_digits: "unat v = PAGE_DIRECTORY_INDEX v * 2 ^ 22 + PAGE_TABLE_INDEX v * 2 ^ 12 + unat v mod 4096"
proof -
  have "unat (w AND 0x3ff :: u32) = unat w mod 1024" for w
    using and_mask_take_bit(5) [of w] by (simp add: take_bit_eq_mod unat_mod)
  then have t: "PAGE_TABLE_INDEX v = unat v div 4096 mod 1024"
    and d: "PAGE_DIRECTORY_INDEX v = unat v div 4194304 mod 1024"
    by (simp_all add: PAGE_TABLE_INDEX_def PAGE_DIRECTORY_INDEX_def drop_bit_eq_div unat_div)
  have "unat v div 4194304 < 1024" using u32_bound [of v] by simp
  then have d': "PAGE_DIRECTORY_INDEX v = unat v div 4194304" using d by simp
  have q: "unat v div 4194304 = unat v div 4096 div 1024" by (simp add: div_mult2_eq [symmetric])
  have "n = c * 2 ^ 22 + b * 2 ^ 12 + r" if "q * 4096 + r = n" "c * 1024 + b = q" for n q c b r :: nat
    using that by simp
  from this [OF div_mult_mod_eq [of "unat v" 4096] div_mult_mod_eq [of "unat v div 4096" 1024]]
  show ?thesis unfolding t d' q .
qed

section \<open>Copying a page table\<close>

definition mapped :: "page list \<Rightarrow> frame_no list" where
  "mapped ps = filter (\<lambda>f. f \<noteq> 0) (map pg_addr ps)"

definition frame_set :: "page list \<Rightarrow> nat set" where
  "frame_set ps = unat ` set (mapped ps)"

text \<open>Frame 0 is never free, and every frame number fits an entry.\<close>

definition frames_ok :: "frames \<Rightarrow> bool" where
  "frames_ok fr \<longleftrightarrow> frame_inv fr \<and> 32 * length (frame_map fr) \<le> 2 ^ 20 \<and> 0 \<in> used_set fr"

definition frame_dims :: "frames \<Rightarrow> u32 \<times> nat" where
  "frame_dims fr = (max_frames fr, length (frame_map fr))"

definition free_set :: "frames \<Rightarrow> nat set" where
  "free_set fr = {..<32 * length (frame_map fr)} - used_set fr"

lemma mapped_simps [simp]:
  "mapped [] = []" "mapped (p # ps) = (if pg_addr p = 0 then mapped ps else pg_addr p # mapped ps)"
  by (simp_all add: mapped_def)

lemma alloc_frame_fresh:
  assumes "frames_ok fr" "free_set fr \<noteq> {}"
  shows "\<exists>f fr'. alloc_frame fr = Inr (f, fr') \<and> unat (ucast f :: frame_no) \<notin> used_set fr
    \<and> used_set fr' = insert (unat (ucast f :: frame_no)) (used_set fr) \<and> (ucast f :: frame_no) \<noteq> 0
    \<and> frames_ok fr' \<and> card (free_set fr) = Suc (card (free_set fr')) \<and> frame_dims fr' = frame_dims fr"
proof -
  obtain g where "g < 32 * length (frame_map fr)" "\<not> frame_used fr g"
    using assms(2) by (auto simp: free_set_def used_set_def)
  moreover have i: "frame_inv fr" "32 * length (frame_map fr) \<le> 2 ^ 20" "0 \<in> used_set fr"
    using assms(1) by (simp_all add: frames_ok_def)
  ultimately obtain m fr' where *: "alloc_frame fr = Inr (of_nat m, fr')" "\<not> frame_used fr m"
    "m < 32 * length (frame_map fr)" "used_set fr' = insert m (used_set fr)" "used_frames fr' = used_frames fr + 1"
    "max_frames fr' = max_frames fr" "length (frame_map fr') = length (frame_map fr)"
    using alloc_frame_ok [of fr g] by (auto simp: frame_inv_def)
  have u: "unat (ucast (of_nat m :: u32) :: frame_no) = m"
    using *(3) i(2) by (simp add: unsigned_ucast_eq unat_of_nat take_bit_nat_eq_self)
  have m: "m \<notin> used_set fr" using *(2) by (simp add: used_set_def)
  then have m0: "m \<noteq> 0" using i(3) by metis
  have nz: "(ucast (of_nat m :: u32) :: frame_no) \<noteq> 0" using u m0 by (metis unsigned_0)
  have "card (used_set fr') = Suc (card (used_set fr))" using *(4) m by simp
  then have "frames_ok fr'" using *(4-7) i
    by (simp add: frames_ok_def frame_inv_def small_map_def)
  moreover have "free_set fr = insert m (free_set fr')" "m \<notin> free_set fr'"
    using *(3,4,7) m by (auto simp: free_set_def)
  moreover have "frame_dims fr' = frame_dims fr" using *(6,7) by (simp add: frame_dims_def)
  ultimately show ?thesis using *(1,4) u m nz by (intro exI [of _ "of_nat m"] exI [of _ fr']) (simp add: free_set_def)
qed

text \<open>A copied entry: an empty entry stays empty, any other gets a frame of its own with the content of
  the frame it copies and at least the rights of that entry.\<close>

definition copy_of :: "(frame_no \<Rightarrow> bytes) \<Rightarrow> page \<Rightarrow> page \<Rightarrow> bool" where
  "copy_of m src pg \<longleftrightarrow>
     (if pg_addr src = 0 then pg = page_zero
      else pg_addr pg \<noteq> 0 \<and> m (pg_addr pg) = m (pg_addr src) \<and> pg_present pg \<and> pg_user pg
        \<and> pg_rw pg = pg_rw src \<and> pg_accessed pg = pg_accessed src \<and> pg_dirty pg = pg_dirty src)"

lemma copy_page_frames:
  "copy_page_physical (ucast (a :: frame_no) * 0x1000) (ucast (b :: frame_no) * 0x1000) m = m(b := m a)"
proof -
  have "ucast (drop_bit 12 (ucast (f :: frame_no) * 0x1000 :: u32)) = f" for f
  proof -
    have "(ucast f * 0x1000 :: u32) = push_bit 12 (ucast f)" by (simp add: push_bit_eq_mult)
    then show ?thesis by (simp only:) (rule bit_eqI, auto simp: bit_simps)
  qed
  then show ?thesis by (simp add: copy_page_physical_def)
qed

lemma copy_of_zero: "pg_addr p = 0 \<Longrightarrow> copy_of m p page_zero" "pg_addr page_zero = 0"
  by (simp_all add: copy_of_def page_zero_def)

lemma clone_pages_ok:
  assumes "frames_ok fr" "length (mapped ps) \<le> card (free_set fr)" "frame_set ps \<subseteq> used_set fr"
  shows "\<exists>qs fr' m'. clone_pages ps fr m = Inr (qs, fr', m') \<and> list_all2 (copy_of m') ps qs
    \<and> distinct (mapped qs) \<and> frame_set qs \<inter> used_set fr = {} \<and> used_set fr' = used_set fr \<union> frame_set qs
    \<and> frames_ok fr' \<and> (\<forall>f. unat f \<in> used_set fr \<longrightarrow> m' f = m f)
    \<and> card (free_set fr) = length (mapped ps) + card (free_set fr')"
  using assms
proof (induction ps arbitrary: fr m)
  case Nil
  then show ?case by (simp add: frame_set_def)
next
  case (Cons p ps)
  show ?case
  proof (cases "pg_addr p = 0")
    case True
    then obtain qs fr' m' where "clone_pages ps fr m = Inr (qs, fr', m')" "list_all2 (copy_of m') ps qs"
      "distinct (mapped qs)" "frame_set qs \<inter> used_set fr = {}" "used_set fr' = used_set fr \<union> frame_set qs"
      "frames_ok fr'" "\<forall>f. unat f \<in> used_set fr \<longrightarrow> m' f = m f"
      "card (free_set fr) = length (mapped ps) + card (free_set fr')"
      using Cons.IH [of fr m] Cons.prems by (auto simp: frame_set_def)
    then show ?thesis using True
      by (intro exI [of _ "page_zero # qs"] exI [of _ fr'] exI [of _ m'])
         (simp add: copy_of_zero frame_set_def)
  next
    case False
    have "free_set fr \<noteq> {}" using Cons.prems(2) False by auto
    then obtain f fr1 where f: "alloc_frame fr = Inr (f, fr1)" "unat (ucast f :: frame_no) \<notin> used_set fr"
      "used_set fr1 = insert (unat (ucast f :: frame_no)) (used_set fr)" "(ucast f :: frame_no) \<noteq> 0" "frames_ok fr1"
      "card (free_set fr) = Suc (card (free_set fr1))"
      using alloc_frame_fresh [OF Cons.prems(1)] by blast
    let ?a = "ucast f :: frame_no"
    let ?pg = "copy_flags p (page_zero\<lparr>pg_rw := False, pg_user := True, pg_present := True, pg_addr := ?a\<rparr>)"
    let ?m = "m(?a := m (pg_addr p))"
    have p: "unat (pg_addr p) \<in> used_set fr" "frame_set ps \<subseteq> used_set fr1" "length (mapped ps) \<le> card (free_set fr1)"
      using Cons.prems(2,3) False f(3,6) by (auto simp: frame_set_def)
    obtain qs fr' m' where q: "clone_pages ps fr1 ?m = Inr (qs, fr', m')" "list_all2 (copy_of m') ps qs"
      "distinct (mapped qs)" "frame_set qs \<inter> used_set fr1 = {}" "used_set fr' = used_set fr1 \<union> frame_set qs"
      "frames_ok fr'" "\<forall>g. unat g \<in> used_set fr1 \<longrightarrow> m' g = ?m g"
      "card (free_set fr1) = length (mapped ps) + card (free_set fr')"
      using Cons.IH [OF f(5) p(3,2), of ?m] by blast
    have pa: "pg_addr ?pg = ?a" by (simp add: copy_flags_def)
    have ne: "pg_addr p \<noteq> ?a" using p(1) f(2) by metis
    have m': "m' ?a = m (pg_addr p)" "m' (pg_addr p) = m (pg_addr p)"
      using q(7) f(3) p(1) ne by auto
    have "clone_pages (p # ps) fr m = Inr (?pg # qs, fr', m')"
      using f(1) q(1) False by (simp add: page_fill_def page_zero_def copy_page_frames Let_def copy_flags_def)
    moreover have "copy_of m' p ?pg"
      using False f(4) m' by (simp add: copy_of_def copy_flags_def page_zero_def)
    moreover have "distinct (mapped (?pg # qs))"
      using q(3,4) f(3,4) by (auto simp: pa frame_set_def)
    moreover have "frame_set (?pg # qs) = insert (unat ?a) (frame_set qs)" using f(4) by (simp add: pa frame_set_def)
    moreover have "\<forall>g. unat g \<in> used_set fr \<longrightarrow> m' g = m g" using q(7) f(2,3) by auto
    moreover have "card (free_set fr) = length (mapped (p # ps)) + card (free_set fr')" using q(8) f(6) False by simp
    ultimately show ?thesis using q(2,4-6) f(2,3)
      by (intro exI [of _ "?pg # qs"] exI [of _ fr'] exI [of _ m']) auto
  qed
qed

section \<open>Memory for tables\<close>

text \<open>The kernel heap can grow by \<open>n\<close> more bytes, and the tables of its address range exist.\<close>

definition huge_room :: "kheap \<Rightarrow> nat \<Rightarrow> bool" where
  "huge_room kh n \<longleftrightarrow> dlist (huge_queue kh) (nodes kh) [] \<and> kmalloc_start (ks kh) \<noteq> 0
     \<and> (\<exists>P F Q. slab_inv (ks kh) P F Q) \<and> 0xc0000000 \<le> unat (kmalloc_end (ks kh))
     \<and> unat (kmalloc_end (ks kh)) + n \<le> 0xd0000000"

definition kernel_mapped :: "mmu \<Rightarrow> bool" where
  "kernel_mapped st \<longleftrightarrow> (\<exists>k. dirs st (kernel_pd st) = Some k \<and>
     (\<forall>i. 768 \<le> i \<and> i < 832 \<longrightarrow> (\<exists>ps. tables st (tabls k ! i) = Some ps \<and> length ps = 1024)))"

definition tables_below :: "mmu \<Rightarrow> bool" where
  "tables_below st \<longleftrightarrow> (\<forall>a\<in>dom (tables st). unat a < unat (kmalloc_end (ks (mheap st))))"

lemma get_physaddr_ok:
  assumes "kernel_mapped st" "page_aligned a" "0xc0000000 \<le> unat a" "unat a < 0xd0000000"
  shows "\<exists>p. get_physaddr st a = Inr p"
proof -
  obtain k where k: "dirs st (kernel_pd st) = Some k"
    "\<forall>i. 768 \<le> i \<and> i < 832 \<longrightarrow> (\<exists>ps. tables st (tabls k ! i) = Some ps \<and> length ps = 1024)"
    using assms(1) by (auto simp: kernel_mapped_def)
  have "unat (drop_bit 22 a) = unat a div 4194304" by (simp add: drop_bit_eq_div unat_div)
  then have "768 \<le> unat (drop_bit 22 a)" "unat (drop_bit 22 a) < 832" using assms(3,4) by simp_all
  then obtain ps where ps: "tables st (tabls k ! unat (drop_bit 22 a)) = Some ps" "length ps = 1024" using k(2) by blast
  have "a AND 0xfff = take_bit 12 a" by (rule and_mask_take_bit(4))
  then have "unat (a AND 0xfff) = 0"
    using assms(2) by (simp add: page_aligned_def take_bit_eq_mod unat_mod)
  then show ?thesis using k(1) ps index_less(1) [of a]
    by (simp add: get_physaddr_def dir_at_def page_at_def tabl_at_def PAGE_TABLE_INDEX_def)
qed

lemma kmalloc_table_ok:
  assumes "huge_room (mheap st) (unat sz + 0x4000 + r)" "kernel_mapped st" "4080 < unat sz"
  shows "\<exists>t phys kh. kmalloc_table sz st = Inr (t, phys, st\<lparr>mheap := kh\<rparr>) \<and> huge_room kh r
    \<and> kframes kh = kframes (mheap st) \<and> unat (kmalloc_end (ks (mheap st))) < unat t
    \<and> unat t < unat (kmalloc_end (ks kh)) \<and> kheap_keeps (mheap st) kh"
proof -
  let ?kh = "mheap st"
  obtain P F Q where h: "dlist (huge_queue ?kh) (nodes ?kh) []" "kmalloc_start (ks ?kh) \<noteq> 0" "slab_inv (ks ?kh) P F Q"
    "0xc0000000 \<le> unat (kmalloc_end (ks ?kh))" "unat (kmalloc_end (ks ?kh)) + (unat sz + 0x4000 + r) \<le> 0xd0000000"
    using assms(1) by (auto simp: huge_room_def)
  then obtain t kh where t: "kmalloc sz ?kh = Inr (t, kh)" "page_aligned t" "unat (kmalloc_end (ks ?kh)) < unat t"
    "unat t + unat sz \<le> unat (kmalloc_end (ks kh))" "slab_inv (ks kh) P F Q"
    "kmalloc_start (ks kh) = kmalloc_start (ks ?kh)"
    "unat (kmalloc_end (ks kh)) \<le> unat (kmalloc_end (ks ?kh)) + unat sz + 0x4000"
    "kframes kh = kframes ?kh" "nodes kh = nodes ?kh" "huge_queue kh = huge_queue ?kh"
    using kmalloc_huge_block [OF h(1,2) assms(3) h(3)] by auto
  have "unat t < 0xd0000000" "0xc0000000 \<le> unat t" using t(3,4,7) h(4,5) assms(3) by linarith+
  then obtain phys where "get_physaddr st t = Inr phys" using get_physaddr_ok [OF assms(2) t(2)] by blast
  moreover have "t \<noteq> 0" using t(3) by auto
  moreover have "huge_room kh r" using h t by (auto simp: huge_room_def)
  moreover have "kheap_keeps ?kh kh" using kmalloc_huge_keeps [OF h(1) assms(3) _ _ t(1) h(2,3)] h(4,5) by simp
  ultimately show ?thesis using t h(2) assms(3)
    by (auto simp: kmalloc_table_def kmalloc_i_def)
qed

lemma table_clone_ok:
  assumes "huge_room (mheap st) (0x5000 + r)" "kernel_mapped st" "tables_below st" "tables st src = Some ps"
    and "frames_ok (kframes (mheap st))" "length (mapped ps) \<le> card (free_set (kframes (mheap st)))"
    and "frame_set ps \<subseteq> used_set (kframes (mheap st))"
  shows "\<exists>t phys kh qs m'. table_clone src st = Inr (t, phys, st\<lparr>mheap := kh, tables := (tables st)(t \<mapsto> qs), mem := m'\<rparr>)
    \<and> t \<noteq> 0 \<and> tables st t = None \<and> unat t < unat (kmalloc_end (ks kh)) \<and> unat (kmalloc_end (ks (mheap st))) \<le> unat (kmalloc_end (ks kh))
    \<and> huge_room kh r \<and> list_all2 (copy_of m') ps qs \<and> distinct (mapped qs)
    \<and> frame_set qs \<inter> used_set (kframes (mheap st)) = {}
    \<and> used_set (kframes kh) = used_set (kframes (mheap st)) \<union> frame_set qs \<and> frames_ok (kframes kh)
    \<and> (\<forall>f. unat f \<in> used_set (kframes (mheap st)) \<longrightarrow> m' f = mem st f)
    \<and> card (free_set (kframes (mheap st))) = length (mapped ps) + card (free_set (kframes kh))
    \<and> kheap_keeps (mheap st) kh"
proof -
  obtain t phys kh where t: "kmalloc_table 4096 st = Inr (t, phys, st\<lparr>mheap := kh\<rparr>)" "huge_room kh r"
    "kframes kh = kframes (mheap st)" "unat (kmalloc_end (ks (mheap st))) < unat t" "unat t < unat (kmalloc_end (ks kh))" "kheap_keeps (mheap st) kh"
    using kmalloc_table_ok [of st 4096 r] assms(1,2) by auto
  obtain qs fr' m' where c: "clone_pages ps (kframes (mheap st)) (mem st) = Inr (qs, fr', m')" "list_all2 (copy_of m') ps qs"
    "distinct (mapped qs)" "frame_set qs \<inter> used_set (kframes (mheap st)) = {}"
    "used_set fr' = used_set (kframes (mheap st)) \<union> frame_set qs" "frames_ok fr'"
    "\<forall>f. unat f \<in> used_set (kframes (mheap st)) \<longrightarrow> m' f = mem st f"
    "card (free_set (kframes (mheap st))) = length (mapped ps) + card (free_set fr')"
    using clone_pages_ok [OF assms(5-7)] by blast
  have "t \<notin> dom (tables st)"
  proof
    assume "t \<in> dom (tables st)"
    then have "unat t < unat (kmalloc_end (ks (mheap st)))" using assms(3) by (simp add: tables_below_def)
    then show False using t(4) by simp
  qed
  then have "tables st t = None" by (simp add: domIff)
  moreover have "huge_room (kh\<lparr>kframes := fr'\<rparr>) r" using t(2) by (simp add: huge_room_def)
  moreover have "kheap_keeps (mheap st) (kh\<lparr>kframes := fr'\<rparr>)" using t(6) by (simp add: kheap_keeps_def)
  moreover have "table_clone src st = Inr (t, phys, st\<lparr>mheap := kh\<lparr>kframes := fr'\<rparr>, tables := (tables st)(t \<mapsto> qs), mem := m'\<rparr>)"
    using t(1,3) c(1) assms(4) by (simp add: table_clone_def tabl_at_def set_frames_def)
  ultimately show ?thesis using t(4,5) c(2-)
    by (intro exI [of _ t] exI [of _ phys] exI [of _ "kh\<lparr>kframes := fr'\<rparr>"] exI [of _ qs] exI [of _ m']) auto
qed

section \<open>Copying an address space\<close>

text \<open>Slot \<open>i\<close> of a directory is private when it has a table that the kernel does not share.\<close>

definition private_slot :: "page_dir \<Rightarrow> page_dir \<Rightarrow> nat \<Rightarrow> bool" where
  "private_slot s k i \<longleftrightarrow> tabls s ! i \<noteq> 0 \<and> tabls k ! i \<noteq> tabls s ! i"

fun demand :: "(u32 \<rightharpoonup> page list) \<Rightarrow> page_dir \<Rightarrow> page_dir \<Rightarrow> nat \<Rightarrow> nat \<Rightarrow> nat" where
  "demand tb s k i 0 = 0"
| "demand tb s k i (Suc n) =
     (if private_slot s k i then length (mapped (the (tb (tabls s ! i)))) else 0) + demand tb s k (Suc i) n"

text \<open>What the copy has in a slot: nothing, the kernel's table, or a table of its own whose entries are copies.\<close>

definition slot_ok :: "nat set \<Rightarrow> mmu \<Rightarrow> page_dir \<Rightarrow> page_dir \<Rightarrow> page_dir \<Rightarrow> nat \<Rightarrow> bool" where
  "slot_ok U st s k d i \<longleftrightarrow>
     (if tabls s ! i = 0 then tabls d ! i = 0
      else if tabls k ! i = tabls s ! i then tabls d ! i = tabls s ! i \<and> entries d ! i = entries s ! i
      else \<exists>ps qs. tables st (tabls s ! i) = Some ps \<and> tables st (tabls d ! i) = Some qs
        \<and> list_all2 (copy_of (mem st)) ps qs \<and> distinct (mapped qs)
        \<and> frame_set qs \<inter> U = {} \<and> frame_set ps \<union> frame_set qs \<subseteq> used_set (kframes (mheap st)))"

definition extends :: "mmu \<Rightarrow> mmu \<Rightarrow> bool" where
  "extends st st' \<longleftrightarrow> tables st \<subseteq>\<^sub>m tables st' \<and> used_set (kframes (mheap st)) \<subseteq> used_set (kframes (mheap st'))
     \<and> (\<forall>f. unat f \<in> used_set (kframes (mheap st)) \<longrightarrow> mem st' f = mem st f) \<and> kernel_pd st' = kernel_pd st
     \<and> kheap_keeps (mheap st) (mheap st')"

lemma extends_trans: "extends a b \<Longrightarrow> extends b c \<Longrightarrow> extends a c"
  unfolding extends_def kheap_keeps_def by (auto intro: map_le_trans)

lemma copy_of_frames:
  assumes "\<And>f. unat f \<in> frame_set [p] \<union> frame_set [q] \<Longrightarrow> m' f = m f" "copy_of m p q"
  shows "copy_of m' p q"
  using assms by (auto simp: copy_of_def frame_set_def split: if_splits)

lemma slot_ok_extends:
  assumes "slot_ok U st s k d i" "extends st st'" "U' \<subseteq> U"
  shows "slot_ok U' st' s k d i"
proof (cases "private_slot s k i")
  case True
  then obtain ps qs where *: "tables st (tabls s ! i) = Some ps" "tables st (tabls d ! i) = Some qs"
    "list_all2 (copy_of (mem st)) ps qs" "distinct (mapped qs)" "frame_set qs \<inter> U = {}"
    "frame_set ps \<union> frame_set qs \<subseteq> used_set (kframes (mheap st))"
    using assms(1) by (auto simp: slot_ok_def private_slot_def)
  have e: "tables st \<subseteq>\<^sub>m tables st'" "used_set (kframes (mheap st)) \<subseteq> used_set (kframes (mheap st'))"
    "\<forall>f. unat f \<in> used_set (kframes (mheap st)) \<longrightarrow> mem st' f = mem st f" using assms(2) by (auto simp: extends_def)
  have "list_all2 (copy_of (mem st')) ps qs"
  proof (rule list.rel_mono_strong [OF *(3)])
    fix p q assume "p \<in> set ps" "q \<in> set qs" "copy_of (mem st) p q"
    moreover from this have "frame_set [p] \<subseteq> frame_set ps" "frame_set [q] \<subseteq> frame_set qs"
      by (auto simp: frame_set_def mapped_def)
    ultimately show "copy_of (mem st') p q"
      using *(6) e(3) by (intro copy_of_frames [of p q "mem st'" "mem st"]) blast+
  qed
  moreover have "tables st' (tabls s ! i) = Some ps" "tables st' (tabls d ! i) = Some qs"
    using e(1) *(1,2) by (auto simp: map_le_def dom_def)
  ultimately show ?thesis using True *(4-6) e(2) assms(3)
    unfolding slot_ok_def private_slot_def by (auto simp: private_slot_def)
next
  case False
  then show ?thesis using assms(1) by (auto simp: slot_ok_def private_slot_def)
qed

lemma demand_extends:
  assumes "tb \<subseteq>\<^sub>m tb'" "\<forall>j. i \<le> j \<and> j < i + n \<and> private_slot s k j \<longrightarrow> tabls s ! j \<in> dom tb"
  shows "demand tb' s k i n = demand tb s k i n"
  using assms(2)
proof (induction n arbitrary: i)
  case (Suc n)
  have "private_slot s k i \<Longrightarrow> tb' (tabls s ! i) = tb (tabls s ! i)"
    using assms(1) Suc.prems by (simp add: map_le_def)
  then show ?case using Suc.IH [of "Suc i"] Suc.prems by auto
qed simp

text \<open>The state in which slots from \<open>i\<close> on are still to be copied.\<close>

definition cloning :: "nat \<Rightarrow> u32 \<Rightarrow> page_dir \<Rightarrow> page_dir \<Rightarrow> u32 \<Rightarrow> page_dir \<Rightarrow> nat \<Rightarrow> nat \<Rightarrow> mmu \<Rightarrow> bool" where
  "cloning r src s k dir d i n st \<longleftrightarrow> i + n \<le> 1024 \<and> dirs st src = Some s \<and> dirs st (kernel_pd st) = Some k
     \<and> dirs st dir = Some d \<and> src \<noteq> dir \<and> kernel_pd st \<noteq> dir \<and> length (tabls d) = 1024 \<and> length (entries d) = 1024
     \<and> (\<forall>j. i \<le> j \<and> j < i + n \<longrightarrow> tabls d ! j = 0)
     \<and> huge_room (mheap st) (n * 0x5000 + r) \<and> kernel_mapped st \<and> tables_below st \<and> frames_ok (kframes (mheap st))
     \<and> demand (tables st) s k i n \<le> card (free_set (kframes (mheap st)))
     \<and> (\<forall>j. i \<le> j \<and> j < i + n \<and> private_slot s k j \<longrightarrow>
          (\<exists>ps. tables st (tabls s ! j) = Some ps \<and> frame_set ps \<subseteq> used_set (kframes (mheap st))))"

lemma cloningD:
  assumes "cloning r src s k dir d i n st"
  shows "i + n \<le> 1024" "dirs st src = Some s" "dirs st (kernel_pd st) = Some k" "dirs st dir = Some d" "src \<noteq> dir"
    "kernel_pd st \<noteq> dir" "length (tabls d) = 1024" "length (entries d) = 1024"
    "\<And>j. i \<le> j \<Longrightarrow> j < i + n \<Longrightarrow> tabls d ! j = 0" "huge_room (mheap st) (n * 0x5000 + r)" "kernel_mapped st"
    "tables_below st" "frames_ok (kframes (mheap st))"
    "demand (tables st) s k i n \<le> card (free_set (kframes (mheap st)))"
    "\<And>j. i \<le> j \<Longrightarrow> j < i + n \<Longrightarrow> private_slot s k j \<Longrightarrow>
       \<exists>ps. tables st (tabls s ! j) = Some ps \<and> frame_set ps \<subseteq> used_set (kframes (mheap st))"
  using assms unfolding cloning_def by blast+

definition with_slot :: "nat \<Rightarrow> u32 \<Rightarrow> paged_entry \<Rightarrow> page_dir \<Rightarrow> page_dir" where
  "with_slot i t e d = d\<lparr>tabls := (tabls d)[i := t], entries := (entries d)[i := e]\<rparr>"

lemma map_le_Some: "m \<subseteq>\<^sub>m m' \<Longrightarrow> m a = Some x \<Longrightarrow> m' a = Some x"
  unfolding map_le_def by (metis domI)

lemma kernel_mapped_extends:
  assumes "kernel_mapped st" "tables st \<subseteq>\<^sub>m tables st'" "kernel_pd st' = kernel_pd st"
    and "dirs st' (kernel_pd st) = dirs st (kernel_pd st)"
  shows "kernel_mapped st'"
proof -
  obtain k where k: "dirs st (kernel_pd st) = Some k"
    "\<forall>i. 768 \<le> i \<and> i < 832 \<longrightarrow> (\<exists>ps. tables st (tabls k ! i) = Some ps \<and> length ps = 1024)"
    using assms(1) unfolding kernel_mapped_def by blast
  then have "\<forall>i. 768 \<le> i \<and> i < 832 \<longrightarrow> (\<exists>ps. tables st' (tabls k ! i) = Some ps \<and> length ps = 1024)"
    using map_le_Some [OF assms(2)] by blast
  then show ?thesis using k(1) assms(3,4) unfolding kernel_mapped_def by (metis k(1))
qed

lemma huge_room_mono: "huge_room kh (a + b) \<Longrightarrow> huge_room kh b"
  by (simp add: huge_room_def)

text \<open>After slot \<open>i\<close> the state is ready for the next one.\<close>

lemma cloning_next:
  assumes c: "cloning r src s k dir d i (Suc n) st" and x: "extends st st1"
    and "dirs st1 = (dirs st)(dir \<mapsto> with_slot i t e d)" "huge_room (mheap st1) (n * 0x5000 + r)" "tables_below st1"
    and "frames_ok (kframes (mheap st1))"
    and "demand (tables st) s k (Suc i) n \<le> card (free_set (kframes (mheap st1)))"
  shows "cloning r src s k dir (with_slot i t e d) (Suc i) n st1"
proof -
  have e: "tables st \<subseteq>\<^sub>m tables st1" "used_set (kframes (mheap st)) \<subseteq> used_set (kframes (mheap st1))"
    "kernel_pd st1 = kernel_pd st" using x by (auto simp: extends_def)
  have p: "\<exists>ps. tables st (tabls s ! j) = Some ps \<and> frame_set ps \<subseteq> used_set (kframes (mheap st))"
    if "Suc i \<le> j" "j < Suc i + n" "private_slot s k j" for j
    using cloningD(15) [OF c, of j] that by simp
  then have dm: "demand (tables st1) s k (Suc i) n = demand (tables st) s k (Suc i) n"
    by (intro demand_extends [OF e(1)]) (auto dest: p)
  have "\<exists>ps. tables st1 (tabls s ! j) = Some ps \<and> frame_set ps \<subseteq> used_set (kframes (mheap st1))"
    if "Suc i \<le> j" "j < Suc i + n" "private_slot s k j" for j
    using p [OF that] map_le_Some [OF e(1)] e(2) by blast
  then have "\<forall>j. Suc i \<le> j \<and> j < Suc i + n \<and> private_slot s k j \<longrightarrow>
      (\<exists>ps. tables st1 (tabls s ! j) = Some ps \<and> frame_set ps \<subseteq> used_set (kframes (mheap st1)))" by blast
  moreover have dk: "dirs st1 (kernel_pd st) = dirs st (kernel_pd st)" "dirs st1 src = dirs st src"
    unfolding assms(3) using cloningD(5,6) [OF c] by (auto intro: fun_upd_other)
  moreover have "kernel_mapped st1" by (rule kernel_mapped_extends [OF cloningD(11) [OF c] e(1,3) dk(1)])
  moreover have "dirs st1 src = Some s" "dirs st1 (kernel_pd st1) = Some k" "dirs st1 dir = Some (with_slot i t e d)"
    using cloningD(2,3) [OF c] dk e(3) assms(3) by (simp_all only: fun_upd_same)
  moreover have "src \<noteq> dir" "kernel_pd st1 \<noteq> dir" using cloningD(5,6) [OF c] e(3) by simp_all
  moreover have "length (tabls (with_slot i t e d)) = 1024" "length (entries (with_slot i t e d)) = 1024" "Suc i + n \<le> 1024"
    using cloningD(1,7,8) [OF c] by (simp_all add: with_slot_def)
  moreover have "\<forall>j. Suc i \<le> j \<and> j < Suc i + n \<longrightarrow> tabls (with_slot i t e d) ! j = 0"
    using cloningD(9) [OF c] by (simp add: with_slot_def)
  moreover have "demand (tables st1) s k (Suc i) n \<le> card (free_set (kframes (mheap st1)))" using dm assms(7) by simp
  ultimately show ?thesis using assms(4-6) unfolding cloning_def by (intro conjI)
qed

lemma clone_slot_shared:
  assumes c: "cloning r src s k dir d i (Suc n) st" and np: "\<not> private_slot s k i"
  shows "\<exists>st1 t e. dir_clone_loop (Suc n) i src dir st = dir_clone_loop n (Suc i) src dir st1
    \<and> dirs st1 = (dirs st)(dir \<mapsto> with_slot i t e d) \<and> extends st st1
    \<and> cloning r src s k dir (with_slot i t e d) (Suc i) n st1
    \<and> slot_ok (used_set (kframes (mheap st))) st1 s k (with_slot i t e d) i"
proof -
  define t where "t = (if tabls s ! i = 0 then 0 else tabls s ! i)"
  define e where "e = (if tabls s ! i = 0 then entries d ! i else entries s ! i)"
  define st1 where "st1 = st\<lparr>dirs := (dirs st)(dir \<mapsto> with_slot i t e d)\<rparr>"
  have d: "dirs st src = Some s" "dirs st (kernel_pd st) = Some k" "dirs st dir = Some d" "tabls d ! i = 0"
    "length (tabls d) = 1024" "length (entries d) = 1024" "i < 1024"
    using cloningD(1-8) [OF c] cloningD(9) [OF c, of i] by simp_all
  have same: "st1 = st" if "tabls s ! i = 0"
  proof -
    have t: "t = tabls d ! i" "e = entries d ! i" using that d(4) by (simp_all add: t_def e_def)
    have "with_slot i t e d = d" unfolding with_slot_def t list_update_id by simp
    then show ?thesis using d(3) by (simp add: st1_def fun_upd_idem)
  qed
  have l: "dir_clone_loop (Suc n) i src dir st = dir_clone_loop n (Suc i) src dir st1"
  proof (cases "tabls s ! i = 0")
    case True
    then show ?thesis using d(1-3) same by (simp add: dir_at_def)
  next
    case False
    then show ?thesis using d(1-3) np by (simp add: dir_at_def private_slot_def set_dir_def st1_def t_def e_def with_slot_def)
  qed
  have x: "extends st st1" by (simp add: extends_def st1_def kheap_keeps_def)
  have "cloning r src s k dir (with_slot i t e d) (Suc i) n st1"
    using cloningD(12-14) [OF c] huge_room_mono [of "mheap st" "0x5000" "n * 0x5000 + r"] cloningD(10) [OF c] np
    by (intro cloning_next [OF c x]) (simp_all add: st1_def tables_below_def add.assoc)
  moreover have "slot_ok (used_set (kframes (mheap st))) st1 s k (with_slot i t e d) i"
    using np d(5-7) by (auto simp: slot_ok_def private_slot_def with_slot_def t_def e_def)
  ultimately show ?thesis using l x by (intro exI [of _ st1] exI [of _ t] exI [of _ e]) (simp add: st1_def)
qed

lemma clone_slot_private:
  assumes c: "cloning r src s k dir d i (Suc n) st" and pr: "private_slot s k i"
  shows "\<exists>st1 t e. dir_clone_loop (Suc n) i src dir st = dir_clone_loop n (Suc i) src dir st1
    \<and> dirs st1 = (dirs st)(dir \<mapsto> with_slot i t e d) \<and> extends st st1
    \<and> cloning r src s k dir (with_slot i t e d) (Suc i) n st1
    \<and> slot_ok (used_set (kframes (mheap st))) st1 s k (with_slot i t e d) i"
proof -
  let ?U = "used_set (kframes (mheap st))"
  obtain ps where ps: "tables st (tabls s ! i) = Some ps" "frame_set ps \<subseteq> ?U"
    using cloningD(15) [OF c, of i] pr by auto
  have dm: "length (mapped ps) + demand (tables st) s k (Suc i) n \<le> card (free_set (kframes (mheap st)))"
    using cloningD(14) [OF c] pr ps(1) by simp
  have room: "huge_room (mheap st) (0x5000 + (n * 0x5000 + r))" using cloningD(10) [OF c] by (simp add: add.assoc)
  have "length (mapped ps) \<le> card (free_set (kframes (mheap st)))" using dm by simp
  from table_clone_ok [OF room cloningD(11,12) [OF c] ps(1) cloningD(13) [OF c] this ps(2)]
  obtain t phys kh qs m' where
    t: "table_clone (tabls s ! i) st = Inr (t, phys, st\<lparr>mheap := kh, tables := (tables st)(t \<mapsto> qs), mem := m'\<rparr>)"
      "t \<noteq> 0" "tables st t = None" "unat t < unat (kmalloc_end (ks kh))"
      "unat (kmalloc_end (ks (mheap st))) \<le> unat (kmalloc_end (ks kh))" "huge_room kh (n * 0x5000 + r)"
    and q: "list_all2 (copy_of m') ps qs" "distinct (mapped qs)" "frame_set qs \<inter> ?U = {}"
      "used_set (kframes kh) = ?U \<union> frame_set qs" "frames_ok (kframes kh)" "\<forall>f. unat f \<in> ?U \<longrightarrow> m' f = mem st f"
      "card (free_set (kframes (mheap st))) = length (mapped ps) + card (free_set (kframes kh))"
    and keeps: "kheap_keeps (mheap st) kh"
    by blast
  define e where "e = (entries d ! i)\<lparr>pe_addr := ucast (drop_bit 12 phys), pe_present := True, pe_rw := True, pe_user := True\<rparr>"
  define st1 where "st1 = st\<lparr>mheap := kh, tables := (tables st)(t \<mapsto> qs), mem := m',
     dirs := (dirs st)(dir \<mapsto> with_slot i t e d)\<rparr>"
  have l: "dir_clone_loop (Suc n) i src dir st = dir_clone_loop n (Suc i) src dir st1"
    using cloningD(2-4) [OF c] pr t(1)
    by (simp add: dir_at_def private_slot_def set_dir_def st1_def e_def with_slot_def Let_def)
  have le: "tables st \<subseteq>\<^sub>m tables st1" using t(3) by (auto simp: st1_def map_le_def)
  have x: "extends st st1" using le q(4,6) keeps by (simp add: extends_def st1_def)
  have ne: "tabls s ! i \<noteq> t" using ps(1) t(3) by auto
  have "tables_below st1" unfolding tables_below_def
  proof
    fix a assume "a \<in> dom (tables st1)"
    then consider "a = t" | "a \<in> dom (tables st)" by (auto simp: st1_def split: if_splits)
    then show "unat a < unat (kmalloc_end (ks (mheap st1)))"
      using t(4,5) cloningD(12) [OF c] by cases (auto simp: st1_def tables_below_def dest!: bspec)
  qed
  then have "cloning r src s k dir (with_slot i t e d) (Suc i) n st1"
    using t(6) q(5,7) dm by (intro cloning_next [OF c x]) (simp_all add: st1_def)
  moreover have "slot_ok ?U st1 s k (with_slot i t e d) i"
    using pr ps q ne cloningD(1,7) [OF c] unfolding slot_ok_def
    by (auto simp: private_slot_def with_slot_def st1_def)
  ultimately show ?thesis using l x by (intro exI [of _ st1] exI [of _ t] exI [of _ e]) (simp add: st1_def)
qed

lemma dir_clone_loop_ok:
  "cloning r src s k dir d i n st \<Longrightarrow>
   \<exists>st' d'. dir_clone_loop n i src dir st = Inr st' \<and> dirs st' = (dirs st)(dir \<mapsto> d') \<and> extends st st'
     \<and> physical d' = physical d \<and> (\<forall>j<i. tabls d' ! j = tabls d ! j \<and> entries d' ! j = entries d ! j)
     \<and> (\<forall>j. i \<le> j \<and> j < i + n \<longrightarrow> slot_ok (used_set (kframes (mheap st))) st' s k d' j) \<and> huge_room (mheap st') r"
proof (induction n arbitrary: i d st)
  case 0
  have "dirs st = (dirs st)(dir \<mapsto> d)" using cloningD(4) [OF 0] by (simp add: fun_upd_idem)
  then show ?case by (intro exI [of _ st] exI [of _ d]) (use cloningD(10) [OF 0] in \<open>auto simp: extends_def kheap_keeps_def\<close>)
next
  case (Suc n)
  let ?U = "used_set (kframes (mheap st))"
  obtain st1 t e where 1: "dir_clone_loop (Suc n) i src dir st = dir_clone_loop n (Suc i) src dir st1"
    "dirs st1 = (dirs st)(dir \<mapsto> with_slot i t e d)" "extends st st1"
    "cloning r src s k dir (with_slot i t e d) (Suc i) n st1" "slot_ok ?U st1 s k (with_slot i t e d) i"
    using clone_slot_private [OF Suc.prems] clone_slot_shared [OF Suc.prems] by blast
  let ?V = "used_set (kframes (mheap st1))"
  obtain st' d' where 2: "dir_clone_loop n (Suc i) src dir st1 = Inr st'" "dirs st' = (dirs st1)(dir \<mapsto> d')"
    "extends st1 st'" "physical d' = physical (with_slot i t e d)"
    "\<forall>j<Suc i. tabls d' ! j = tabls (with_slot i t e d) ! j \<and> entries d' ! j = entries (with_slot i t e d) ! j"
    "\<forall>j. Suc i \<le> j \<and> j < Suc i + n \<longrightarrow> slot_ok ?V st' s k d' j" "huge_room (mheap st') r"
    using Suc.IH [OF 1(4)] by blast
  have "?U \<subseteq> ?V" using 1(3) by (simp add: extends_def)
  have si: "slot_ok ?U st' s k (with_slot i t e d) i" using slot_ok_extends [OF 1(5) 2(3)] by simp
  have same: "tabls d' ! i = tabls (with_slot i t e d) ! i" "entries d' ! i = entries (with_slot i t e d) ! i"
    using 2(5) by simp_all
  have "slot_ok ?U st' s k d' j" if "i \<le> j" "j < i + Suc n" for j
  proof (cases "j = i")
    case True
    then show ?thesis using si same unfolding slot_ok_def by (simp only: if_cancel)
  next
    case False
    then have "slot_ok ?V st' s k d' j" using 2(6) that by simp
    moreover have "extends st' st'" by (simp add: extends_def kheap_keeps_def)
    ultimately show ?thesis using slot_ok_extends \<open>?U \<subseteq> ?V\<close> by blast
  qed
  then show ?case using 1(1,2) 2(1-5,7) extends_trans [OF 1(3) 2(3)]
    by (intro exI [of _ st'] exI [of _ d']) (simp add: with_slot_def)
qed

lemma demand_zero: "\<forall>j. i \<le> j \<and> j < i + n \<longrightarrow> \<not> private_slot s k j \<Longrightarrow> demand tb s k i n = 0"
  by (induction n arbitrary: i) auto

lemma page_dir_clone_ok:
  assumes "dirs st src = Some s" "dirs st (kernel_pd st) = Some k"
    and "huge_room (mheap st) (0x6004 + 1024 * 0x5000 + r)" "kernel_mapped st" "tables_below st"
    and "\<forall>a\<in>dom (dirs st). unat a < unat (kmalloc_end (ks (mheap st)))"
    and "frames_ok (kframes (mheap st))" "demand (tables st) s k 0 1024 \<le> card (free_set (kframes (mheap st)))"
    and "\<forall>i<1024. private_slot s k i \<longrightarrow>
      (\<exists>ps. tables st (tabls s ! i) = Some ps \<and> frame_set ps \<subseteq> used_set (kframes (mheap st)))"
  shows "\<exists>dir st' d. page_dir_clone src st = Inr (dir, st') \<and> dir \<notin> dom (dirs st) \<and> dirs st' = (dirs st)(dir \<mapsto> d)
    \<and> (\<forall>i<1024. slot_ok (used_set (kframes (mheap st))) st' s k d i) \<and> extends st st' \<and> huge_room (mheap st') r"
proof -
  have room: "huge_room (mheap st) (unat (8196 :: u32) + 0x4000 + (1024 * 0x5000 + r))" using assms(3) by (simp add: add.assoc)
  have sz: "4080 < unat (8196 :: u32)" by simp
  obtain dir phys kh where a: "kmalloc_table 8196 st = Inr (dir, phys, st\<lparr>mheap := kh\<rparr>)" "huge_room kh (1024 * 0x5000 + r)"
    "kframes kh = kframes (mheap st)" "unat (kmalloc_end (ks (mheap st))) < unat dir" "unat dir < unat (kmalloc_end (ks kh))" "kheap_keeps (mheap st) kh"
    using kmalloc_table_ok [OF room assms(4) sz] by blast
  have fresh: "dir \<notin> dom (dirs st)" using assms(6) a(4) by (auto dest!: bspec)
  define d0 where "d0 = dir_zero\<lparr>physical := phys + 4096\<rparr>"
  define st0 where "st0 = st\<lparr>mheap := kh, dirs := (dirs st)(dir \<mapsto> d0)\<rparr>"
  have st0s: "mheap st0 = kh" "tables st0 = tables st" by (simp_all add: st0_def)
  have ne: "src \<noteq> dir" "kernel_pd st \<noteq> dir" using fresh assms(1,2) by auto
  have x: "extends st st0" using a(3,6) by (simp add: extends_def st0_def)
  have "cloning r src s k dir d0 0 1024 st0" unfolding cloning_def
  proof (intro conjI)
    show "kernel_mapped st0" using assms(4) ne by (intro kernel_mapped_extends [OF assms(4)]) (simp_all add: st0_def)
    show "tables_below st0" using assms(5) a(4,5) by (auto simp: tables_below_def st0_def dest!: bspec)
    show "\<forall>j. 0 \<le> j \<and> j < 0 + 1024 \<longrightarrow> tabls d0 ! j = 0" by (simp add: d0_def dir_zero_def)
    show "\<forall>j. 0 \<le> j \<and> j < 0 + 1024 \<and> private_slot s k j \<longrightarrow>
        (\<exists>ps. tables st0 (tabls s ! j) = Some ps \<and> frame_set ps \<subseteq> used_set (kframes (mheap st0)))"
      using assms(9) a(3) by (simp add: st0_def)
    show "dirs st0 src = Some s" "dirs st0 (kernel_pd st0) = Some k" "dirs st0 dir = Some d0" "kernel_pd st0 \<noteq> dir"
      using assms(1,2) ne by (simp_all add: st0_def)
    show "length (tabls d0) = 1024" "length (entries d0) = 1024" by (simp_all add: d0_def dir_zero_def)
    show "huge_room (mheap st0) (1024 * 0x5000 + r)" unfolding st0s by (rule a(2))
    show "frames_ok (kframes (mheap st0))" unfolding st0s a(3) by (rule assms(7))
    show "demand (tables st0) s k 0 1024 \<le> card (free_set (kframes (mheap st0)))" unfolding st0s a(3) by (rule assms(8))
    show "src \<noteq> dir" by (rule ne(1))
  qed simp
  from dir_clone_loop_ok [OF this] obtain st' d where
    l: "dir_clone_loop 1024 0 src dir st0 = Inr st'" "dirs st' = (dirs st0)(dir \<mapsto> d)" "extends st0 st'"
    "\<forall>j. 0 \<le> j \<and> j < 0 + 1024 \<longrightarrow> slot_ok (used_set (kframes (mheap st0))) st' s k d j" "huge_room (mheap st') r"
    by (elim exE conjE) (rule that; assumption)
  have "page_dir_clone src st = Inr (dir, st')"
    using a(1) l(1) by (simp add: page_dir_clone_def st0_def d0_def del: dir_clone_loop.simps)
  moreover have "dirs st' = (dirs st)(dir \<mapsto> d)" using l(2) by (simp add: st0_def)
  moreover have "\<forall>i<1024. slot_ok (used_set (kframes (mheap st))) st' s k d i"
    using l(4) a(3) by (simp add: st0_def)
  ultimately show ?thesis using fresh extends_trans [OF x l(3)] l(5) by blast
qed

text \<open>C31: \<^verbatim>\<open>page_dir_clone\<close> copies an address space: it returns a new directory in which every slot is empty where
  the source has no table, is the kernel's table where the source shares it, and otherwise is a new
  table whose entries are copies.  A copied entry is empty when the original is; otherwise it has a frame of
  its own, not used before, with the content of the original frame and the same write, accessed and dirty
  bits.  No frame that was in use is written, and no existing table or directory changes.\<close>

theorem page_dir_clone_copies:
  assumes "dirs st src = Some s" "dirs st (kernel_pd st) = Some k"
    and "huge_room (mheap st) (0x6004 + 1024 * 0x5000)" "kernel_mapped st" "tables_below st"
    and "\<forall>a\<in>dom (dirs st). unat a < unat (kmalloc_end (ks (mheap st)))"
    and "frames_ok (kframes (mheap st))" "demand (tables st) s k 0 1024 \<le> card (free_set (kframes (mheap st)))"
    and "\<forall>i<1024. private_slot s k i \<longrightarrow>
      (\<exists>ps. tables st (tabls s ! i) = Some ps \<and> frame_set ps \<subseteq> used_set (kframes (mheap st)))"
  shows "\<exists>dir st' d. page_dir_clone src st = Inr (dir, st') \<and> dir \<notin> dom (dirs st) \<and> dirs st' = (dirs st)(dir \<mapsto> d)
    \<and> (\<forall>i<1024. slot_ok (used_set (kframes (mheap st))) st' s k d i) \<and> extends st st'"
proof -
  have "huge_room (mheap st) (0x6004 + 1024 * 0x5000 + 0)" using assms(3) by simp
  from page_dir_clone_ok [OF assms(1,2) this assms(4-9)] show ?thesis
    by (elim exE conjE) (intro exI conjI; assumption)
qed

text \<open>A small address space: one private page in frame 5, and one table for the kernel's range.\<close>

definition clone_demo_frames :: frames where
  "clone_demo_frames = \<lparr>frame_map = [33], used_frames = 2, max_frames = 32, placement_addr = 0\<rparr>"

definition clone_demo :: mmu where
  "clone_demo = \<lparr>mheap = (empty_heap 0xc0000000)\<lparr>kframes := clone_demo_frames\<rparr>,
     tables = [0x2000 \<mapsto> replicate 1024 page_zero, 0x3000 \<mapsto> [page_zero\<lparr>pg_present := True, pg_rw := True, pg_addr := 5\<rparr>]],
     dirs = [0x10000 \<mapsto> dir_zero\<lparr>tabls := replicate 768 0 @ replicate 256 0x2000\<rparr>,
             0x20000 \<mapsto> dir_zero\<lparr>tabls := 0x3000 # replicate 1023 0\<rparr>],
     kernel_pd = 0x10000, current_pd = 0x10000, cr3 = 0, paging = True, mem = (\<lambda>f. [ucast f]), isr_routines = replicate 256 0\<rparr>"

lemma clone_demo_frames_ok: "used_set clone_demo_frames = {0, 5}" "frames_ok clone_demo_frames"
proof -
  have b: "bit (33 :: u32) n \<longleftrightarrow> n = 0 \<or> n = 5" if "n < 32" for n
  proof -
    have "(33 :: u32) = push_bit 5 1 OR 1" by simp
    then show ?thesis using that by (simp only: bit_or_iff bit_push_bit_iff bit_1_iff) auto
  qed
  show u: "used_set clone_demo_frames = {0, 5}"
    using b by (auto simp: used_set_def frame_used_def clone_demo_frames_def)
  then show "frames_ok clone_demo_frames"
    by (simp add: frames_ok_def frame_inv_def small_map_def) (simp add: clone_demo_frames_def)
qed

definition clone_demo_src :: page_dir where
  "clone_demo_src = dir_zero\<lparr>tabls := 0x3000 # replicate 1023 0\<rparr>"

definition clone_demo_kernel :: page_dir where
  "clone_demo_kernel = dir_zero\<lparr>tabls := replicate 768 0 @ replicate 256 0x2000\<rparr>"

lemma clone_demo_ok:
  "dirs clone_demo 0x20000 = Some clone_demo_src" "dirs clone_demo (kernel_pd clone_demo) = Some clone_demo_kernel"
  "huge_room (mheap clone_demo) (0x6004 + 1024 * 0x5000)" "kernel_mapped clone_demo" "tables_below clone_demo"
  "\<forall>a\<in>dom (dirs clone_demo). unat a < unat (kmalloc_end (ks (mheap clone_demo)))"
  "frames_ok (kframes (mheap clone_demo))"
  "demand (tables clone_demo) clone_demo_src clone_demo_kernel 0 1024 \<le> card (free_set (kframes (mheap clone_demo)))"
  "\<forall>i<1024. private_slot clone_demo_src clone_demo_kernel i \<longrightarrow> (\<exists>ps. tables clone_demo (tabls clone_demo_src ! i) = Some ps
      \<and> frame_set ps \<subseteq> used_set (kframes (mheap clone_demo)))"
proof -
  let ?s = clone_demo_src and ?k = clone_demo_kernel
  show d: "dirs clone_demo 0x20000 = Some ?s" "dirs clone_demo (kernel_pd clone_demo) = Some ?k"
    by (simp_all add: clone_demo_def clone_demo_src_def clone_demo_kernel_def)
  show "huge_room (mheap clone_demo) (0x6004 + 1024 * 0x5000)"
    using empty_heap_inv [of "0xc0000000"] unfolding huge_room_def
    by (auto simp: clone_demo_def empty_heap_def dlist_def list_create_def)
  show "kernel_mapped clone_demo" unfolding kernel_mapped_def
    using d(2) by (auto simp: clone_demo_def clone_demo_kernel_def nth_append)
  show "tables_below clone_demo" by (simp add: tables_below_def clone_demo_def empty_heap_def)
  show "\<forall>a\<in>dom (dirs clone_demo). unat a < unat (kmalloc_end (ks (mheap clone_demo)))"
    by (simp add: clone_demo_def empty_heap_def)
  have kf: "kframes (mheap clone_demo) = clone_demo_frames" by (simp add: clone_demo_def)
  have np: "private_slot ?s ?k i \<longleftrightarrow> i = 0" if "i < 1024" for i
    using that by (auto simp: private_slot_def nth_Cons' nth_append clone_demo_src_def clone_demo_kernel_def)
  have t0: "tables clone_demo (tabls ?s ! 0) = Some [page_zero\<lparr>pg_present := True, pg_rw := True, pg_addr := 5\<rparr>]"
    by (simp add: clone_demo_def clone_demo_src_def)
  have "demand (tables clone_demo) ?s ?k 1 1023 = 0" using np by (intro demand_zero) auto
  then have dm: "demand (tables clone_demo) ?s ?k 0 1024 = 1"
    using demand.simps(2) [of "tables clone_demo" ?s ?k 0 1023] np [of 0] t0 by simp
  have "{1, 2} \<subseteq> free_set clone_demo_frames"
    unfolding free_set_def clone_demo_frames_ok(1) by (simp add: clone_demo_frames_def)
  then have "card {1, 2 :: nat} \<le> card (free_set clone_demo_frames)" by (intro card_mono) (simp add: free_set_def)
  then show "demand (tables clone_demo) ?s ?k 0 1024 \<le> card (free_set (kframes (mheap clone_demo)))"
    unfolding dm kf by simp
  show "\<forall>i<1024. private_slot ?s ?k i \<longrightarrow> (\<exists>ps. tables clone_demo (tabls ?s ! i) = Some ps
      \<and> frame_set ps \<subseteq> used_set (kframes (mheap clone_demo)))"
    using np t0 unfolding kf clone_demo_frames_ok(1) by (auto simp: frame_set_def)
  show "frames_ok (kframes (mheap clone_demo))" unfolding kf by (rule clone_demo_frames_ok(2))
qed

theorem page_dir_clone_copies_witness:
  "\<exists>dir st' d. page_dir_clone 0x20000 clone_demo = Inr (dir, st') \<and> dirs st' = (dirs clone_demo)(dir \<mapsto> d)
    \<and> (\<forall>i<1024. slot_ok {0, 5} st' clone_demo_src clone_demo_kernel d i)"
proof -
  have kf: "kframes (mheap clone_demo) = clone_demo_frames" by (simp add: clone_demo_def)
  from page_dir_clone_copies [OF clone_demo_ok] show ?thesis
    unfolding kf clone_demo_frames_ok(1) by (elim exE conjE) (intro exI conjI; assumption)
qed

text \<open>An unmapped page keeps its present bit: the entry then points to frame 0.\<close>

lemma page_unmap_present:
  assumes "page_at st (t, i) = Inr pg" "page_unmap (Some (t, i)) st = Inr st'"
  shows "page_at st' (t, i) = Inr (pg\<lparr>pg_addr := 0\<rparr>)"
proof -
  obtain ps where ps: "tables st t = Some ps" "i < length ps" "pg = ps ! i"
    using assms(1) by (auto simp: page_at_def tabl_at_def res_simps split: option.splits if_splits)
  then show ?thesis using assms
    by (auto simp: page_unmap_def set_page_def page_at_def tabl_at_def set_frames_def res_simps)
qed

end
