(* ===== verification/Mmap.thy ===== *)
theory Mmap
  imports Mmu
begin

text \<open>
  The memory areas of a process and its break (\<^verbatim>\<open>src/kernel/mmap.c\<close>, \<^verbatim>\<open>src/include/kernel/mm.h\<close>).  The
  singly linked list \<^verbatim>\<open>process->mmap\<close> is the list of its areas, each with its own address, which
  is what \<^verbatim>\<open>kfree\<close> gets; only the process itself reaches the list.
\<close>

section \<open>Definitions\<close>

record vm_area =
  va_at :: u32
  vm_start :: u32
  vm_end :: u32

record mm =
  mm_brk :: u32
  mm_mmap :: "vm_area list"
  mm_pd :: u32

definition ENOMEM :: int where "ENOMEM = 12"

fun insert_vm :: "vm_area list \<Rightarrow> vm_area \<Rightarrow> vm_area list" where
  "insert_vm [] area = [area]"
| "insert_vm (i # is) area = (if vm_start i > vm_start area then area # i # is else i # insert_vm is area)"

text \<open>The first loop of \<^verbatim>\<open>do_munmap\<close>: the areas that stay, and those unlinked, the last one first.\<close>

fun unlink_loop :: "u32 \<Rightarrow> u32 \<Rightarrow> vm_area list \<Rightarrow> vm_area list \<Rightarrow> vm_area list \<times> vm_area list" where
  "unlink_loop addr fin [] free = ([], free)"
| "unlink_loop addr fin (i # is) free =
     (if fin \<le> vm_start i \<or> addr \<ge> vm_end i
      then let (keep, free) = unlink_loop addr fin is free in (i # keep, free)
      else unlink_loop addr fin is (i # free))"

fun free_areas :: "vm_area list \<Rightarrow> mmu \<Rightarrow> mmu res" where
  "free_areas [] st = Inr st"
| "free_areas (i # free) st = rbind (kfree (va_at i) (mheap st)) (\<lambda>kh. free_areas free (st\<lparr>mheap := kh\<rparr>))"

definition unmap_page :: "u32 \<Rightarrow> u32 \<Rightarrow> mmu \<Rightarrow> mmu res" where
  "unmap_page dir i st = rbind (get_page i False dir st) (\<lambda>(page, st). page_unmap page st)"

definition map_user :: "u32 \<Rightarrow> u32 \<Rightarrow> mmu \<Rightarrow> mmu res" where
  "map_user dir i st = rbind (get_page i True dir st) (\<lambda>(page, st). page_map page False True st)"

definition page_fuel :: nat where "page_fuel = 2 ^ 20 + 1"

definition do_munmap :: "u32 \<Rightarrow> u32 \<Rightarrow> mm \<Rightarrow> mmu \<Rightarrow> (int \<times> mm \<times> mmu) res" where
  "do_munmap addr len p st =
     (let fin = addr + len; len = PAGE_ALIGN len in
      if len = 0 then Inr (0, p, st)
      else let (keep, free) = unlink_loop addr fin (mm_mmap p) []; p = p\<lparr>mm_mmap := keep\<rparr> in
      if free = [] then Inr (0, p, st)
      else rbind (free_areas free st) (\<lambda>st.
           rmap (\<lambda>st. (0, p, st)) (page_loop page_fuel (\<lambda>i _. i < addr + len) (unmap_page (mm_pd p)) addr st)))"

definition do_mmap :: "u32 \<Rightarrow> u32 \<Rightarrow> mm \<Rightarrow> mmu \<Rightarrow> (int \<times> mm \<times> mmu) res" where
  "do_mmap addr len p st =
     (let len = PAGE_ALIGN len in
      if len = 0 then Inr (sint addr, p, st)
      else rbind (do_munmap addr len p st) (\<lambda>(_, p, st).
           rbind (page_loop page_fuel (\<lambda>i _. i \<le> addr + len) (map_user (mm_pd p)) addr st) (\<lambda>st.
           rbind (kmalloc 12 (mheap st)) (\<lambda>(area, kh).
           let st = st\<lparr>mheap := kh\<rparr> in
           if area = 0 then Inr (- ENOMEM, p, st)
           else Inr (0, p\<lparr>mm_mmap := insert_vm (mm_mmap p) \<lparr>va_at = area, vm_start = addr, vm_end = addr + len\<rparr>\<rparr>, st)))))"

definition sys_brk :: "u32 \<Rightarrow> mm \<Rightarrow> mmu \<Rightarrow> (u32 \<times> mm \<times> mmu) res" where
  "sys_brk brk p st =
     (if brk < mm_brk p then Inr (mm_brk p, p, st)
      else let newbrk = PAGE_ALIGN brk; oldbrk = PAGE_ALIGN (mm_brk p) in
      if oldbrk = newbrk then Inr (brk, p\<lparr>mm_brk := brk\<rparr>, st)
      else if brk \<le> mm_brk p
      then rmap (\<lambda>(_, p, st). (brk, p, st)) (do_munmap newbrk (oldbrk - newbrk) (p\<lparr>mm_brk := brk\<rparr>) st)
      else if sint (free_pages (kframes (mheap st))) < 0 then Inr (mm_brk p, p, st)
      else rmap (\<lambda>(_, p, st). (brk, p, st)) (do_mmap oldbrk (newbrk - oldbrk) (p\<lparr>mm_brk := brk\<rparr>) st))"

section \<open>The list of areas\<close>

definition areas_sorted :: "vm_area list \<Rightarrow> bool" where
  "areas_sorted as \<longleftrightarrow> sorted (map vm_start as)"

lemma insert_vm_set: "set (insert_vm as a) = insert a (set as)"
  by (induction as a rule: insert_vm.induct) auto

lemma insert_vm_sorted: "areas_sorted as \<Longrightarrow> areas_sorted (insert_vm as a)"
  unfolding areas_sorted_def
  by (induction as a rule: insert_vm.induct) (auto simp: insert_vm_set)

definition apart :: "u32 \<Rightarrow> u32 \<Rightarrow> vm_area \<Rightarrow> bool" where
  "apart addr fin i \<longleftrightarrow> fin \<le> vm_start i \<or> addr \<ge> vm_end i"

lemma unlink_loop_eq:
  "unlink_loop addr fin as free = (filter (apart addr fin) as, rev (filter (\<lambda>i. \<not> apart addr fin i) as) @ free)"
  by (induction addr fin as free rule: unlink_loop.induct) (auto simp: apart_def)

text \<open>The break never moves down: the branch that would unmap is not taken.\<close>

lemma sys_brk_no_shrink: "brk \<le> mm_brk p \<Longrightarrow> \<exists>p'. sys_brk brk p st = Inr (mm_brk p, p', st)"
  by (cases "brk < mm_brk p") (auto simp: sys_brk_def Let_def)

section \<open>Mapping a range\<close>

definition vpage :: "mmu \<Rightarrow> u32 \<Rightarrow> u32 \<Rightarrow> page res" where
  "vpage st dir v = rbind (dir_at st dir) (\<lambda>d. page_at st (tabls d ! PAGE_DIRECTORY_INDEX v, PAGE_TABLE_INDEX v))"

definition mapped_at :: "mmu \<Rightarrow> u32 \<Rightarrow> u32 \<Rightarrow> bool" where
  "mapped_at st dir v \<longleftrightarrow> (\<exists>pg. vpage st dir v = Inr pg \<and> pg_addr pg \<noteq> 0 \<and> pg_present pg)"

text \<open>Every table is whole, every entry with a frame is present, and the directory has a table for \<open>v\<close>.\<close>

definition whole_tables :: "mmu \<Rightarrow> bool" where
  "whole_tables st \<longleftrightarrow> (\<forall>t ps. tables st t = Some ps \<longrightarrow> length ps = 1024 \<and> (\<forall>p\<in>set ps. pg_addr p \<noteq> 0 \<longrightarrow> pg_present p))"

definition has_table :: "mmu \<Rightarrow> u32 \<Rightarrow> u32 \<Rightarrow> bool" where
  "has_table st dir v \<longleftrightarrow> (\<exists>d. dirs st dir = Some d \<and> tabls d ! PAGE_DIRECTORY_INDEX v \<noteq> 0
     \<and> tables st (tabls d ! PAGE_DIRECTORY_INDEX v) \<noteq> None)"

text \<open>What one step of the mapping loop keeps.\<close>

definition grows :: "u32 \<Rightarrow> mmu \<Rightarrow> mmu \<Rightarrow> bool" where
  "grows dir st st' \<longleftrightarrow> dirs st' = dirs st \<and> dom (tables st') = dom (tables st) \<and> mheap st' = (mheap st)\<lparr>kframes := kframes (mheap st')\<rparr>
     \<and> frame_dims (kframes (mheap st')) = frame_dims (kframes (mheap st))
     \<and> (\<forall>v. mapped_at st dir v \<longrightarrow> vpage st' dir v = vpage st dir v)"

lemma grows_refl: "grows dir st st" by (simp add: grows_def)

lemma grows_mapped: "grows dir st st' \<Longrightarrow> mapped_at st dir v \<Longrightarrow> mapped_at st' dir v"
  by (simp add: grows_def mapped_at_def)

lemma grows_trans: "grows dir a b \<Longrightarrow> grows dir b c \<Longrightarrow> grows dir a c"
  using grows_mapped [of dir a b] unfolding grows_def by (metis kheap.surjective kheap.update_convs(5))

lemma map_user_ok:
  assumes "has_table st dir v" "whole_tables st" "frames_ok (kframes (mheap st))" "free_set (kframes (mheap st)) \<noteq> {}"
  shows "\<exists>st'. map_user dir v st = Inr st' \<and> grows dir st st' \<and> whole_tables st' \<and> frames_ok (kframes (mheap st'))
    \<and> card (free_set (kframes (mheap st))) \<le> Suc (card (free_set (kframes (mheap st')))) \<and> mapped_at st' dir v"
proof -
  obtain d where d: "dirs st dir = Some d" "tabls d ! PAGE_DIRECTORY_INDEX v \<noteq> 0"
    "tables st (tabls d ! PAGE_DIRECTORY_INDEX v) \<noteq> None" using assms(1) by (auto simp: has_table_def)
  define t j where "t = tabls d ! PAGE_DIRECTORY_INDEX v" and "j = PAGE_TABLE_INDEX v"
  obtain ps where ps: "tables st t = Some ps" "length ps = 1024" "\<forall>p\<in>set ps. pg_addr p \<noteq> 0 \<longrightarrow> pg_present p" "j < length ps"
    using d(3) assms(2) index_less(1) [of v] by (auto simp: t_def j_def whole_tables_def)
  have g: "get_page v True dir st = Inr (Some (t, j), st)"
    using d(1,2) by (simp add: get_page_def dir_at_def t_def j_def Let_def)
  have vp: "vpage st dir w = page_at st (tabls d ! PAGE_DIRECTORY_INDEX w, PAGE_TABLE_INDEX w)" for w
    using d(1) by (simp add: vpage_def dir_at_def)
  have here: "vpage st dir v = Inr (ps ! j)"
    using vp [of v] ps(1,4) by (simp add: page_at_def tabl_at_def flip: t_def j_def)
  show ?thesis
  proof (cases "pg_addr (ps ! j) = 0")
    case False
    then have "map_user dir v st = Inr st"
      using g ps(1,4) by (simp add: map_user_def page_map_def page_at_def tabl_at_def page_fill_def set_page_def
          set_frames_def list_update_id map_upd_triv fun_upd_idem)
    moreover have "mapped_at st dir v" using here False ps(3,4) by (auto simp: mapped_at_def)
    ultimately show ?thesis using assms(2,3) grows_refl by auto
  next
    case True
    obtain f fr where f: "alloc_frame (kframes (mheap st)) = Inr (f, fr)" "(ucast f :: frame_no) \<noteq> 0" "frames_ok fr"
      "card (free_set (kframes (mheap st))) = Suc (card (free_set fr))" "frame_dims fr = frame_dims (kframes (mheap st))"
      using alloc_frame_fresh [OF assms(3,4)] by blast
    define pg where "pg = page_zero\<lparr>pg_rw := True, pg_user := True, pg_present := True, pg_addr := ucast f\<rparr>"
    define st' where "st' = st\<lparr>mheap := (mheap st)\<lparr>kframes := fr\<rparr>, tables := (tables st)(t \<mapsto> ps[j := pg])\<rparr>"
    have m: "map_user dir v st = Inr st'"
      using g ps(1,4) True f(1)
      by (simp add: map_user_def page_map_def page_at_def tabl_at_def page_fill_def set_page_def set_frames_def st'_def pg_def)
    have vp': "vpage st' dir w = page_at st' (tabls d ! PAGE_DIRECTORY_INDEX w, PAGE_TABLE_INDEX w)" for w
      using d(1) by (simp add: vpage_def dir_at_def st'_def)
    have "vpage st' dir w = vpage st dir w" if "mapped_at st dir w" for w
    proof -
      have "\<not> (tabls d ! PAGE_DIRECTORY_INDEX w = t \<and> PAGE_TABLE_INDEX w = j)"
        using that True ps(1,4) vp [of w] by (auto simp: mapped_at_def page_at_def tabl_at_def)
      then show ?thesis unfolding vp vp' using ps(1) by (auto simp: st'_def page_at_def tabl_at_def)
    qed
    then have "grows dir st st'" using ps(1) f(5) by (auto simp: grows_def st'_def)
    moreover have "whole_tables st'"
      using assms(2) ps unfolding whole_tables_def
      by (auto simp: st'_def pg_def dest!: set_update_subset_insert [THEN subsetD])
    moreover have "mapped_at st' dir v"
      using vp' [of v] ps(4) f(2) by (auto simp: mapped_at_def page_at_def tabl_at_def st'_def pg_def simp flip: t_def j_def)
    ultimately show ?thesis using m f(3,4) by (auto simp: st'_def)
  qed
qed

lemma has_table_grows: "grows dir st st' \<Longrightarrow> has_table st dir v \<Longrightarrow> has_table st' dir v"
  by (auto simp: grows_def has_table_def dom_def set_eq_iff)

lemma map_loop_ok:
  assumes "whole_tables st" "frames_ok (kframes (mheap st))" "n \<le> card (free_set (kframes (mheap st)))" "n < fuel"
    and "\<forall>i<n. has_table st dir (v + of_nat i * 0x1000) \<and> v + of_nat i * 0x1000 \<le> e" "\<not> v + of_nat n * 0x1000 \<le> e"
  shows "\<exists>st'. page_loop fuel (\<lambda>i _. i \<le> e) (map_user dir) v st = Inr st' \<and> grows dir st st'
    \<and> (\<forall>i<n. mapped_at st' dir (v + of_nat i * 0x1000)) \<and> whole_tables st' \<and> frames_ok (kframes (mheap st'))
    \<and> card (free_set (kframes (mheap st))) \<le> n + card (free_set (kframes (mheap st')))"
  using assms
proof (induction n arbitrary: v st fuel)
  case 0
  then obtain f where "fuel = Suc f" by (cases fuel) auto
  then show ?case using 0 grows_refl by auto
next
  case (Suc n)
  obtain f where f: "fuel = Suc f" "n < f" using Suc.prems(4) by (cases fuel) auto
  have v0: "has_table st dir v" "v \<le> e" using Suc.prems(5) by force+
  have "free_set (kframes (mheap st)) \<noteq> {}" using Suc.prems(3) by auto
  then obtain st1 where 1: "map_user dir v st = Inr st1" "grows dir st st1" "whole_tables st1"
    "frames_ok (kframes (mheap st1))" "card (free_set (kframes (mheap st))) \<le> Suc (card (free_set (kframes (mheap st1))))"
    "mapped_at st1 dir v" using map_user_ok [OF v0(1) Suc.prems(1,2)] by blast
  have step: "v + 0x1000 + of_nat i * 0x1000 = v + of_nat (Suc i) * 0x1000" for i by (simp add: algebra_simps)
  have "\<forall>i<n. has_table st1 dir (v + 0x1000 + of_nat i * 0x1000) \<and> v + 0x1000 + of_nat i * 0x1000 \<le> e"
    unfolding step using Suc.prems(5) has_table_grows [OF 1(2)] by (meson Suc_mono)
  moreover have "\<not> v + 0x1000 + of_nat n * 0x1000 \<le> e" unfolding step by (rule Suc.prems(6))
  moreover have "n \<le> card (free_set (kframes (mheap st1)))" using 1(5) Suc.prems(3) by simp
  ultimately obtain st' where 2: "page_loop f (\<lambda>i _. i \<le> e) (map_user dir) (v + 0x1000) st1 = Inr st'" "grows dir st1 st'"
    "\<forall>i<n. mapped_at st' dir (v + 0x1000 + of_nat i * 0x1000)" "whole_tables st'" "frames_ok (kframes (mheap st'))"
    "card (free_set (kframes (mheap st1))) \<le> n + card (free_set (kframes (mheap st')))"
    using Suc.IH [OF 1(3,4) _ f(2), of "v + 0x1000"] by blast
  have "mapped_at st' dir (v + of_nat i * 0x1000)" if "i < Suc n" for i
  proof (cases i)
    case 0
    then show ?thesis using grows_mapped [OF 2(2) 1(6)] by simp
  next
    case (Suc j)
    have "mapped_at st' dir (v + 0x1000 + of_nat j * 0x1000)" using 2(3) that Suc by simp
    then show ?thesis unfolding step Suc .
  qed
  then show ?case using f(1) v0(2) 1(1,5) 2(1,4-6) grows_trans [OF 1(2) 2(2)] by simp
qed

section \<open>Growing the break\<close>

lemma PAGE_ALIGN_ok:
  assumes "unat a + 4096 \<le> 2 ^ 32"
  shows "unat (PAGE_ALIGN a) = (unat a + 4095) div 4096 * 4096" "page_aligned (PAGE_ALIGN a)" "a \<le> PAGE_ALIGN a"
    "unat (PAGE_ALIGN a) < unat a + 4096"
proof -
  have c: "NOT (4096 - 1 :: u32) = 0xfffff000" "a + 4096 - 1 = a + 4095" by simp_all
  have e: "PAGE_ALIGN a = page_base (a + 4095)" unfolding PAGE_ALIGN_def c ..
  have u: "unat (a + 4095) = unat a + 4095" using assms by (subst unat_add_lem [THEN iffD1]) simp_all
  show 1: "unat (PAGE_ALIGN a) = (unat a + 4095) div 4096 * 4096" unfolding e unat_page_base u ..
  show "page_aligned (PAGE_ALIGN a)" unfolding e by simp
  have "(unat a + 4095) div 4096 * 4096 + (unat a + 4095) mod 4096 = unat a + 4095" "(unat a + 4095) mod 4096 < 4096" by simp_all
  then show "a \<le> PAGE_ALIGN a" "unat (PAGE_ALIGN a) < unat a + 4096" using 1 unfolding word_le_nat_alt by linarith+
qed

lemma PAGE_ALIGN_aligned: "page_aligned a \<Longrightarrow> unat a + 4096 \<le> 2 ^ 32 \<Longrightarrow> PAGE_ALIGN a = a"
proof -
  assume a: "page_aligned a" "unat a + 4096 \<le> 2 ^ 32"
  obtain q where q: "unat a = 4096 * q" using a(1) by (rule page_alignedE)
  have "(4096 * q + 4095) div 4096 = q" by simp
  then have "unat (PAGE_ALIGN a) = unat a" using PAGE_ALIGN_ok(1) [OF a(2)] q by simp
  then show ?thesis by (rule word_unat_eq_iff [THEN iffD2])
qed

lemma do_mmap_ok:
  assumes al: "unat addr = 4096 * a" "unat len = 4096 * m" "0 < m" "4096 * (a + m + 2) \<le> 2 ^ 32"
    and ap: "\<forall>i\<in>set (mm_mmap p). apart addr (addr + len) i"
    and w: "whole_tables st" "frames_ok (kframes (mheap st))" "m < card (free_set (kframes (mheap st)))"
    and tb: "\<forall>i\<le>m. has_table st (mm_pd p) (addr + of_nat i * 0x1000)"
    and kh: "kheap_rep (mheap st) L" "kheap_room (Suc n) (mheap st)"
  shows "\<exists>p' st' area. do_mmap addr len p st = Inr (0, p', st')
    \<and> p' = p\<lparr>mm_mmap := insert_vm (mm_mmap p) \<lparr>va_at = area, vm_start = addr, vm_end = addr + len\<rparr>\<rparr>
    \<and> (\<forall>i\<le>m. mapped_at st' (mm_pd p) (addr + of_nat i * 0x1000))
    \<and> (\<forall>v. mapped_at st (mm_pd p) v \<longrightarrow> vpage st' (mm_pd p) v = vpage st (mm_pd p) v)
    \<and> (\<forall>v. has_table st (mm_pd p) v \<longrightarrow> has_table st' (mm_pd p) v) \<and> whole_tables st' \<and> frames_ok (kframes (mheap st'))
    \<and> card (free_set (kframes (mheap st))) \<le> Suc m + card (free_set (kframes (mheap st')))
    \<and> frame_dims (kframes (mheap st')) = frame_dims (kframes (mheap st))
    \<and> (\<exists>L'. kheap_rep (mheap st') L') \<and> kheap_room n (mheap st')"
proof -
  have pg: "unat (addr + of_nat i * 0x1000) = 4096 * (a + i)" if "i \<le> Suc m" for i
  proof -
    have "4096 * (a + i) < 2 ^ 32" using that al(4) by simp
    then have b: "4096 * i < 2 ^ 32" "unat addr + 4096 * i < 2 ^ 32" using al(1) by simp_all
    have "of_nat i * 0x1000 = (of_nat (4096 * i) :: u32)" by simp
    then have "unat (of_nat i * 0x1000 :: u32) = 4096 * i" using unat_of_nat32 [OF b(1)] by (simp only:)
    then show ?thesis using b(2) al(1) by (subst unat_add_lem [THEN iffD1]) simp_all
  qed
  have len: "addr + len = addr + of_nat m * 0x1000" "PAGE_ALIGN len = len" "len \<noteq> 0"
  proof -
    have "unat (of_nat (4096 * m) :: u32) = 4096 * m" using al(4) by (intro unat_of_nat32) simp
    then have "len = of_nat (4096 * m)" using al(2) by (simp add: word_unat_eq_iff del: of_nat_mult)
    then show "addr + len = addr + of_nat m * 0x1000" by simp
    show "PAGE_ALIGN len = len" using al(2,4) by (intro PAGE_ALIGN_aligned) (simp_all add: page_aligned_def)
    show "len \<noteq> 0" using al(2,3) by auto
  qed
  have "filter (apart addr (addr + len)) (mm_mmap p) = mm_mmap p" "filter (\<lambda>i. \<not> apart addr (addr + len) i) (mm_mmap p) = []"
    using ap by (simp_all add: filter_id_conv filter_empty_conv)
  then have un: "do_munmap addr len p st = Inr (0, p, st)"
    using len(2,3) by (simp add: do_munmap_def unlink_loop_eq Let_def)
  have le: "addr + of_nat i * 0x1000 \<le> addr + len \<longleftrightarrow> i \<le> m" if "i \<le> Suc m" for i
    unfolding len(1) word_le_nat_alt using pg [OF that] pg [of m] by simp
  have "Suc m < page_fuel" using al(4) by (simp add: page_fuel_def)
  moreover have "\<forall>i<Suc m. has_table st (mm_pd p) (addr + of_nat i * 0x1000) \<and> addr + of_nat i * 0x1000 \<le> addr + len"
    using tb le by (simp add: less_Suc_eq_le)
  moreover have "\<not> addr + of_nat (Suc m) * 0x1000 \<le> addr + len" using le [of "Suc m"] by simp
  ultimately obtain st' where l: "page_loop page_fuel (\<lambda>i _. i \<le> addr + len) (map_user (mm_pd p)) addr st = Inr st'"
    "grows (mm_pd p) st st'" "\<forall>i<Suc m. mapped_at st' (mm_pd p) (addr + of_nat i * 0x1000)"
    "whole_tables st'" "frames_ok (kframes (mheap st'))"
    "card (free_set (kframes (mheap st))) \<le> Suc m + card (free_set (kframes (mheap st')))"
    using map_loop_ok [OF w(1,2), of "Suc m" page_fuel "mm_pd p" addr "addr + len"] w(3) by auto
  have mh: "mheap st' = (mheap st)\<lparr>kframes := kframes (mheap st')\<rparr>" using l(2) by (simp add: grows_def)
  have "ks (mheap st') = ks (mheap st)" using arg_cong [OF mh, of ks] by simp
  then have "kheap_rep (mheap st') L" "kheap_room (Suc n) (mheap st')"
    using kh by (simp_all add: kheap_rep_def kheap_room_def)
  then obtain area k2 where k: "kmalloc 12 (mheap st') = Inr (area, k2)" "area \<noteq> 0" "kheap_rep k2 (insert area L)"
    "kheap_room n k2" "kframes k2 = kframes (mheap st')"
    using kmalloc_fresh [of "mheap st'" L n 12] by auto
  let ?st = "st'\<lparr>mheap := k2\<rparr>"
  have vq: "vpage ?st dir v = vpage st' dir v" for dir v by (simp add: vpage_def page_at_def tabl_at_def dir_at_def)
  have "do_mmap addr len p st = Inr (0, p\<lparr>mm_mmap := insert_vm (mm_mmap p) \<lparr>va_at = area, vm_start = addr, vm_end = addr + len\<rparr>\<rparr>, ?st)"
    using len(2,3) un l(1) k by (simp add: do_mmap_def Let_def)
  moreover have "\<forall>i\<le>m. mapped_at ?st (mm_pd p) (addr + of_nat i * 0x1000)"
    using l(3) vq by (simp add: mapped_at_def less_Suc_eq_le)
  moreover have "\<forall>v. mapped_at st (mm_pd p) v \<longrightarrow> vpage ?st (mm_pd p) v = vpage st (mm_pd p) v"
    using l(2) vq by (simp add: grows_def)
  moreover have "\<forall>v. has_table st (mm_pd p) v \<longrightarrow> has_table ?st (mm_pd p) v"
    using has_table_grows [OF l(2)] by (simp add: has_table_def)
  moreover have "whole_tables ?st" "frames_ok (kframes (mheap ?st))"
    "card (free_set (kframes (mheap st))) \<le> Suc m + card (free_set (kframes (mheap ?st)))"
    "frame_dims (kframes (mheap ?st)) = frame_dims (kframes (mheap st))" "\<exists>L'. kheap_rep (mheap ?st) L'" "kheap_room n (mheap ?st)"
    using l(2,4-6) k(3-5) by (auto simp: whole_tables_def grows_def)
  ultimately show ?thesis by blast
qed

text \<open>C32: Growing the break over a page boundary: when the tables of the new range exist, enough frames are
  free and no memory area overlaps the range, \<^verbatim>\<open>sys_brk\<close> returns the new break, keeps the areas sorted
  by start address, and has mapped every page from the old to the new break to a frame; every page that
  was mapped before is mapped as before.\<close>

theorem sys_brk_grows:
  assumes "mm_brk p < brk" "unat brk + 0x3000 \<le> 2 ^ 32"
    and "unat (PAGE_ALIGN brk) = unat (PAGE_ALIGN (mm_brk p)) + 4096 * m" "0 < m"
    and "\<forall>i\<in>set (mm_mmap p). apart (PAGE_ALIGN (mm_brk p)) (PAGE_ALIGN brk) i" "areas_sorted (mm_mmap p)"
    and "whole_tables st" "frames_ok (kframes (mheap st))" "m < card (free_set (kframes (mheap st)))"
    and "\<forall>i\<le>m. has_table st (mm_pd p) (PAGE_ALIGN (mm_brk p) + of_nat i * 0x1000)"
    and "0 \<le> sint (free_pages (kframes (mheap st)))" "kheap_rep (mheap st) L" "kheap_room 1 (mheap st)"
  shows "\<exists>p' st'. sys_brk brk p st = Inr (brk, p', st') \<and> mm_brk p' = brk \<and> areas_sorted (mm_mmap p')
    \<and> (\<forall>i\<le>m. mapped_at st' (mm_pd p) (PAGE_ALIGN (mm_brk p) + of_nat i * 0x1000))
    \<and> (\<forall>v. mapped_at st (mm_pd p) v \<longrightarrow> vpage st' (mm_pd p) v = vpage st (mm_pd p) v)"
proof -
  let ?old = "PAGE_ALIGN (mm_brk p)" and ?new = "PAGE_ALIGN brk" and ?p = "p\<lparr>mm_brk := brk\<rparr>"
  have b: "unat brk + 4096 \<le> 2 ^ 32" "unat (mm_brk p) + 4096 \<le> 2 ^ 32"
    using assms(1,2) by (simp_all add: word_less_nat_alt)
  obtain a where a: "unat ?old = 4096 * a" using PAGE_ALIGN_ok(2) [OF b(2)] by (rule page_alignedE)
  have len: "unat (?new - ?old) = 4096 * m" using assms(3) by (subst unat_sub) (simp_all add: word_le_nat_alt)
  have ne: "?old \<noteq> ?new" using assms(3,4) by auto
  have room: "4096 * (a + m + 2) \<le> 2 ^ 32"
    using PAGE_ALIGN_ok(4) [OF b(1)] assms(2,3) a by simp
  have sum: "?old + (?new - ?old) = ?new" by simp
  obtain p' st' area where m: "do_mmap ?old (?new - ?old) ?p st = Inr (0, p', st')"
    "p' = ?p\<lparr>mm_mmap := insert_vm (mm_mmap ?p) \<lparr>va_at = area, vm_start = ?old, vm_end = ?old + (?new - ?old)\<rparr>\<rparr>"
    "\<forall>i\<le>m. mapped_at st' (mm_pd ?p) (?old + of_nat i * 0x1000)"
    "\<forall>v. mapped_at st (mm_pd ?p) v \<longrightarrow> vpage st' (mm_pd ?p) v = vpage st (mm_pd ?p) v"
    using do_mmap_ok [OF a len assms(4) room, of ?p st L 0] assms(5,7-10,12,13) unfolding sum by auto
  have nlt: "\<not> brk < mm_brk p" using assms(1) by simp
  have "sys_brk brk p st = Inr (brk, p', st')"
    using assms(1,11) ne m(1) nlt by (simp add: sys_brk_def Let_def not_less [symmetric])
  moreover have "mm_brk p' = brk" "areas_sorted (mm_mmap p')" using m(2) insert_vm_sorted [OF assms(6)] by simp_all
  ultimately show ?thesis using m(3,4) by auto
qed

definition brk_demo :: mmu where
  "brk_demo = \<lparr>mheap = (empty_heap 0xc0000000)\<lparr>kframes := clone_demo_frames\<rparr>,
     tables = [0x2000 \<mapsto> replicate 1024 page_zero], dirs = [0x20000 \<mapsto> dir_zero\<lparr>tabls := 0x2000 # replicate 1023 0\<rparr>],
     kernel_pd = 0x20000, current_pd = 0x20000, cr3 = 0, paging = True, mem = (\<lambda>f. []), isr_routines = replicate 256 0\<rparr>"

lemma brk_demo_ok:
  "whole_tables brk_demo" "PAGE_DIRECTORY_INDEX v = 0 \<Longrightarrow> has_table brk_demo 0x20000 v"
  "kframes (mheap brk_demo) = clone_demo_frames" "1 < card (free_set clone_demo_frames)" "mmu.current_pd brk_demo = 0x20000"
proof -
  show "whole_tables brk_demo" by (simp add: whole_tables_def brk_demo_def page_zero_def)
  show "has_table brk_demo 0x20000 v" if "PAGE_DIRECTORY_INDEX v = 0" using that by (simp add: has_table_def brk_demo_def)
  show "kframes (mheap brk_demo) = clone_demo_frames" "mmu.current_pd brk_demo = 0x20000" by (simp_all add: brk_demo_def)
  have "{1, 2} \<subseteq> free_set clone_demo_frames"
    unfolding free_set_def clone_demo_frames_ok(1) by (simp add: clone_demo_frames_def)
  then have "card {1, 2 :: nat} \<le> card (free_set clone_demo_frames)" by (intro card_mono) (simp add: free_set_def)
  then show "1 < card (free_set clone_demo_frames)" by simp
qed

theorem sys_brk_grows_witness:
  "\<exists>p' st'. sys_brk 0x1800 \<lparr>mm_brk = 0x1000, mm_mmap = [], mm_pd = 0x20000\<rparr> brk_demo = Inr (0x1800, p', st')
    \<and> mapped_at st' 0x20000 0x1000"
proof -
  let ?p = "\<lparr>mm_brk = 0x1000, mm_mmap = [], mm_pd = 0x20000\<rparr>"
  have al: "PAGE_ALIGN 0x1800 = 0x2000" "PAGE_ALIGN 0x1000 = 0x1000" by (simp_all add: PAGE_ALIGN_def)
  have kf: "sint (free_pages clone_demo_frames) = 30"
    by (simp_all add: free_pages_def clone_demo_frames_def)
  have tt: "\<forall>i\<le>1. has_table brk_demo (mm_pd ?p) (PAGE_ALIGN (mm_brk ?p) + of_nat i * 0x1000)"
    using al by (auto intro!: brk_demo_ok(2) simp: le_Suc_eq PAGE_DIRECTORY_INDEX_def)
  have h: "kheap_rep (mheap brk_demo) {}" "kheap_room 1 (mheap brk_demo)"
    using empty_heap_rep [of "0xc0000000"]
    by (simp_all add: brk_demo_def kheap_rep_def kheap_room_def heap_room_def empty_heap_def)
  from sys_brk_grows [of ?p "0x1800" 1 brk_demo "{}"] al kf brk_demo_ok(1,3,4) tt h clone_demo_frames_ok(2)
  obtain p' st' where "sys_brk 0x1800 ?p brk_demo = Inr (0x1800, p', st')"
    "\<forall>i\<le>1. mapped_at st' 0x20000 (0x1000 + of_nat i * 0x1000)" by (auto simp: areas_sorted_def)
  moreover from this(2) have "mapped_at st' 0x20000 (0x1000 + of_nat 0 * 0x1000)" by blast
  ultimately show ?thesis by auto
qed

end
