(* ===== verification/Fork.thy ===== *)
theory Fork
  imports Mmap Sched
begin

text \<open>
  Creation, forking and release of processes (\<^verbatim>\<open>src/kernel/process.c\<close>).  The scheduler owns the
  kernel heap; the paging code works on it through \<open>with_mmu\<close>.  Fields of \<^verbatim>\<open>process_t\<close> that the
  scheduler does not use are in \<open>task\<close>, under the same address.
\<close>

section \<open>State\<close>

record registers =
  r_gs :: u32
  r_fs :: u32
  r_es :: u32
  r_ds :: u32
  r_edi :: u32
  r_esi :: u32
  r_ebp_saved :: u32
  r_esp_saved :: u32
  r_ebx :: u32
  r_edx :: u32
  r_ecx :: u32
  r_eax :: u32
  r_int_no :: u32
  r_err_code :: u32
  r_eip_saved :: u32
  r_cs :: u32
  r_eflags :: u32
  r_useresp :: u32
  r_ss :: u32

record fd_set =
  fd_at :: u32
  fd_entries :: "u32 list"
  fd_length :: u32
  fd_capacity :: u32
  fd_refs :: u32

record task =
  t_uid :: u32
  t_gid :: u32
  t_name :: bytes
  t_ustack :: u32
  t_img_entry :: u32
  t_img_size :: u32
  t_brk :: u32
  t_mmap :: "vm_area list"
  t_fds :: u32
  t_syscall_regs :: u32

text \<open>\<open>saved_regs\<close> are the register frames that \<^verbatim>\<open>syscall_regs\<close> may point to, \<open>kstacks\<close> the contents of the kernel
  stacks by their lowest address, \<open>node_refs\<close> the reference counts of the file nodes.\<close>

record pworld =
  pw_sched :: sched
  pw_mmu :: mmu
  tasks :: "u32 \<Rightarrow> task"
  fdsets :: "u32 \<rightharpoonup> fd_set"
  node_refs :: "u32 \<Rightarrow> u32"
  next_pid :: u32
  init_process :: u32
  kstacks :: "u32 \<rightharpoonup> bytes"
  saved_regs :: "u32 \<rightharpoonup> registers"

definition NR_OPEN :: u32 where "NR_OPEN = 256"
definition KSTACK_SIZE :: u32 where "KSTACK_SIZE = 0x2000"
definition KINIT_STACK_BOTTOM :: u32 where "KINIT_STACK_BOTTOM = 0xe0000000"
definition KINIT_STACK_SIZE :: u32 where "KINIT_STACK_SIZE = 0x2000"
definition ECHILD :: int where "ECHILD = 10"

text \<open>Running a heap operation, and one of the paging code, on the heap of the scheduler.\<close>

definition put_heap :: "kheap \<Rightarrow> pworld \<Rightarrow> pworld" where
  "put_heap kh w = w\<lparr>pw_sched := (pw_sched w)\<lparr>heap := kh\<rparr>\<rparr>"

definition with_heap :: "(kheap \<Rightarrow> ('a \<times> kheap) res) \<Rightarrow> pworld \<Rightarrow> ('a \<times> pworld) res" where
  "with_heap f w = rmap (\<lambda>(x, kh). (x, put_heap kh w)) (f (heap (pw_sched w)))"

definition kfree_w :: "u32 \<Rightarrow> pworld \<Rightarrow> pworld res" where
  "kfree_w a w = rmap (\<lambda>kh. put_heap kh w) (kfree a (heap (pw_sched w)))"

definition synced :: "pworld \<Rightarrow> mmu" where
  "synced w = (pw_mmu w)\<lparr>mheap := heap (pw_sched w)\<rparr>"

definition with_mmu :: "(mmu \<Rightarrow> ('a \<times> mmu) res) \<Rightarrow> pworld \<Rightarrow> ('a \<times> pworld) res" where
  "with_mmu f w = rmap (\<lambda>(x, m). (x, (put_heap (mheap m) w)\<lparr>pw_mmu := m\<rparr>)) (f (synced w))"

definition upd_task :: "u32 \<Rightarrow> (task \<Rightarrow> task) \<Rightarrow> pworld \<Rightarrow> pworld" where
  "upd_task p f w = w\<lparr>tasks := (tasks w)(p := f (tasks w p))\<rparr>"

definition upd_proc :: "u32 \<Rightarrow> (proc \<Rightarrow> proc) \<Rightarrow> pworld \<Rightarrow> pworld" where
  "upd_proc p f w = w\<lparr>pw_sched := proc_upd p f (pw_sched w)\<rparr>"

definition upd_intr :: "(intr \<Rightarrow> intr) \<Rightarrow> pworld \<Rightarrow> pworld" where
  "upd_intr f w = w\<lparr>pw_sched := (pw_sched w)\<lparr>intr_st := f (intr_st (pw_sched w))\<rparr>\<rparr>"

definition enqueue_w :: "u32 \<Rightarrow> pworld \<Rightarrow> pworld res" where
  "enqueue_w p w = rmap (\<lambda>s. w\<lparr>pw_sched := s\<rparr>) (sched_enqueue p (pw_sched w))"

section \<open>Creation\<close>

text \<open>\<^verbatim>\<open>dup_mmap\<close>: when an allocation fails, the areas copied so far stay.\<close>

fun dup_mmap :: "vm_area list \<Rightarrow> kheap \<Rightarrow> ((int \<times> vm_area list) \<times> kheap) res" where
  "dup_mmap [] kh = Inr ((0, []), kh)"
| "dup_mmap (i # is) kh =
     rbind (kmalloc 12 kh) (\<lambda>(tmp, kh).
     if tmp = 0 then Inr ((- ENOMEM, []), kh)
     else rmap (\<lambda>((r, as), kh). ((r, i\<lparr>va_at := tmp\<rparr> # as), kh)) (dup_mmap is kh))"

text \<open>\<^verbatim>\<open>vfs_clone\<close> of \<^verbatim>\<open>src/fs/fs.c\<close>; its test \<^verbatim>\<open>refs >= 0\<close> always holds for the unsigned counter.\<close>

definition vfs_clone :: "u32 \<Rightarrow> pworld \<Rightarrow> u32 \<times> pworld" where
  "vfs_clone source w =
     (if source = 0 then (0, w)
      else (source, w\<lparr>node_refs := (node_refs w)(source := node_refs w source + 1)\<rparr>))"

fun clone_fds :: "nat \<Rightarrow> nat \<Rightarrow> u32 list \<Rightarrow> u32 list \<Rightarrow> pworld \<Rightarrow> (u32 list \<times> pworld) res" where
  "clone_fds 0 i ps es w = Inr (es, w)"
| "clone_fds (Suc n) i ps es w =
     (if i < length ps \<and> i < length es
      then let (v, w) = vfs_clone (ps ! i) w in clone_fds n (Suc i) ps (es[i := v]) w
      else Inl Out_of_bounds)"

definition fds_at :: "u32 \<Rightarrow> pworld \<Rightarrow> fd_set res" where
  "fds_at a w = (case fdsets w a of None \<Rightarrow> Inl Null_deref | Some f \<Rightarrow> Inr f)"

text \<open>The file table of a new process with \<open>len\<close> entries in use and room for \<open>cap\<close>; \<open>g\<close> is what the
  memory of its entries holds before they are written.\<close>

definition create_fds :: "(nat \<Rightarrow> u32) \<Rightarrow> u32 \<Rightarrow> u32 \<Rightarrow> u32 list \<Rightarrow> pworld \<Rightarrow> (u32 \<times> pworld) res" where
  "create_fds g len cap ps w =
     rbind (with_heap (kmalloc 16) w) (\<lambda>(fds, w).
     rbind (with_heap (kmalloc (4 * cap)) w) (\<lambda>(ea, w).
     if fds = 0 \<or> ea = 0 then Inl Null_deref
     else rbind (clone_fds (unat len) 0 ps (map g [0..<unat cap]) w) (\<lambda>(es, w).
     Inr (fds, w\<lparr>fdsets := (fdsets w)(fds \<mapsto>
            \<lparr>fd_at = ea, fd_entries = es, fd_length = len, fd_capacity = cap, fd_refs = 1\<rparr>)\<rparr>))))"

definition init_task :: "task \<Rightarrow> task" where
  "init_task t = t\<lparr>t_uid := 500, t_gid := 500, t_name := bytes_of ''[default]'' @ 0 # drop 10 (t_name t), t_syscall_regs := 0\<rparr>"

definition init_proc :: "u32 \<Rightarrow> proc \<Rightarrow> proc" where
  "init_proc pid q = q\<lparr>p_id := pid, p_esp := 0, p_ebp := 0, p_eip := 0, p_state := PROCESS_READY,
     p_end_tick := 0, p_end_subtick := 0\<rparr>"

definition inherit :: "task \<Rightarrow> task \<Rightarrow> task" where
  "inherit pt t = t\<lparr>t_ustack := t_ustack pt, t_brk := t_brk pt, t_img_entry := t_img_entry pt,
     t_img_size := t_img_size pt, t_mmap := []\<rparr>"

definition create_child :: "(nat \<Rightarrow> u32) \<Rightarrow> u32 \<Rightarrow> u32 \<Rightarrow> pworld \<Rightarrow> (u32 \<times> pworld) res" where
  "create_child g parent p w =
     rbind (with_heap (kmalloc KSTACK_SIZE) w) (\<lambda>(ks, w).
     if ks = 0 then Inl Null_deref
     else let w = upd_proc p (\<lambda>q. q\<lparr>p_kstack := ks + KSTACK_SIZE\<rparr>) w;
              w = w\<lparr>kstacks := (kstacks w)(ks \<mapsto> replicate (unat KSTACK_SIZE) 0)\<rparr>;
              pt = tasks w parent; w = upd_task p (inherit pt) w in
     rbind (with_heap (dup_mmap (t_mmap pt)) w) (\<lambda>((_, as), w).
     let w = upd_task p (\<lambda>t. t\<lparr>t_mmap := as\<rparr>) w in
     rbind (fds_at (t_fds pt) w) (\<lambda>f. create_fds g (fd_length f) (fd_capacity f) (fd_entries f) w)))"

definition process_create :: "(nat \<Rightarrow> u32) \<Rightarrow> u32 \<Rightarrow> pworld \<Rightarrow> (u32 \<times> pworld) res" where
  "process_create g parent w =
     rbind (with_heap (kmalloc 136) w) (\<lambda>(p, w).
     if p = 0 then Inl Null_deref
     else let pid = next_pid w;
              w = upd_task p init_task (upd_proc p (init_proc pid) (w\<lparr>next_pid := pid + 1\<rparr>)) in
     rbind (if parent \<noteq> 0 then create_child g parent p w
            else create_fds g 0 NR_OPEN [] (upd_task p (\<lambda>t. t\<lparr>t_brk := 0, t_ustack := 0, t_mmap := []\<rparr>) w)) (\<lambda>(fds, w).
     Inr (p, upd_proc p (\<lambda>q. q\<lparr>p_status := 0\<rparr>) (upd_task p (\<lambda>t. t\<lparr>t_fds := fds\<rparr>) w))))"

text \<open>\<^verbatim>\<open>PUSH\<close>: the stack pointer moves down by the size of the item, whose bytes are stored there; \<open>base\<close> is the
  lowest address of the stack.\<close>

definition le32 :: "u32 \<Rightarrow> bytes" where
  "le32 v = [ucast v, ucast (drop_bit 8 v), ucast (drop_bit 16 v), ucast (drop_bit 24 v)]"

definition PUSH :: "u32 \<Rightarrow> bytes \<Rightarrow> u32 \<Rightarrow> pworld \<Rightarrow> (u32 \<times> pworld) res" where
  "PUSH base item stack w =
     (let stack = stack - of_nat (length item); off = unat (stack - base) in
      case kstacks w base of
        None \<Rightarrow> Inl Null_deref
      | Some s \<Rightarrow>
          if off + length item \<le> length s
          then Inr (stack, w\<lparr>kstacks := (kstacks w)(base \<mapsto> take off s @ item @ drop (off + length item) s)\<rparr>)
          else Inl Out_of_bounds)"

definition process_spawn_tasklet :: "(nat \<Rightarrow> u32) \<Rightarrow> u32 \<Rightarrow> u32 \<Rightarrow> u32 \<Rightarrow> pworld \<Rightarrow> (u32 \<times> pworld) res" where
  "process_spawn_tasklet g tasklet name argp w =
     (let w = upd_intr interrupt_disable w in
      rbind (process_create g (current (pw_sched w)) w) (\<lambda>(p, w).
      let w = upd_proc p (\<lambda>q. q\<lparr>p_pd := kernel_pd (pw_mmu w)\<rparr>) w; ebp = p_kstack (procs (pw_sched w) p);
          base = ebp - KSTACK_SIZE in
      rbind (PUSH base (le32 name) ebp w) (\<lambda>(esp, w).
      rbind (PUSH base (le32 argp) esp w) (\<lambda>(esp, w).
      rbind (enqueue_w p (upd_proc p (\<lambda>q. q\<lparr>p_esp := esp, p_ebp := ebp, p_eip := tasklet\<rparr>) w)) (\<lambda>w.
      Inr (p_id (procs (pw_sched w) p), upd_intr interrupt_resume w))))))"

definition reg_bytes :: "registers \<Rightarrow> bytes" where
  "reg_bytes r = concat (map le32 [r_gs r, r_fs r, r_es r, r_ds r, r_edi r, r_esi r, r_ebp_saved r, r_esp_saved r,
     r_ebx r, r_edx r, r_ecx r, r_eax r, r_int_no r, r_err_code r, r_eip_saved r, r_cs r, r_eflags r, r_useresp r, r_ss r])"

text \<open>\<^verbatim>\<open>sys_fork\<close>: \<open>local\<close> is the address of the local variable \<^verbatim>\<open>regs\<close>, to which the child's \<^verbatim>\<open>syscall_regs\<close> still
  points after the call, and \<open>ret\<close> the address of \<^verbatim>\<open>return_to_userspace\<close>.\<close>

definition regs_at :: "u32 \<Rightarrow> pworld \<Rightarrow> registers res" where
  "regs_at a w = (case saved_regs w a of None \<Rightarrow> Inl Null_deref | Some r \<Rightarrow> Inr r)"

definition put_regs :: "u32 \<Rightarrow> registers \<Rightarrow> pworld \<Rightarrow> pworld" where
  "put_regs a r w = w\<lparr>saved_regs := (saved_regs w)(a \<mapsto> r)\<rparr>"

text \<open>From the new process to the end of \<^verbatim>\<open>sys_fork\<close>.\<close>

definition fork_tail :: "u32 \<Rightarrow> u32 \<Rightarrow> u32 \<Rightarrow> u32 \<Rightarrow> u32 \<Rightarrow> pworld \<Rightarrow> (u32 \<times> pworld) res" where
  "fork_tail local ret parent ppd p w =
     (let w = upd_proc p (\<lambda>q. q\<lparr>p_pd := ppd\<rparr>) w in
      rbind (regs_at (t_syscall_regs (tasks w parent)) w) (\<lambda>r.
      let w = upd_task p (\<lambda>t. t\<lparr>t_syscall_regs := local\<rparr>) (put_regs local r w);
          ebp = p_kstack (procs (pw_sched w) p); r = r\<lparr>r_eax := 0\<rparr>; w = put_regs local r w in
      rbind (PUSH (ebp - KSTACK_SIZE) (reg_bytes r) ebp w) (\<lambda>(esp, w).
      rbind (enqueue_w p (upd_proc p (\<lambda>q. q\<lparr>p_esp := esp, p_ebp := ebp, p_eip := ret\<rparr>) w)) (\<lambda>w.
      Inr (p_id (procs (pw_sched w) p), upd_intr interrupt_resume w)))))"

definition sys_fork :: "(nat \<Rightarrow> u32) \<Rightarrow> u32 \<Rightarrow> u32 \<Rightarrow> pworld \<Rightarrow> (u32 \<times> pworld) res" where
  "sys_fork g local ret w =
     (let w = upd_intr interrupt_disable w; parent = current (pw_sched w); ra = t_syscall_regs (tasks w parent) in
      rbind (regs_at ra w) (\<lambda>r.
      let w = put_regs ra (r\<lparr>r_eax := 0\<rparr>) w in
      rbind (with_mmu (page_dir_clone (p_pd (procs (pw_sched w) parent))) w) (\<lambda>(ppd, w).
      rbind (process_create g parent w) (\<lambda>(p, w). fork_tail local ret parent ppd p w))))"

text \<open>\<^verbatim>\<open>process_init\<close> after \<^verbatim>\<open>move_stack\<close>.\<close>

definition process_init :: "(nat \<Rightarrow> u32) \<Rightarrow> pworld \<Rightarrow> pworld res" where
  "process_init g w =
     (let w = upd_intr interrupt_disable w; w = w\<lparr>pw_sched := sched_init (pw_sched w)\<rparr> in
      rbind (process_create g 0 w) (\<lambda>(init, w).
      let w = upd_proc init (\<lambda>q. q\<lparr>p_pd := mmu.current_pd (pw_mmu w), p_kstack := KINIT_STACK_BOTTOM,
                                   p_state := PROCESS_RUNING\<rparr>) w;
          w = w\<lparr>init_process := init, pw_sched := (pw_sched w)\<lparr>current := init\<rparr>\<rparr> in
      Inr (upd_intr interrupt_resume w)))"

section \<open>Release\<close>

fun release_pages :: "page list \<Rightarrow> frames \<Rightarrow> frames res" where
  "release_pages [] fr = Inr fr"
| "release_pages (p # ps) fr =
     rbind (if pg_addr p \<noteq> 0 then free_frame (ucast (pg_addr p)) fr else Inr fr) (release_pages ps)"

fun release_tables :: "nat \<Rightarrow> nat \<Rightarrow> page_dir \<Rightarrow> page_dir \<Rightarrow> mmu \<Rightarrow> mmu res" where
  "release_tables 0 i dir k st = Inr st"
| "release_tables (Suc n) i dir k st =
     (if tabls dir ! i = 0 then release_tables n (Suc i) dir k st
      else if tabls k ! i \<noteq> tabls dir ! i
      then rbind (tabl_at st (tabls dir ! i)) (\<lambda>ps.
           rbind (release_pages ps (kframes (mheap st))) (\<lambda>fr.
           rbind (kfree (tabls dir ! i) ((mheap st)\<lparr>kframes := fr\<rparr>)) (\<lambda>kh.
           release_tables n (Suc i) dir k (st\<lparr>mheap := kh\<rparr>))))
      else release_tables n (Suc i) dir k st)"

definition release_directory :: "u32 \<Rightarrow> mmu \<Rightarrow> mmu res" where
  "release_directory dir st =
     rbind (dir_at st dir) (\<lambda>d.
     rbind (dir_at st (kernel_pd st)) (\<lambda>k.
     rbind (release_tables 1024 0 d k st) (\<lambda>st.
     rmap (\<lambda>kh. st\<lparr>mheap := kh\<rparr>) (kfree dir (mheap st)))))"

definition release_process :: "u32 \<Rightarrow> pworld \<Rightarrow> pworld res" where
  "release_process p w =
     (let fds = t_fds (tasks w p); q = procs (pw_sched w) p in
      rbind (fds_at fds w) (\<lambda>f.
      rbind (kfree_w (fd_at f) w) (\<lambda>w.
      rbind (kfree_w fds w) (\<lambda>w.
      rbind (kfree_w (p_kstack q - KSTACK_SIZE) w) (\<lambda>w.
      rbind (if p_pd q \<noteq> kernel_pd (pw_mmu w)
             then rmap snd (with_mmu (\<lambda>m. rmap (\<lambda>m. ((), m)) (release_directory (p_pd q) m)) w)
             else Inr w) (kfree_w p))))))"

text \<open>\<^verbatim>\<open>sys_waitpid\<close> up to the point where it returns or yields: \<open>None\<close> means that the caller has been switched
  away and starts again at \<^verbatim>\<open>repeat\<close> when it is resumed.\<close>

definition sys_waitpid :: "cpu \<Rightarrow> int \<Rightarrow> pworld \<Rightarrow> (int option \<times> pworld) res" where
  "sys_waitpid r pid w =
     (if pid < 0 then Inr (Some (- ECHILD), w)
      else rbind (waitpid_round r pid (pw_sched w)) (\<lambda>(found, s).
      let w = w\<lparr>pw_sched := s\<rparr> in
      case found of
        None \<Rightarrow> Inr (None, w)
      | Some p \<Rightarrow>
          if p_state (procs s p) = PROCESS_FINISHED
          then rmap (\<lambda>w. (Some (p_status (procs s p)), w)) (release_process p w)
          else Inr (Some (- ECHILD), w)))"

section \<open>Heap steps\<close>

text \<open>An allocation leaves the list nodes and the frame map alone.\<close>

definition keeps_nodes :: "kheap \<Rightarrow> kheap \<Rightarrow> bool" where
  "keeps_nodes kh kh' \<longleftrightarrow> nodes kh' = nodes kh \<and> kframes kh' = kframes kh"

text \<open>The heap of the kernel with blocks \<open>L\<close> in use, room for \<open>n\<close> more pages of blocks, and no released huge
  block waiting.\<close>

definition heap_ok :: "kheap \<Rightarrow> u32 set \<Rightarrow> nat \<Rightarrow> bool" where
  "heap_ok kh L n \<longleftrightarrow> kheap_rep kh L \<and> kheap_room n kh \<and> dlist (huge_queue kh) (nodes kh) []"

lemma dlist_empty_nodes: "dlist l h [] = dlist l h' []"
  by (simp add: dlist_def)

lemma heap_ok_small:
  assumes "heap_ok kh L (Suc n)" "unat sz \<le> 4068"
  shows "\<exists>a kh'. kmalloc sz kh = Inr (a, kh') \<and> a \<notin> L \<and> a \<noteq> 0 \<and> heap_ok kh' (insert a L) n \<and> keeps_nodes kh kh'"
proof -
  from kmalloc_fresh [of kh L n sz] assms obtain a kh' where
    "kmalloc sz kh = Inr (a, kh')" "kheap_rep kh' (insert a L)" "a \<notin> L" "a \<noteq> 0" "kheap_room n kh'"
    "nodes kh' = nodes kh" "huge_queue kh' = huge_queue kh" "kframes kh' = kframes kh" by (auto simp: heap_ok_def)
  then show ?thesis using assms(1) by (auto simp: heap_ok_def keeps_nodes_def)
qed

lemma heap_ok_kstack:
  assumes "heap_ok kh L (n + 3)"
  shows "\<exists>a kh'. kmalloc KSTACK_SIZE kh = Inr (a, kh') \<and> a \<noteq> 0 \<and> unat (a + KSTACK_SIZE) = unat a + 0x2000
    \<and> unat (kmalloc_end (ks kh)) < unat a \<and> heap_ok kh' L n \<and> keeps_nodes kh kh'"
proof -
  obtain P F Q where h: "slab_inv (ks kh) P F Q" "kmalloc_start (ks kh) \<noteq> 0" "dlist (huge_queue kh) (nodes kh) []"
    "4096 \<le> unat (kmalloc_end (ks kh))" "unat (kmalloc_end (ks kh)) + 0x2000 * (n + 3) < 2 ^ 32" "kheap_rep kh L"
    using assms by (auto simp: heap_ok_def kheap_rep_def kheap_room_def heap_room_def)
  have big: "4080 < unat KSTACK_SIZE" "unat (kmalloc_end (ks kh)) + unat KSTACK_SIZE + 0x4000 < 2 ^ 32"
    using h(5) by (simp_all add: KSTACK_SIZE_def)
  obtain a kh' where a: "kmalloc KSTACK_SIZE kh = Inr (a, kh')" "unat (kmalloc_end (ks kh)) < unat a"
    "unat a + unat KSTACK_SIZE \<le> unat (kmalloc_end (ks kh'))" "kmalloc_start (ks kh') = kmalloc_start (ks kh)"
    "unat (kmalloc_end (ks kh')) \<le> unat (kmalloc_end (ks kh)) + unat KSTACK_SIZE + 0x4000" "kframes kh' = kframes kh"
    using kmalloc_huge_block [OF h(3,2) big(1) h(1,4) big(2)] by blast
  have k: "kheap_keeps kh kh'" by (rule kmalloc_huge_keeps [OF h(3) big(1) h(4) big(2) a(1) h(2,1)])
  have "unat (a + KSTACK_SIZE) = unat a + 0x2000"
    using a(3) u32_bound [of "kmalloc_end (ks kh')"] by (subst unat_add_lem [THEN iffD1]) (simp_all add: KSTACK_SIZE_def)
  moreover have "a \<noteq> 0" using a(2) by auto
  moreover have "heap_ok kh' L n"
    using k h(3-6) a(2,3,5) by (auto simp: heap_ok_def kheap_keeps_def kheap_room_def heap_room_def KSTACK_SIZE_def)
  moreover have "keeps_nodes kh kh'" using k a(6) by (simp add: kheap_keeps_def keeps_nodes_def)
  ultimately show ?thesis using a(1,2) by blast
qed

lemma dup_mmap_ok:
  assumes "heap_ok kh L (length as + n)"
  shows "\<exists>bs kh'. dup_mmap as kh = Inr ((0, bs), kh') \<and> list_all2 (\<lambda>a b. b = a\<lparr>va_at := va_at b\<rparr>) as bs
    \<and> distinct (map va_at bs) \<and> va_at ` set bs \<inter> L = {} \<and> heap_ok kh' (va_at ` set bs \<union> L) n \<and> keeps_nodes kh kh'"
  using assms
proof (induction as arbitrary: kh L)
  case (Cons a as)
  obtain t kh1 where t: "kmalloc 12 kh = Inr (t, kh1)" "t \<notin> L" "t \<noteq> 0" "heap_ok kh1 (insert t L) (length as + n)"
    "keeps_nodes kh kh1" using heap_ok_small [of kh L "length as + n" 12] Cons.prems by auto
  from Cons.IH [OF t(4)] obtain bs kh2 where b: "dup_mmap as kh1 = Inr ((0, bs), kh2)"
    "list_all2 (\<lambda>a b. b = a\<lparr>va_at := va_at b\<rparr>) as bs" "distinct (map va_at bs)" "va_at ` set bs \<inter> insert t L = {}"
    "heap_ok kh2 (va_at ` set bs \<union> insert t L) n" "keeps_nodes kh1 kh2" by blast
  have "va_at ` set (a\<lparr>va_at := t\<rparr> # bs) \<union> L = va_at ` set bs \<union> insert t L" by auto
  then show ?case using t b by (intro exI [of _ "a\<lparr>va_at := t\<rparr> # bs"] exI [of _ kh2]) (auto simp: keeps_nodes_def)
qed (auto simp: keeps_nodes_def)

section \<open>Creating a process\<close>

text \<open>The counters after one more reference for every entry of \<open>vs\<close>.\<close>

definition add_refs :: "u32 list \<Rightarrow> (u32 \<Rightarrow> u32) \<Rightarrow> u32 \<Rightarrow> u32" where
  "add_refs vs rc v = (if v = 0 then rc v else rc v + of_nat (count_list vs v))"

lemma add_refs_Nil [simp]: "add_refs [] rc = rc" by (simp add: add_refs_def fun_eq_iff)

lemma vfs_clone_refs:
  "vfs_clone v w = (v, w\<lparr>node_refs := add_refs [v] (node_refs w)\<rparr>)"
proof -
  have "node_refs w = add_refs [0] (node_refs w)" by (simp add: add_refs_def fun_eq_iff)
  then have "w\<lparr>node_refs := add_refs [0] (node_refs w)\<rparr> = w" by (metis pworld.surjective pworld.update_convs(5))
  moreover have "(node_refs w)(v := node_refs w v + 1) = add_refs [v] (node_refs w)" if "v \<noteq> 0"
    using that by (auto simp: add_refs_def fun_eq_iff)
  ultimately show ?thesis by (simp add: vfs_clone_def)
qed

lemma add_refs_Cons: "add_refs vs (add_refs [v] rc) = add_refs (v # vs) rc"
  by (auto simp: add_refs_def fun_eq_iff)

lemma clone_fds_ok:
  assumes "i + n \<le> length ps" "i + n \<le> length es"
  shows "clone_fds n i ps es w = Inr (take i es @ take n (drop i ps) @ drop (i + n) es,
    w\<lparr>node_refs := add_refs (take n (drop i ps)) (node_refs w)\<rparr>)"
  using assms
proof (induction n arbitrary: i es w)
  case (Suc n)
  have t: "take (Suc n) (drop i ps) = ps ! i # take n (drop (Suc i) ps)"
    using Suc.prems(1) by (simp add: Cons_nth_drop_Suc [symmetric])
  have e: "take (Suc i) (es[i := ps ! i]) = take i es @ [ps ! i]" "drop (Suc i + n) (es[i := ps ! i]) = drop (i + Suc n) es"
    using Suc.prems(2) by (simp_all add: take_Suc_conv_app_nth)
  show ?case
    using Suc.IH [of "Suc i" "es[i := ps ! i]" "w\<lparr>node_refs := add_refs [ps ! i] (node_refs w)\<rparr>"] Suc.prems
    by (simp add: vfs_clone_refs t e add_refs_Cons)
qed simp

definition fds_ok :: "fd_set \<Rightarrow> bool" where
  "fds_ok f \<longleftrightarrow> fd_length f \<le> fd_capacity f \<and> length (fd_entries f) = unat (fd_capacity f) \<and> unat (fd_capacity f) \<le> 1017"

text \<open>The file table a process inherits: the open entries, the same lengths, and memory not written yet.\<close>

definition fds_copy :: "(nat \<Rightarrow> u32) \<Rightarrow> u32 \<Rightarrow> fd_set \<Rightarrow> fd_set" where
  "fds_copy g ea f = \<lparr>fd_at = ea,
     fd_entries = take (unat (fd_length f)) (fd_entries f) @ drop (unat (fd_length f)) (map g [0..<unat (fd_capacity f)]),
     fd_length = fd_length f, fd_capacity = fd_capacity f, fd_refs = 1\<rparr>"

lemma with_heap_ok [simp]:
  "f (heap (pw_sched w)) = Inr (x, kh) \<Longrightarrow> with_heap f w = Inr (x, put_heap kh w)"
  by (simp add: with_heap_def)

lemma put_heap_sel [simp]:
  "heap (pw_sched (put_heap kh w)) = kh" "procs (pw_sched (put_heap kh w)) = procs (pw_sched w)"
  "tasks (put_heap kh w) = tasks w" "fdsets (put_heap kh w) = fdsets w" "node_refs (put_heap kh w) = node_refs w"
  "next_pid (put_heap kh w) = next_pid w" "kstacks (put_heap kh w) = kstacks w" "saved_regs (put_heap kh w) = saved_regs w"
  "pw_mmu (put_heap kh w) = pw_mmu w" "put_heap kh (put_heap kh' w) = put_heap kh w"
  by (simp_all add: put_heap_def)

lemma create_fds_ok:
  assumes "heap_ok (heap (pw_sched w)) L (n + 2)" "fds_ok f"
  shows "\<exists>fds ea kh. create_fds g (fd_length f) (fd_capacity f) (fd_entries f) w
      = Inr (fds, (put_heap kh w)\<lparr>node_refs := add_refs (take (unat (fd_length f)) (fd_entries f)) (node_refs w),
               fdsets := (fdsets w)(fds \<mapsto> fds_copy g ea f)\<rparr>)
    \<and> heap_ok kh (insert ea (insert fds L)) n \<and> fds \<notin> L \<and> ea \<notin> insert fds L \<and> keeps_nodes (heap (pw_sched w)) kh"
proof -
  obtain fds kh1 where a: "kmalloc 16 (heap (pw_sched w)) = Inr (fds, kh1)" "fds \<notin> L" "fds \<noteq> 0"
    "heap_ok kh1 (insert fds L) (Suc n)" "keeps_nodes (heap (pw_sched w)) kh1"
    using heap_ok_small [of "heap (pw_sched w)" L "Suc n" 16] assms(1) by auto
  have "unat (4 * fd_capacity f) \<le> 4068"
    using assms(2) by (simp add: fds_ok_def unat_word_ariths)
  from heap_ok_small [OF a(4) this] obtain ea kh where b: "kmalloc (4 * fd_capacity f) kh1 = Inr (ea, kh)"
    "ea \<notin> insert fds L" "ea \<noteq> 0" "heap_ok kh (insert ea (insert fds L)) n" "keeps_nodes kh1 kh" by blast
  have len: "unat (fd_length f) \<le> unat (fd_capacity f)" using assms(2) by (simp add: fds_ok_def word_le_nat_alt)
  have "create_fds g (fd_length f) (fd_capacity f) (fd_entries f) w
      = Inr (fds, (put_heap kh w)\<lparr>node_refs := add_refs (take (unat (fd_length f)) (fd_entries f)) (node_refs w),
               fdsets := (fdsets w)(fds \<mapsto> fds_copy g ea f)\<rparr>)"
    using a(1,3) b(1,3) len assms(2) by (simp add: create_fds_def clone_fds_ok fds_ok_def fds_copy_def)
  then show ?thesis using a b by (auto simp: keeps_nodes_def)
qed

text \<open>The child record and what the creation leaves in the world.\<close>

definition child_task :: "task \<Rightarrow> vm_area list \<Rightarrow> u32 \<Rightarrow> task \<Rightarrow> task" where
  "child_task pt as fds t = (inherit pt (init_task t))\<lparr>t_mmap := as, t_fds := fds\<rparr>"

definition child_proc :: "u32 \<Rightarrow> u32 \<Rightarrow> proc \<Rightarrow> proc" where
  "child_proc pid st q = (init_proc pid q)\<lparr>p_kstack := st + KSTACK_SIZE, p_status := 0\<rparr>"

definition created :: "(nat \<Rightarrow> u32) \<Rightarrow> u32 \<Rightarrow> u32 \<Rightarrow> u32 \<Rightarrow> vm_area list \<Rightarrow> u32 \<Rightarrow> u32 \<Rightarrow> fd_set \<Rightarrow> kheap \<Rightarrow> pworld \<Rightarrow> pworld" where
  "created g parent p stk as fds ea f kh w =
     w\<lparr>pw_sched := (pw_sched w)\<lparr>heap := kh, procs := (procs (pw_sched w))(p := child_proc (next_pid w) stk (procs (pw_sched w) p))\<rparr>,
       tasks := (tasks w)(p := child_task (tasks w parent) as fds (tasks w p)),
       next_pid := next_pid w + 1, kstacks := (kstacks w)(stk \<mapsto> replicate 0x2000 0),
       node_refs := add_refs (take (unat (fd_length f)) (fd_entries f)) (node_refs w),
       fdsets := (fdsets w)(fds \<mapsto> fds_copy g ea f)\<rparr>"

lemma process_create_ok:
  assumes h: "heap_ok (heap (pw_sched w)) L (length (t_mmap (tasks w parent)) + (n + 6))"
    and par: "parent \<in> L" "parent \<noteq> 0" and f: "fdsets w (t_fds (tasks w parent)) = Some f" "fds_ok f"
  shows "\<exists>p stk as fds ea kh L'. process_create g parent w = Inr (p, created g parent p stk as fds ea f kh w)
    \<and> p \<notin> L \<and> p \<noteq> 0 \<and> unat (stk + KSTACK_SIZE) = unat stk + 0x2000
    \<and> list_all2 (\<lambda>a b. b = a\<lparr>va_at := va_at b\<rparr>) (t_mmap (tasks w parent)) as \<and> va_at ` set as \<inter> L = {}
    \<and> heap_ok kh L' n \<and> L \<union> {p, fds, ea} \<union> va_at ` set as \<subseteq> L' \<and> {fds, ea} \<inter> L = {}
    \<and> keeps_nodes (heap (pw_sched w)) kh"
proof -
  let ?m = "t_mmap (tasks w parent)"
  obtain p kh1 where p: "kmalloc 136 (heap (pw_sched w)) = Inr (p, kh1)" "p \<notin> L" "p \<noteq> 0"
    "heap_ok kh1 (insert p L) (length ?m + (n + 2) + 3)" "keeps_nodes (heap (pw_sched w)) kh1"
  proof -
    have e: "length ?m + (n + 6) = Suc (length ?m + (n + 2) + 3)" by simp
    have "unat (136 :: u32) \<le> 4068" by simp
    from heap_ok_small [OF h [unfolded e] this] show ?thesis using that by blast
  qed
  obtain stk kh2 where k: "kmalloc KSTACK_SIZE kh1 = Inr (stk, kh2)" "stk \<noteq> 0" "unat (stk + KSTACK_SIZE) = unat stk + 0x2000"
    "heap_ok kh2 (insert p L) (length ?m + (n + 2))" "keeps_nodes kh1 kh2"
    using heap_ok_kstack [OF p(4)] by blast
  from dup_mmap_ok [OF k(4)] obtain as kh3 where
    d: "dup_mmap ?m kh2 = Inr ((0, as), kh3)" "list_all2 (\<lambda>a b. b = a\<lparr>va_at := va_at b\<rparr>) ?m as"
      "va_at ` set as \<inter> insert p L = {}" "heap_ok kh3 (va_at ` set as \<union> insert p L) (n + 2)" "keeps_nodes kh2 kh3"
    by blast
  have ne: "parent \<noteq> p" using p(2) par(1) by blast
  define w1 where "w1 = upd_task p init_task (upd_proc p (init_proc (next_pid w)) ((put_heap kh1 w)\<lparr>next_pid := next_pid w + 1\<rparr>))"
  define w2 where "w2 = upd_task p (inherit (tasks w parent)) ((upd_proc p (\<lambda>q. q\<lparr>p_kstack := stk + KSTACK_SIZE\<rparr>) (put_heap kh2 w1))
    \<lparr>kstacks := (kstacks w)(stk \<mapsto> replicate 0x2000 0)\<rparr>)"
  define w3 where "w3 = upd_task p (\<lambda>t. t\<lparr>t_mmap := as\<rparr>) (put_heap kh3 w2)"
  note ws = w1_def w2_def w3_def upd_task_def upd_proc_def proc_upd_def put_heap_def
  have t: "tasks w1 parent = tasks w parent" "heap (pw_sched w1) = kh1" "heap (pw_sched w2) = kh2" "heap (pw_sched w3) = kh3"
    "fdsets w3 = fdsets w" "node_refs w3 = node_refs w" using ne by (simp_all add: ws)
  obtain fds ea kh where c: "create_fds g (fd_length f) (fd_capacity f) (fd_entries f) w3 =
      Inr (fds, (put_heap kh w3)\<lparr>node_refs := add_refs (take (unat (fd_length f)) (fd_entries f)) (node_refs w),
               fdsets := (fdsets w)(fds \<mapsto> fds_copy g ea f)\<rparr>)"
    "heap_ok kh (insert ea (insert fds (va_at ` set as \<union> insert p L))) n" "fds \<notin> va_at ` set as \<union> insert p L"
    "ea \<notin> insert fds (va_at ` set as \<union> insert p L)" "keeps_nodes kh3 kh"
    using create_fds_ok [of w3 _ n f g] d(4) f(2) unfolding t by blast
  have "create_child g parent p w1 = Inr (fds, (put_heap kh w3)\<lparr>node_refs := add_refs (take (unat (fd_length f)) (fd_entries f)) (node_refs w),
               fdsets := (fdsets w)(fds \<mapsto> fds_copy g ea f)\<rparr>)"
  proof -
    have 1: "with_heap (kmalloc KSTACK_SIZE) w1 = Inr (stk, put_heap kh2 w1)" using k(1) t(2) by simp
    have 2: "with_heap (dup_mmap ?m) w2 = Inr ((0, as), put_heap kh3 w2)" using d(1) t(3) by simp
    have 3: "fds_at (t_fds (tasks w parent)) w3 = Inr f" using f(1) t(5) by (simp add: fds_at_def)
    have 4: "tasks ((upd_proc p (\<lambda>q. q\<lparr>p_kstack := stk + KSTACK_SIZE\<rparr>) (put_heap kh2 w1))
        \<lparr>kstacks := (kstacks w)(stk \<mapsto> replicate 0x2000 0)\<rparr>) parent = tasks w parent"
      "kstacks (upd_proc p (\<lambda>q. q\<lparr>p_kstack := stk + KSTACK_SIZE\<rparr>) (put_heap kh2 w1)) = kstacks w"
      "unat KSTACK_SIZE = 0x2000"
      using t(1) by (simp_all add: upd_proc_def w1_def upd_task_def KSTACK_SIZE_def)
    show ?thesis unfolding create_child_def 1 rbind.simps(2) case_prod_conv Let_def 4 w2_def [symmetric] 2 w3_def [symmetric] 3 c(1)
      using k(2) by simp
  qed
  moreover have "upd_proc p (\<lambda>q. q\<lparr>p_status := 0\<rparr>) (upd_task p (\<lambda>t. t\<lparr>t_fds := fds\<rparr>)
      ((put_heap kh w3)\<lparr>node_refs := add_refs (take (unat (fd_length f)) (fd_entries f)) (node_refs w),
               fdsets := (fdsets w)(fds \<mapsto> fds_copy g ea f)\<rparr>)) = created g parent p stk as fds ea f kh w"
    by (rule pworld.equality) (simp_all add: created_def ws child_task_def child_proc_def init_proc_def)
  ultimately have "process_create g parent w = Inr (p, created g parent p stk as fds ea f kh w)"
    unfolding process_create_def with_heap_ok [of "kmalloc 136", OF p(1)] rbind.simps(2) case_prod_conv Let_def put_heap_sel w1_def [symmetric]
    using p(3) par(2) by (simp only: if_False if_True rbind.simps(2) case_prod_conv not_False_eq_True simp_thms)
  moreover have "va_at ` set as \<inter> L = {}" "{fds, ea} \<inter> L = {}"
    "L \<union> {p, fds, ea} \<union> va_at ` set as \<subseteq> insert ea (insert fds (va_at ` set as \<union> insert p L))"
    using d(3) c(3,4) by blast+
  moreover have "keeps_nodes (heap (pw_sched w)) kh" using p(5) k(5) d(5) c(5) by (simp add: keeps_nodes_def)
  ultimately show ?thesis using p(2,3) k(3) d(2) c(2) by blast
qed

section \<open>Forking\<close>

lemma le32_length [simp]: "length (le32 v) = 4" by (simp add: le32_def)

lemma reg_bytes_length [simp]: "length (reg_bytes r) = 76" by (simp add: reg_bytes_def)

lemma PUSH_ok:
  assumes "kstacks w base = Some s" "length s = 0x2000" "unat (base + KSTACK_SIZE) = unat base + 0x2000"
    and "length item \<le> 0x2000"
  shows "PUSH base item (base + KSTACK_SIZE) w = Inr (base + KSTACK_SIZE - of_nat (length item),
     w\<lparr>kstacks := (kstacks w)(base \<mapsto> take (0x2000 - length item) s @ item)\<rparr>)"
proof -
  have "unat (KSTACK_SIZE - of_nat (length item)) = 0x2000 - length item"
    using assms(4) by (subst unat_sub) (auto simp: KSTACK_SIZE_def word_le_nat_alt unat_of_nat32)
  then show ?thesis using assms(1,2,4) by (simp add: PUSH_def Let_def)
qed

lemma heap_ok_of_huge_room:
  assumes "huge_room kh r" "kheap_rep kh L" "n \<le> 90000"
  shows "heap_ok kh L n"
proof -
  have "unat (kmalloc_end (ks kh)) + r \<le> 0xd0000000" "0xc0000000 \<le> unat (kmalloc_end (ks kh))" "dlist (huge_queue kh) (nodes kh) []"
    using assms(1) by (simp_all add: huge_room_def)
  then show ?thesis using assms(2,3) by (simp add: heap_ok_def kheap_room_def heap_room_def)
qed

lemma enqueue_keeps_frames:
  assumes "sched_enqueue p st = Inr st'" "heap_ok (heap st) L (Suc n)"
  shows "kframes (heap st') = kframes (heap st)"
proof -
  obtain a kh where "kmalloc 12 (heap st) = Inr (a, kh)" "kframes kh = kframes (heap st)"
    using heap_ok_small [OF assms(2), of 12] by (auto simp: keeps_nodes_def)
  then show ?thesis using assms(1)
    by (auto simp: sched_enqueue_def on_list_def list_push_front_def Let_def res_simps rmap_def split: if_splits)
qed

text \<open>What a process needs to be forked: the frame of its system call, an intact file table, and memory for the
  copy of its address space.\<close>

definition forkable :: "pworld \<Rightarrow> page_dir \<Rightarrow> page_dir \<Rightarrow> registers \<Rightarrow> fd_set \<Rightarrow> bool" where
  "forkable w s k r f \<longleftrightarrow>
     (let par = current (pw_sched w); st = synced w in
      par \<noteq> 0 \<and> saved_regs w (t_syscall_regs (tasks w par)) = Some r
      \<and> fdsets w (t_fds (tasks w par)) = Some f \<and> fds_ok f \<and> length (t_mmap (tasks w par)) \<le> 1000
      \<and> dirs st (p_pd (procs (pw_sched w) par)) = Some s \<and> dirs st (kernel_pd st) = Some k
      \<and> huge_room (mheap st) (0x6004 + 1024 * 0x5000) \<and> kernel_mapped st \<and> tables_below st
      \<and> (\<forall>a\<in>dom (dirs st). unat a < unat (kmalloc_end (ks (mheap st))))
      \<and> frames_ok (kframes (mheap st)) \<and> demand (tables st) s k 0 1024 \<le> card (free_set (kframes (mheap st)))
      \<and> (\<forall>i<1024. private_slot s k i \<longrightarrow>
           (\<exists>ps. tables st (tabls s ! i) = Some ps \<and> frame_set ps \<subseteq> used_set (kframes (mheap st)))))"

lemma with_mmu_clone:
  assumes "forkable w s k r f" "sched_rep (pw_sched w) L rq fq sq" "n \<le> 90000"
  shows "\<exists>dir m d. with_mmu (page_dir_clone (p_pd (procs (pw_sched w) (current (pw_sched w))))) w
      = Inr (dir, (put_heap (mheap m) w)\<lparr>pw_mmu := m\<rparr>)
    \<and> dir \<notin> dom (dirs (pw_mmu w)) \<and> dirs m = (dirs (pw_mmu w))(dir \<mapsto> d)
    \<and> (\<forall>i<1024. slot_ok (used_set (kframes (heap (pw_sched w)))) m s k d i) \<and> extends (synced w) m
    \<and> heap_ok (mheap m) L n \<and> sched_rep ((pw_sched w)\<lparr>heap := mheap m\<rparr>) L rq fq sq"
proof -
  let ?st = "synced w"
  have a: "dirs ?st (p_pd (procs (pw_sched w) (current (pw_sched w)))) = Some s" "dirs ?st (kernel_pd ?st) = Some k"
    "huge_room (mheap ?st) (0x6004 + 1024 * 0x5000 + 0)" "kernel_mapped ?st" "tables_below ?st"
    "\<forall>a\<in>dom (dirs ?st). unat a < unat (kmalloc_end (ks (mheap ?st)))"
    "frames_ok (kframes (mheap ?st))" "demand (tables ?st) s k 0 1024 \<le> card (free_set (kframes (mheap ?st)))"
    "\<forall>i<1024. private_slot s k i \<longrightarrow>
      (\<exists>ps. tables ?st (tabls s ! i) = Some ps \<and> frame_set ps \<subseteq> used_set (kframes (mheap ?st)))"
    using assms(1) unfolding forkable_def Let_def add_0_right by blast+
  from page_dir_clone_ok [OF a] obtain dir m d where
    c: "page_dir_clone (p_pd (procs (pw_sched w) (current (pw_sched w)))) ?st = Inr (dir, m)" "dir \<notin> dom (dirs ?st)"
      "dirs m = (dirs ?st)(dir \<mapsto> d)" "\<forall>i<1024. slot_ok (used_set (kframes (mheap ?st))) m s k d i"
      "extends ?st m" "huge_room (mheap m) 0"
    by (elim exE conjE) (rule that; assumption)
  have s: "mheap ?st = heap (pw_sched w)" "dirs ?st = dirs (pw_mmu w)" by (simp_all add: synced_def)
  have k: "kheap_keeps (heap (pw_sched w)) (mheap m)" using c(5) s(1) by (simp add: extends_def)
  then have rep: "kheap_rep (mheap m) L" "nodes (mheap m) = nodes (heap (pw_sched w))"
    using sched_repD(1) [OF assms(2)] by (auto simp: kheap_keeps_def)
  have "sched_rep ((pw_sched w)\<lparr>heap := mheap m\<rparr>) L rq fq sq"
    using assms(2) rep by (simp add: sched_rep_def)
  moreover have "with_mmu (page_dir_clone (p_pd (procs (pw_sched w) (current (pw_sched w))))) w
      = Inr (dir, (put_heap (mheap m) w)\<lparr>pw_mmu := m\<rparr>)" using c(1) by (simp add: with_mmu_def)
  moreover have "heap_ok (mheap m) L n" by (rule heap_ok_of_huge_room [OF c(6) rep(1) assms(3)])
  ultimately show ?thesis using c(2-5) unfolding s by blast
qed

text \<open>The child of a fork: a copy of the parent that returns 0 from the system call.\<close>

definition child_of :: "u32 \<Rightarrow> u32 \<Rightarrow> registers \<Rightarrow> fd_set \<Rightarrow> u32 \<Rightarrow> pworld \<Rightarrow> pworld \<Rightarrow> bool" where
  "child_of dir ret r f p w w' \<longleftrightarrow>
     (let q = procs (pw_sched w') p; t = tasks w' p; pt = tasks w (current (pw_sched w)) in
      p_id q = next_pid w \<and> p_state q = PROCESS_READY \<and> p_pd q = dir \<and> p_eip q = ret \<and> p_esp q = p_kstack q - 76
      \<and> (\<exists>stk. kstacks w' (p_kstack q - KSTACK_SIZE) = Some (stk @ reg_bytes (r\<lparr>r_eax := 0\<rparr>)) \<and> length stk = 0x2000 - 76)
      \<and> t_brk t = t_brk pt \<and> t_ustack t = t_ustack pt
      \<and> map (\<lambda>a. (vm_start a, vm_end a)) (t_mmap t) = map (\<lambda>a. (vm_start a, vm_end a)) (t_mmap pt)
      \<and> (\<exists>f'. fdsets w' (t_fds t) = Some f' \<and> fd_length f' = fd_length f
           \<and> take (unat (fd_length f)) (fd_entries f') = take (unat (fd_length f)) (fd_entries f)))"

lemma areas_copied:
  "list_all2 (\<lambda>a b. b = a\<lparr>va_at := va_at b\<rparr>) as bs \<Longrightarrow>
   map (\<lambda>a. (vm_start a, vm_end a)) bs = map (\<lambda>a. (vm_start a, vm_end a)) as"
  by (induction rule: list_all2_induct) (auto, metis vm_area.select_convs(2) vm_area.surjective vm_area.update_convs(1), metis vm_area.select_convs(3) vm_area.surjective vm_area.update_convs(1))

lemma fork_tail_ok:
  assumes rep: "sched_rep (pw_sched w) L rq fq sq" "heap_ok (heap (pw_sched w)) L (Suc n)" "p \<noteq> 0"
    and r: "saved_regs w (t_syscall_regs (tasks w parent)) = Some r"
    and k: "p_kstack (procs (pw_sched w) p) = stk + KSTACK_SIZE" "kstacks w stk = Some s" "length s = 0x2000"
      "unat (stk + KSTACK_SIZE) = unat stk + 0x2000"
  shows "\<exists>a w' L'. fork_tail local ret parent ppd p w = Inr (p_id (procs (pw_sched w) p), w')
    \<and> sched_rep (pw_sched w') L' ((a, p) # rq) fq sq \<and> kframes (heap (pw_sched w')) = kframes (heap (pw_sched w))
    \<and> procs (pw_sched w') = (procs (pw_sched w))(p := (procs (pw_sched w) p)\<lparr>p_pd := ppd, p_esp := stk + KSTACK_SIZE - 76,
         p_ebp := stk + KSTACK_SIZE, p_eip := ret\<rparr>)
    \<and> tasks w' = (tasks w)(p := (tasks w p)\<lparr>t_syscall_regs := local\<rparr>)
    \<and> kstacks w' = (kstacks w)(stk \<mapsto> take (0x2000 - 76) s @ reg_bytes (r\<lparr>r_eax := 0\<rparr>))
    \<and> fdsets w' = fdsets w \<and> node_refs w' = node_refs w \<and> next_pid w' = next_pid w \<and> pw_mmu w' = pw_mmu w
    \<and> intr_st (pw_sched w') = interrupt_resume (intr_st (pw_sched w)) \<and> current (pw_sched w') = current (pw_sched w)"
proof -
  define w1 where "w1 = put_regs local (r\<lparr>r_eax := 0\<rparr>) (upd_task p (\<lambda>t. t\<lparr>t_syscall_regs := local\<rparr>) (put_regs local r
    (upd_proc p (\<lambda>q. q\<lparr>p_pd := ppd\<rparr>) w)))"
  define w2 where "w2 = w1\<lparr>kstacks := (kstacks w)(stk \<mapsto> take (0x2000 - 76) s @ reg_bytes (r\<lparr>r_eax := 0\<rparr>))\<rparr>"
  define w3 where "w3 = upd_proc p (\<lambda>q. q\<lparr>p_esp := stk + KSTACK_SIZE - 76, p_ebp := stk + KSTACK_SIZE, p_eip := ret\<rparr>) w2"
  note ws = w1_def w2_def w3_def put_regs_def upd_task_def upd_proc_def proc_upd_def
  have "kstacks w1 = kstacks w" by (simp add: ws)
  then have push: "PUSH stk (reg_bytes (r\<lparr>r_eax := 0\<rparr>)) (stk + KSTACK_SIZE) w1 = Inr (stk + KSTACK_SIZE - 76, w2)"
    using PUSH_ok [of w1 stk s "reg_bytes (r\<lparr>r_eax := 0\<rparr>)"] k by (simp add: w2_def)
  have h: "heap (pw_sched w3) = heap (pw_sched w)" by (simp add: ws)
  have "sched_rep (pw_sched w3) L rq fq sq" using rep(1) by (simp add: ws sched_rep_def)
  moreover have "kheap_room (Suc n) (heap (pw_sched w3))" using rep(2) h by (simp add: heap_ok_def)
  ultimately obtain a q kh where e: "sched_enqueue p (pw_sched w3) = Inr ((pw_sched w3)\<lparr>process_queue := q, heap := kh\<rparr>)"
    "sched_rep ((pw_sched w3)\<lparr>process_queue := q, heap := kh\<rparr>) (insert a L) ((a, p) # rq) fq sq"
    using sched_enqueue_rep [OF _ rep(3), of "pw_sched w3" L rq fq sq n] by blast
  have fr: "kframes kh = kframes (heap (pw_sched w))"
    using enqueue_keeps_frames [OF e(1), of L n] rep(2) h by simp
  define w' where "w' = upd_intr interrupt_resume (w3\<lparr>pw_sched := (pw_sched w3)\<lparr>process_queue := q, heap := kh\<rparr>\<rparr>)"
  have "regs_at (t_syscall_regs (tasks (upd_proc p (\<lambda>q. q\<lparr>p_pd := ppd\<rparr>) w) parent)) (upd_proc p (\<lambda>q. q\<lparr>p_pd := ppd\<rparr>) w) = Inr r"
    using r by (simp add: upd_proc_def regs_at_def)
  moreover have "p_kstack (procs (pw_sched (upd_task p (\<lambda>t. t\<lparr>t_syscall_regs := local\<rparr>) (put_regs local r
      (upd_proc p (\<lambda>q. q\<lparr>p_pd := ppd\<rparr>) w)))) p) = stk + KSTACK_SIZE" using k(1) by (simp add: ws)
  moreover have "enqueue_w p w3 = Inr (w3\<lparr>pw_sched := (pw_sched w3)\<lparr>process_queue := q, heap := kh\<rparr>\<rparr>)"
    using e(1) by (simp add: enqueue_w_def)
  ultimately have "fork_tail local ret parent ppd p w = Inr (p_id (procs (pw_sched w) p), w')"
    using push by (simp add: fork_tail_def Let_def w1_def [symmetric] w3_def [symmetric] w'_def [symmetric])
      (simp add: ws)
  moreover have "sched_rep (pw_sched w') (insert a L) ((a, p) # rq) fq sq"
    using e(2) by (simp add: w'_def upd_intr_def sched_rep_def)
  moreover have "kframes (heap (pw_sched w')) = kframes (heap (pw_sched w))" using fr by (simp add: w'_def upd_intr_def)
  moreover have "procs (pw_sched w') = procs (pw_sched w3)" "tasks w' = tasks w3" "kstacks w' = kstacks w3" "fdsets w' = fdsets w3"
    "node_refs w' = node_refs w3" "next_pid w' = next_pid w3" "pw_mmu w' = pw_mmu w3"
    "intr_st (pw_sched w') = interrupt_resume (intr_st (pw_sched w3))" "current (pw_sched w') = current (pw_sched w3)"
    by (simp_all add: w'_def upd_intr_def)
  moreover have "procs (pw_sched w3) = (procs (pw_sched w))(p := (procs (pw_sched w) p)\<lparr>p_pd := ppd, p_esp := stk + KSTACK_SIZE - 76,
         p_ebp := stk + KSTACK_SIZE, p_eip := ret\<rparr>)" "tasks w3 = (tasks w)(p := (tasks w p)\<lparr>t_syscall_regs := local\<rparr>)"
    "kstacks w3 = (kstacks w)(stk \<mapsto> take (0x2000 - 76) s @ reg_bytes (r\<lparr>r_eax := 0\<rparr>))"
    "fdsets w3 = fdsets w" "node_refs w3 = node_refs w" "next_pid w3 = next_pid w" "pw_mmu w3 = pw_mmu w"
    "intr_st (pw_sched w3) = intr_st (pw_sched w)" "current (pw_sched w3) = current (pw_sched w)"
    by (simp_all add: ws)
  ultimately show ?thesis by (intro exI [of _ a] exI [of _ w'] exI [of _ "insert a L"]) simp
qed

lemma slot_ok_cong:
  "tables st' = tables st \<Longrightarrow> mem st' = mem st \<Longrightarrow> kframes (mheap st') = kframes (mheap st) \<Longrightarrow>
   slot_ok U st s k d i = slot_ok U st' s k d i"
  by (simp add: slot_ok_def)

text \<open>C7: \<^verbatim>\<open>sys_fork\<close> returns the next process number to the parent and puts a child at the end of the run queue.  The
  child is ready to run at \<^verbatim>\<open>return_to_userspace\<close> with the parent's saved registers on top of its own kernel stack,
  except that \<^verbatim>\<open>eax\<close>, the result of the system call, is 0; it has the same break, user stack, memory areas and open
  files, each open file counts one more reference, and its address space is a copy: kernel tables are shared, every other page is in a fresh
  frame with the same content, and frames that were in use are not written.  The records of all other processes are unchanged.\<close>

theorem sys_fork_child:
  assumes rep: "sched_rep (pw_sched w) L rq fq sq" "current (pw_sched w) \<in> L" and ok: "forkable w s k r f"
  shows "\<exists>w' p a L' dir d. sys_fork g local ret w = Inr (next_pid w, w') \<and> next_pid w' = next_pid w + 1
    \<and> sched_rep (pw_sched w') L' ((a, p) # rq) fq sq \<and> p \<notin> L \<and> child_of dir ret r f p w w'
    \<and> node_refs w' = add_refs (take (unat (fd_length f)) (fd_entries f)) (node_refs w)
    \<and> dir \<notin> dom (dirs (pw_mmu w)) \<and> dirs (pw_mmu w') = (dirs (pw_mmu w))(dir \<mapsto> d)
    \<and> (\<forall>i<1024. slot_ok (used_set (kframes (heap (pw_sched w)))) (synced w') s k d i)
    \<and> (\<forall>fr. unat fr \<in> used_set (kframes (heap (pw_sched w))) \<longrightarrow> mem (pw_mmu w') fr = mem (pw_mmu w) fr)
    \<and> (\<forall>q. q \<noteq> p \<longrightarrow> procs (pw_sched w') q = procs (pw_sched w) q \<and> tasks w' q = tasks w q)"
proof -
  let ?par = "current (pw_sched w)" and ?ra = "t_syscall_regs (tasks w (current (pw_sched w)))" and ?r = "r\<lparr>r_eax := 0\<rparr>"
  define w1 where "w1 = put_regs ?ra ?r (upd_intr interrupt_disable w)"
  have f: "saved_regs w ?ra = Some r" "fdsets w (t_fds (tasks w ?par)) = Some f" "fds_ok f" "?par \<noteq> 0"
    "length (t_mmap (tasks w ?par)) \<le> 1000" using ok unfolding forkable_def Let_def by blast+
  have 1: "tasks w1 = tasks w" "fdsets w1 = fdsets w" "next_pid w1 = next_pid w" "node_refs w1 = node_refs w"
    "pw_mmu w1 = pw_mmu w" "heap (pw_sched w1) = heap (pw_sched w)" "procs (pw_sched w1) = procs (pw_sched w)"
    "current (pw_sched w1) = ?par" "saved_regs w1 ?ra = Some ?r" "synced w1 = synced w"
    by (simp_all add: w1_def put_regs_def upd_intr_def synced_def)
  have ok1: "forkable w1 s k ?r f" using ok unfolding forkable_def Let_def 1 by simp
  have rep1: "sched_rep (pw_sched w1) L rq fq sq" using rep(1) by (simp add: w1_def put_regs_def upd_intr_def sched_rep_def)
  let ?n = "length (t_mmap (tasks w ?par)) + (1 + 6)"
  have n: "?n \<le> 90000" using f(5) by simp
  from with_mmu_clone [OF ok1 rep1 n] obtain dir m d where
    c: "with_mmu (page_dir_clone (p_pd (procs (pw_sched w) ?par))) w1 = Inr (dir, (put_heap (mheap m) w1)\<lparr>pw_mmu := m\<rparr>)"
      "dir \<notin> dom (dirs (pw_mmu w))" "dirs m = (dirs (pw_mmu w))(dir \<mapsto> d)"
      "\<forall>i<1024. slot_ok (used_set (kframes (heap (pw_sched w)))) m s k d i" "extends (synced w) m" "heap_ok (mheap m) L ?n"
      "sched_rep ((pw_sched w1)\<lparr>heap := mheap m\<rparr>) L rq fq sq"
    unfolding 1 by (elim exE conjE) (rule that; assumption)
  define w2 where "w2 = (put_heap (mheap m) w1)\<lparr>pw_mmu := m\<rparr>"
  have 2: "tasks w2 = tasks w" "fdsets w2 = fdsets w" "next_pid w2 = next_pid w" "node_refs w2 = node_refs w"
    "pw_mmu w2 = m" "heap (pw_sched w2) = mheap m" "procs (pw_sched w2) = procs (pw_sched w)"
    "saved_regs w2 ?ra = Some ?r" using 1 by (simp_all add: w2_def put_heap_def)
  have s2: "pw_sched w2 = (pw_sched w1)\<lparr>heap := mheap m\<rparr>" by (simp add: w2_def put_heap_def)
  have hk: "heap_ok (heap (pw_sched w2)) L (length (t_mmap (tasks w2 ?par)) + (1 + 6))" unfolding 2 by (rule c(6))
  have "fdsets w2 (t_fds (tasks w2 ?par)) = Some f" unfolding 2 by (rule f(2))
  from process_create_ok [OF hk rep(2) f(4) this f(3), of g] obtain p stk as fds ea kh L2 where
    p: "process_create g ?par w2 = Inr (p, created g ?par p stk as fds ea f kh w2)" "p \<notin> L" "p \<noteq> 0"
      "unat (stk + KSTACK_SIZE) = unat stk + 0x2000" "list_all2 (\<lambda>a b. b = a\<lparr>va_at := va_at b\<rparr>) (t_mmap (tasks w ?par)) as"
      "heap_ok kh L2 1" "L \<union> {p, fds, ea} \<union> va_at ` set as \<subseteq> L2" "keeps_nodes (mheap m) kh"
    unfolding 2 by (elim exE conjE) (rule that; assumption)
  define w3 where "w3 = created g ?par p stk as fds ea f kh w2"
  have 3: "procs (pw_sched w3) = (procs (pw_sched w))(p := child_proc (next_pid w) stk (procs (pw_sched w) p))"
    "tasks w3 = (tasks w)(p := child_task (tasks w ?par) as fds (tasks w p))" "next_pid w3 = next_pid w + 1"
    "kstacks w3 stk = Some (replicate 0x2000 0)" "node_refs w3 = add_refs (take (unat (fd_length f)) (fd_entries f)) (node_refs w)"
    "fdsets w3 fds = Some (fds_copy g ea f)" "pw_mmu w3 = m" "heap (pw_sched w3) = kh" "saved_regs w3 ?ra = Some ?r"
    using 2 by (simp_all add: w3_def created_def)
  have ne: "?par \<noteq> p" using p(2) rep(2) by blast
  have "kheap_rep kh L2" "nodes kh = nodes (mheap m)" "L \<subseteq> L2" using p(6-8) by (auto simp: heap_ok_def keeps_nodes_def)
  then have rep3: "sched_rep (pw_sched w3) L2 rq fq sq"
    using c(7) by (auto simp: sched_rep_def w3_def created_def s2)
  have hk3: "heap_ok (heap (pw_sched w3)) L2 (Suc 0)" using p(6) 3(8) by simp
  have r3: "saved_regs w3 (t_syscall_regs (tasks w3 ?par)) = Some ?r" using 3(2,9) ne by simp
  have k3: "p_kstack (procs (pw_sched w3) p) = stk + KSTACK_SIZE" by (simp add: 3(1) child_proc_def)
  from fork_tail_ok [OF rep3 hk3 p(3) r3 k3 3(4) length_replicate p(4), of local ret dir] obtain a w' L' where t: "fork_tail local ret ?par dir p w3 = Inr (p_id (procs (pw_sched w3) p), w')"
    "sched_rep (pw_sched w') L' ((a, p) # rq) fq sq" "kframes (heap (pw_sched w')) = kframes (heap (pw_sched w3))"
    "procs (pw_sched w') = (procs (pw_sched w3))(p := (procs (pw_sched w3) p)\<lparr>p_pd := dir, p_esp := stk + KSTACK_SIZE - 76,
         p_ebp := stk + KSTACK_SIZE, p_eip := ret\<rparr>)"
    "tasks w' = (tasks w3)(p := (tasks w3 p)\<lparr>t_syscall_regs := local\<rparr>)"
    "kstacks w' = (kstacks w3)(stk \<mapsto> take (0x2000 - 76) (replicate 0x2000 0) @ reg_bytes (?r\<lparr>r_eax := 0\<rparr>))"
    "fdsets w' = fdsets w3" "node_refs w' = node_refs w3" "next_pid w' = next_pid w3" "pw_mmu w' = pw_mmu w3"
    by (elim exE conjE) (rule that; assumption)
  have i: "tasks (upd_intr interrupt_disable w) = tasks w" "current (pw_sched (upd_intr interrupt_disable w)) = ?par"
    "regs_at ?ra (upd_intr interrupt_disable w) = Inr r" "procs (pw_sched w1) = procs (pw_sched w)"
    using f(1) 1 by (simp_all add: upd_intr_def regs_at_def)
  have "sys_fork g local ret w = Inr (next_pid w, w')"
    unfolding sys_fork_def Let_def i rbind.simps(2) w1_def [symmetric] c(1) w2_def [symmetric] case_prod_conv p(1) w3_def [symmetric] t(1)
    by (simp add: 3(1) child_proc_def init_proc_def)
  moreover have "child_of dir ret r f p w w'"
    using areas_copied [OF p(5)] 3(6) f(3) unfolding child_of_def Let_def t(4-7) 3(1,2)
    by (simp add: child_proc_def child_task_def init_proc_def inherit_def fds_copy_def fds_ok_def word_le_nat_alt)
  moreover have "\<forall>i<1024. slot_ok (used_set (kframes (heap (pw_sched w)))) (synced w') s k d i"
    using c(4) p(8) t(3,10) 3(7,8) slot_ok_cong [of m "synced w'"] by (simp add: synced_def keeps_nodes_def)
  moreover have "\<forall>fr. unat fr \<in> used_set (kframes (heap (pw_sched w))) \<longrightarrow> mem (pw_mmu w') fr = mem (pw_mmu w) fr"
    using c(5) unfolding t(10) 3(7) by (simp add: extends_def synced_def)
  moreover have "dirs (pw_mmu w') = (dirs (pw_mmu w))(dir \<mapsto> d)" using c(3) t(10) 3(7) by simp
  moreover have "procs (pw_sched w') q = procs (pw_sched w) q \<and> tasks w' q = tasks w q" if "q \<noteq> p" for q
    using that t(4,5) 3(1,2) by simp
  ultimately show ?thesis using t(2,8,9) 3(3,5) p(2) c(2) by metis
qed

text \<open>A process with one open file and one memory area forks.\<close>

definition fork_demo :: "u32 \<Rightarrow> kheap \<Rightarrow> pworld" where
  "fork_demo p kh = \<lparr>pw_sched = (boot_sched p)\<lparr>heap := kh, procs := (\<lambda>a. (procs (boot_sched p) a)\<lparr>p_pd := 0x20000\<rparr>)\<rparr>,
     pw_mmu = clone_demo,
     tasks = (\<lambda>_. \<lparr>t_uid = 0, t_gid = 0, t_name = [], t_ustack = 0x30010000, t_img_entry = 0, t_img_size = 0,
       t_brk = 0x31100000, t_mmap = [\<lparr>va_at = 0x40, vm_start = 0x30000000, vm_end = 0x30010000\<rparr>], t_fds = 0x50, t_syscall_regs = 0x5000\<rparr>),
     fdsets = [0x50 \<mapsto> \<lparr>fd_at = 0x60, fd_entries = 0x77 # replicate 255 0, fd_length = 1, fd_capacity = NR_OPEN, fd_refs = 1\<rparr>],
     node_refs = (\<lambda>_. 1), next_pid = 2, init_process = p, kstacks = Map.empty,
     saved_regs = [0x5000 \<mapsto> \<lparr>r_gs = 0, r_fs = 0, r_es = 0, r_ds = 0, r_edi = 0, r_esi = 0, r_ebp_saved = 0, r_esp_saved = 0,
       r_ebx = 0, r_edx = 0, r_ecx = 0, r_eax = 8, r_int_no = 0x80, r_err_code = 0, r_eip_saved = 0x20000000, r_cs = 0x1b,
       r_eflags = 0x202, r_useresp = 0x3000fff0, r_ss = 0x23\<rparr>]\<rparr>"

lemma fork_demo_heap:
  "\<exists>p kh. kmalloc 136 (mheap clone_demo) = Inr (p, kh) \<and> p \<noteq> 0 \<and> kheap_rep kh {p} \<and> kframes kh = clone_demo_frames
     \<and> huge_room kh (0x6004 + 1024 * 0x5000)
     \<and> unat (kmalloc_end (ks (mheap clone_demo))) \<le> unat (kmalloc_end (ks kh))"
proof -
  have r: "kheap_rep (mheap clone_demo) {}" using empty_heap_rep [of "0xc0000000"] by (simp add: clone_demo_def)
  have rm: "kheap_room (Suc 110000) (mheap clone_demo)"
    by (simp add: kheap_room_def heap_room_def clone_demo_def empty_heap_def)
  have sz: "unat (136 :: u32) \<le> 4068" by simp
  from kmalloc_fresh [OF r rm sz] obtain p kh where
    a: "kmalloc 136 (mheap clone_demo) = Inr (p, kh)" "kheap_rep kh {p}" "p \<noteq> 0" "kheap_room 110000 kh"
      "nodes kh = nodes (mheap clone_demo)" "huge_queue kh = huge_queue (mheap clone_demo)"
      "kframes kh = kframes (mheap clone_demo)" "unat (kmalloc_end (ks (mheap clone_demo))) \<le> unat (kmalloc_end (ks kh))"
    by blast
  have "unat (kmalloc_end (ks (mheap clone_demo))) = 0xc0000000" "kframes (mheap clone_demo) = clone_demo_frames"
    "dlist (huge_queue (mheap clone_demo)) (nodes (mheap clone_demo)) []"
    by (simp_all add: clone_demo_def empty_heap_def dlist_def list_create_def)
  moreover from a(2) obtain P F Q where "slab_inv (ks kh) P F Q" "kmalloc_start (ks kh) \<noteq> 0" by (auto simp: kheap_rep_def)
  ultimately have "huge_room kh (0x6004 + 1024 * 0x5000)"
    using a(4,5,6,8) by (auto simp: huge_room_def kheap_room_def heap_room_def)
  then show ?thesis using a \<open>kframes (mheap clone_demo) = clone_demo_frames\<close> by auto
qed

lemma fork_demo_forkable:
  assumes "p \<noteq> 0" "kframes kh = clone_demo_frames" "huge_room kh (0x6004 + 1024 * 0x5000)"
    and "unat (kmalloc_end (ks (mheap clone_demo))) \<le> unat (kmalloc_end (ks kh))"
  shows "forkable (fork_demo p kh) clone_demo_src clone_demo_kernel
    (the (saved_regs (fork_demo p kh) 0x5000)) (the (fdsets (fork_demo p kh) 0x50))"
proof -
  let ?w = "fork_demo p kh"
  have s: "synced ?w = clone_demo\<lparr>mheap := kh\<rparr>" by (simp add: synced_def fork_demo_def)
  have kf: "kframes (mheap clone_demo) = clone_demo_frames" by (simp add: clone_demo_def)
  have "fds_ok (the (fdsets ?w 0x50))" by (simp add: fds_ok_def fork_demo_def NR_OPEN_def)
  moreover have "kernel_mapped (clone_demo\<lparr>mheap := kh\<rparr>)" using clone_demo_ok(4) by (simp add: kernel_mapped_def)
  moreover have "tables_below (clone_demo\<lparr>mheap := kh\<rparr>)"
    using clone_demo_ok(5) assms(4) by (auto simp: tables_below_def dest!: bspec)
  moreover have "\<forall>a\<in>dom (dirs clone_demo). unat a < unat (kmalloc_end (ks kh))"
    using clone_demo_ok(6) assms(4) by (auto dest!: bspec)
  moreover have "current (pw_sched ?w) = p" "p_pd (procs (pw_sched ?w) p) = 0x20000" "t_syscall_regs (tasks ?w p) = 0x5000"
    "t_fds (tasks ?w p) = 0x50" "length (t_mmap (tasks ?w p)) \<le> 1000" "saved_regs ?w 0x5000 \<noteq> None" "fdsets ?w 0x50 \<noteq> None"
    by (simp_all add: fork_demo_def boot_sched_def)
  ultimately show ?thesis
    using clone_demo_ok(1,2,7-9) assms(1-3) unfolding kf forkable_def Let_def s by simp
qed

theorem sys_fork_child_witness:
  "\<exists>p kh w' a L' c. kmalloc 136 (mheap clone_demo) = Inr (p, kh)
     \<and> sys_fork (\<lambda>_. 0) 0xdffff000 0x100000 (fork_demo p kh) = Inr (2, w')
     \<and> sched_rep (pw_sched w') L' [(a, c)] [] [] \<and> p_id (procs (pw_sched w') c) = 2 \<and> node_refs w' 0x77 = 2"
proof -
  obtain p kh where a: "kmalloc 136 (mheap clone_demo) = Inr (p, kh)" "p \<noteq> 0" "kheap_rep kh {p}" "kframes kh = clone_demo_frames"
    "huge_room kh (0x6004 + 1024 * 0x5000)" "unat (kmalloc_end (ks (mheap clone_demo))) \<le> unat (kmalloc_end (ks kh))"
    using fork_demo_heap by blast
  let ?w = "fork_demo p kh"
  have rep: "sched_rep (pw_sched ?w) {p} [] [] []" "current (pw_sched ?w) \<in> {p}"
    using a(3) by (simp_all add: sched_rep_def fork_demo_def boot_sched_def dlist_def flist_def list_create_def)
  from sys_fork_child [OF rep fork_demo_forkable [OF a(2,4-6)], of "\<lambda>_. 0" "0xdffff000" "0x100000"] obtain w' c a' L' dir where
    "sys_fork (\<lambda>_. 0) 0xdffff000 0x100000 ?w = Inr (next_pid ?w, w')" "sched_rep (pw_sched w') L' [(a', c)] [] []"
    "child_of dir 0x100000 (the (saved_regs ?w 0x5000)) (the (fdsets ?w 0x50)) c ?w w'"
    "node_refs w' = add_refs (take (unat (fd_length (the (fdsets ?w 0x50)))) (fd_entries (the (fdsets ?w 0x50)))) (node_refs ?w)"
    by (elim exE conjE) (rule that; assumption)
  moreover have "next_pid ?w = 2" "node_refs ?w = (\<lambda>_. 1)"
    "take (unat (fd_length (the (fdsets ?w 0x50)))) (fd_entries (the (fdsets ?w 0x50))) = [0x77]" by (simp_all add: fork_demo_def)
  ultimately show ?thesis using a(1)
    by (intro exI [of _ p] exI [of _ kh] exI [of _ w'] exI [of _ a'] exI [of _ L'] exI [of _ c])
      (simp add: child_of_def Let_def add_refs_def)
qed

section \<open>Giving the frames back\<close>

lemma free_frame_used:
  fixes f :: frame_no
  assumes "frames_ok fr" "unat f \<in> used_set fr" "f \<noteq> 0"
  shows "\<exists>fr'. free_frame (ucast f) fr = Inr fr' \<and> used_set fr' = used_set fr - {unat f} \<and> frames_ok fr'"
proof -
  let ?n = "unat f"
  have u: "ucast f = (of_nat ?n :: u32)" by (simp add: of_nat_unat)
  have i: "frame_inv fr" "32 * length (frame_map fr) \<le> 2 ^ 20" "0 \<in> used_set fr" "?n \<noteq> 0"
    using assms(1,3) by (simp_all add: frames_ok_def word_unat_eq_iff)
  obtain fr' where *: "free_frame (of_nat ?n) fr = Inr fr'" "used_set fr' = used_set fr - {?n}"
    "used_frames fr' = used_frames fr - 1" "max_frames fr' = max_frames fr" "length (frame_map fr') = length (frame_map fr)"
    using free_frame_ok [of fr ?n] i(1) assms(2) unfolding frame_inv_def used_set_def by blast
  have "card (used_set fr) = Suc (card (used_set fr'))"
    using card_Suc_Diff1 [OF finite_used_set assms(2)] *(2) by simp
  then have "used_frames fr' = of_nat (card (used_set fr'))" using *(3) i(1) by (simp add: frame_inv_def)
  then have "frames_ok fr'" using *(2,4,5) i unfolding frames_ok_def frame_inv_def small_map_def by auto
  then show ?thesis using *(1,2) unfolding u by blast
qed

lemma release_pages_ok:
  assumes "frames_ok fr" "frame_set ps \<subseteq> used_set fr" "distinct (mapped ps)"
  shows "\<exists>fr'. release_pages ps fr = Inr fr' \<and> used_set fr' = used_set fr - frame_set ps \<and> frames_ok fr'"
  using assms
proof (induction ps arbitrary: fr)
  case (Cons p ps)
  show ?case
  proof (cases "pg_addr p = 0")
    case True
    then show ?thesis using Cons by (simp add: frame_set_def)
  next
    case False
    then have fs: "frame_set (p # ps) = insert (unat (pg_addr p)) (frame_set ps)" by (simp add: frame_set_def)
    have u: "unat (pg_addr p) \<in> used_set fr" "unat (pg_addr p) \<notin> frame_set ps" 
      using False Cons.prems(2,3) by (auto simp: frame_set_def inj_image_mem_iff [OF inj_unsigned])
    obtain fr1 where fr1: "free_frame (ucast (pg_addr p)) fr = Inr fr1" "used_set fr1 = used_set fr - {unat (pg_addr p)}" "frames_ok fr1"
      using free_frame_used [OF Cons.prems(1) u(1) False] by blast
    have "frame_set ps \<subseteq> used_set fr1" using Cons.prems(2) u(2) fr1(2) unfolding fs by blast
    from Cons.IH [OF fr1(3) this] Cons.prems(3) False obtain fr' where
      "release_pages ps fr1 = Inr fr'" "used_set fr' = used_set fr1 - frame_set ps" "frames_ok fr'" by auto
    then show ?thesis using fr1 False unfolding fs by auto
  qed
qed (simp add: frame_set_def)

text \<open>C9: the pages of a copied page table can be released again, and then exactly the frames that were in use before the
  copy are in use: copying a table on a fork and releasing it when the child is collected loses no frame.\<close>

theorem clone_release_frames:
  assumes "frames_ok fr" "length (mapped ps) \<le> card (free_set fr)" "frame_set ps \<subseteq> used_set fr"
  shows "\<exists>qs fr' m' fr''. clone_pages ps fr m = Inr (qs, fr', m') \<and> release_pages qs fr' = Inr fr''
    \<and> used_set fr'' = used_set fr \<and> frames_ok fr''"
proof -
  obtain qs fr' m' where c: "clone_pages ps fr m = Inr (qs, fr', m')" "distinct (mapped qs)"
    "frame_set qs \<inter> used_set fr = {}" "used_set fr' = used_set fr \<union> frame_set qs" "frames_ok fr'"
    using clone_pages_ok [OF assms] by blast
  from release_pages_ok [OF c(5) _ c(2)] c(4) obtain fr'' where
    "release_pages qs fr' = Inr fr''" "used_set fr'' = used_set fr' - frame_set qs" "frames_ok fr''" by auto
  then show ?thesis using c by (intro exI [of _ qs] exI [of _ fr'] exI [of _ m'] exI [of _ fr'']) auto
qed

theorem clone_release_frames_witness:
  "\<exists>qs fr' m' fr''. clone_pages [page_zero\<lparr>pg_addr := 5\<rparr>] clone_demo_frames (\<lambda>_. []) = Inr (qs, fr', m')
     \<and> release_pages qs fr' = Inr fr'' \<and> used_set fr'' = {0, 5}"
proof -
  have "1 < card (free_set clone_demo_frames)" by (rule brk_demo_ok(4))
  then show ?thesis
    using clone_release_frames [OF clone_demo_frames_ok(2), of "[page_zero\<lparr>pg_addr := 5\<rparr>]" "\<lambda>_. []"]
    by (auto simp: clone_demo_frames_ok(1) frame_set_def)
qed

end
