(* ===== verification/StackMove.thy ===== *)
theory StackMove
  imports Mmap
begin

text \<open>
  The stack moves of \<^verbatim>\<open>src/kernel/process.c\<close>: \<^verbatim>\<open>move_stack\<close> takes the boot stack to its place in the kernel's
  address space and \<^verbatim>\<open>relocate_stack\<close> is the routine for a stack that has been copied already.  Both rewrite, word by word, the values that point
  into the old stack.
\<close>

section \<open>Definitions\<close>

text \<open>Virtual memory by bytes; words are little-endian.\<close>

type_synonym vmem = "u32 \<Rightarrow> u8"

definition ld32 :: "vmem \<Rightarrow> u32 \<Rightarrow> u32" where
  "ld32 m a = ucast (m a) OR push_bit 8 (ucast (m (a + 1))) OR push_bit 16 (ucast (m (a + 2)))
     OR push_bit 24 (ucast (m (a + 3)))"

definition st32 :: "u32 \<Rightarrow> u32 \<Rightarrow> vmem \<Rightarrow> vmem" where
  "st32 a v m = m(a := ucast v, a + 1 := ucast (drop_bit 8 v), a + 2 := ucast (drop_bit 16 v),
     a + 3 := ucast (drop_bit 24 v))"

fun copy_loop :: "nat \<Rightarrow> u32 \<Rightarrow> u32 \<Rightarrow> vmem \<Rightarrow> vmem" where
  "copy_loop 0 dst src m = m"
| "copy_loop (Suc n) dst src m = copy_loop n (dst + 1) (src + 1) (m(dst := m src))"

text \<open>The loops count down from the top of the stack and replace a word by \<open>f\<close> of it.\<close>

fun relocate_loop :: "nat \<Rightarrow> (u32 \<Rightarrow> u32) \<Rightarrow> u32 \<Rightarrow> u32 \<Rightarrow> vmem \<Rightarrow> vmem res" where
  "relocate_loop 0 f lo i m = (if i > lo then Inl Diverges else Inr m)"
| "relocate_loop (Suc fuel) f lo i m =
     (if i > lo then relocate_loop fuel f lo (i - 4) (st32 i (f (ld32 m i)) m) else Inr m)"

definition relocate_fuel :: nat where "relocate_fuel = 2 ^ 30"

definition relocate_stack :: "u32 \<Rightarrow> u32 \<Rightarrow> u32 \<Rightarrow> vmem \<Rightarrow> vmem res" where
  "relocate_stack nstack ostack sz m =
     (let off = (if nstack > ostack then nstack - ostack else ostack - nstack) in
      relocate_loop relocate_fuel
        (\<lambda>tmp. if tmp < ostack \<and> tmp > ostack - sz then if nstack > ostack then tmp + off else tmp - off else tmp)
        (nstack - sz) nstack m)"

definition shift_ptr :: "u32 \<Rightarrow> u32 \<Rightarrow> u32 \<Rightarrow> u32 \<Rightarrow> u32" where
  "shift_ptr old_stack_pointer initial_esp offset tmp =
     (if old_stack_pointer < tmp \<and> tmp < initial_esp then tmp + offset else tmp)"

text \<open>\<^verbatim>\<open>move_stack\<close> with the stack and base pointer of the caller; it returns the new ones.\<close>

definition move_stack :: "u32 \<Rightarrow> u32 \<Rightarrow> u32 \<Rightarrow> u32 \<times> u32 \<Rightarrow> vmem \<times> mmu \<Rightarrow> ((u32 \<times> u32) \<times> vmem \<times> mmu) res" where
  "move_stack initial_esp new_stack_start sz old = (\<lambda>(m, st).
     let (old_stack_pointer, old_base_pointer) = old in
     rbind (page_loop page_fuel (\<lambda>i _. i < new_stack_start + 0x1000) (map_user (mmu.current_pd st)) (new_stack_start - sz) st) (\<lambda>st.
     let offset = new_stack_start - initial_esp; new_stack_pointer = old_stack_pointer + offset;
         m = copy_loop (unat (initial_esp - old_stack_pointer)) new_stack_pointer old_stack_pointer m in
     rmap (\<lambda>m. ((new_stack_pointer, old_base_pointer + offset), m, st))
       (relocate_loop relocate_fuel (shift_ptr old_stack_pointer initial_esp offset) (new_stack_start - sz) new_stack_start m)))"

section \<open>Words in memory\<close>

lemma unat_plus_small:
  fixes a :: u32
  assumes "unat a + c < 2 ^ 32"
  shows "unat (a + of_nat c) = unat a + c"
  using assms by (subst unat_add_lem [THEN iffD1]) (simp_all add: unat_of_nat32)

lemma word_bytes:
  fixes a :: u32
  assumes "unat a + 3 < 2 ^ 32"
  shows "unat (a + 1) = unat a + 1" "unat (a + 2) = unat a + 2" "unat (a + 3) = unat a + 3"
  using unat_plus_small [of a 1] unat_plus_small [of a 2] unat_plus_small [of a 3] assms by simp_all

lemma st32_other:
  assumes "unat a + 3 < 2 ^ 32" "unat b < unat a \<or> unat a + 4 \<le> unat b"
  shows "st32 a v m b = m b"
proof -
  have "b \<noteq> a" "b \<noteq> a + 1" "b \<noteq> a + 2" "b \<noteq> a + 3" using assms(2) word_bytes [OF assms(1)] by auto
  then show ?thesis by (simp add: st32_def)
qed

lemma ld32_st32: "ld32 (st32 a v m) a = v"
proof (rule bit_word_eqI)
  fix n assume "n < LENGTH(32)"
  then consider "n < 8" | "8 \<le> n" "n < 16" | "16 \<le> n" "n < 24" | "24 \<le> n" "n < 32" by force
  then show "bit (ld32 (st32 a v m) a) n = bit v n"
    by cases (auto simp: ld32_def st32_def bit_simps)
qed

text \<open>A word depends on its four bytes only.\<close>

lemma ld32_cong:
  assumes "\<And>c. c < 4 \<Longrightarrow> m (a + of_nat c) = m' (b + of_nat c)"
  shows "ld32 m a = ld32 m' b"
  using assms [of 0] assms [of 1] assms [of 2] assms [of 3] by (simp add: ld32_def)

lemma copy_loop_ok:
  assumes "unat dst + n \<le> 2 ^ 32" "unat src + n \<le> 2 ^ 32" "unat src + n \<le> unat dst \<or> unat dst + n \<le> unat src"
  shows "copy_loop n dst src m a = (if unat dst \<le> unat a \<and> unat a < unat dst + n then m (src + (a - dst)) else m a)"
  using assms
proof (induction n arbitrary: dst src m)
  case (Suc n)
  show ?case
  proof (cases "n = 0")
    case False
    have u: "unat (dst + 1) = unat dst + 1" "unat (src + 1) = unat src + 1"
      using unat_plus_small [of dst 1] unat_plus_small [of src 1] Suc.prems False by simp_all
    have "copy_loop (Suc n) dst src m a = (if unat (dst + 1) \<le> unat a \<and> unat a < unat (dst + 1) + n
      then (m(dst := m src)) (src + 1 + (a - (dst + 1))) else (m(dst := m src)) a)"
      unfolding copy_loop.simps using Suc.prems u by (intro Suc.IH) auto
    moreover have "src + (a - dst) \<noteq> dst" if "unat dst + 1 \<le> unat a" "unat a < unat dst + 1 + n"
    proof -
      have "unat (a - dst) = unat a - unat dst" using that by (subst unat_sub) (simp_all add: word_le_nat_alt)
      then have "unat (src + (a - dst)) = unat src + (unat a - unat dst)"
        using that Suc.prems(2) by (subst unat_add_lem [THEN iffD1]) simp_all
      then have "unat (src + (a - dst)) \<noteq> unat dst" using that Suc.prems(3) by linarith
      then show ?thesis by metis
    qed
    moreover have "unat a = unat dst \<longleftrightarrow> a = dst" by (simp add: word_unat_eq_iff)
    moreover have "src + 1 + (a - (dst + 1)) = src + (a - dst)" by (simp add: algebra_simps)
    ultimately show ?thesis using u by (auto simp del: copy_loop.simps)
  next
    case True
    moreover have "unat a = unat dst \<longleftrightarrow> a = dst" by (simp add: word_unat_eq_iff)
    ultimately show ?thesis by auto
  qed
qed auto

text \<open>The loop from \<open>lo + 4 n\<close> down to \<open>lo\<close> ends, and rewrites exactly the \<open>n\<close> words above \<open>lo\<close>.\<close>

lemma relocate_loop_ok:
  assumes "unat i = unat lo + 4 * n" "unat i + 3 < 2 ^ 32" "n \<le> fuel"
  shows "\<exists>m'. relocate_loop fuel f lo i m = Inr m'
    \<and> (\<forall>a j. 1 \<le> j \<longrightarrow> j \<le> n \<longrightarrow> unat a = unat lo + 4 * j \<longrightarrow> ld32 m' a = f (ld32 m a))
    \<and> (\<forall>a. unat a < unat lo + 4 \<or> unat i + 4 \<le> unat a \<longrightarrow> m' a = m a)"
  using assms
proof (induction n arbitrary: i m fuel)
  case 0
  then have "\<not> i > lo" by (simp add: word_less_nat_alt)
  then show ?case by (cases fuel) auto
next
  case (Suc n)
  obtain fl where fl: "fuel = Suc fl" "n \<le> fl" using Suc.prems(3) by (cases fuel) auto
  let ?m = "st32 i (f (ld32 m i)) m"
  have gt: "i > lo" using Suc.prems(1) by (simp add: word_less_nat_alt)
  have i4: "unat (i - 4) = unat lo + 4 * n" using Suc.prems(1) by (subst unat_sub) (simp_all add: word_le_nat_alt)
  from Suc.IH [OF i4 _ fl(2), of ?m] Suc.prems(1,2) obtain m' where
    m: "relocate_loop fl f lo (i - 4) ?m = Inr m'"
      "\<And>a j. 1 \<le> j \<Longrightarrow> j \<le> n \<Longrightarrow> unat a = unat lo + 4 * j \<Longrightarrow> ld32 m' a = f (ld32 ?m a)"
      "\<And>a. unat a < unat lo + 4 \<or> unat (i - 4) + 4 \<le> unat a \<Longrightarrow> m' a = ?m a" using i4 by auto
  have below: "ld32 ?m a = ld32 m a" if "j \<le> n" "unat a = unat lo + 4 * j" for a j
  proof (rule ld32_cong)
    fix c :: nat assume c: "c < 4"
    then have "unat (a + of_nat c) = unat a + c" using that Suc.prems(1,2) by (intro unat_plus_small) simp
    then show "?m (a + of_nat c) = m (a + of_nat c)" using c that Suc.prems(1,2) by (intro st32_other) simp_all
  qed
  have at: "ld32 m' i = ld32 ?m i"
  proof (rule ld32_cong)
    fix c :: nat assume c: "c < 4"
    then have "unat (i + of_nat c) = unat i + c" using Suc.prems(2) by (intro unat_plus_small) simp
    then show "m' (i + of_nat c) = ?m (i + of_nat c)" using i4 Suc.prems(1) by (intro m(3)) simp
  qed
  have "ld32 m' a = f (ld32 m a)" if "1 \<le> j" "j \<le> Suc n" "unat a = unat lo + 4 * j" for a j
  proof (cases "j = Suc n")
    case True
    then have "a = i" using that Suc.prems(1) by (simp add: word_unat_eq_iff)
    then show ?thesis using at by (simp add: ld32_st32)
  next
    case False
    then show ?thesis using m(2) [of j a] below [of j a] that by simp
  qed
  moreover have "m' a = m a" if "unat a < unat lo + 4 \<or> unat i + 4 \<le> unat a" for a
    using m(3) [of a] st32_other [OF Suc.prems(2), of a] that i4 Suc.prems(1) by auto
  ultimately show ?case using m(1) gt fl by (intro exI [of _ m']) auto
qed

lemma relocate_stack_ok:
  assumes "unat sz = 4 * n" "unat nstack = unat (nstack - sz) + unat sz" "unat nstack + 3 < 2 ^ 32"
  shows "\<exists>m'. relocate_stack nstack ostack sz m = Inr m'
    \<and> (\<forall>a j. 1 \<le> j \<longrightarrow> j \<le> n \<longrightarrow> unat a = unat (nstack - sz) + 4 * j \<longrightarrow>
         ld32 m' a = (if ld32 m a < ostack \<and> ld32 m a > ostack - sz then ld32 m a + (nstack - ostack) else ld32 m a))"
proof -
  let ?g = "\<lambda>t. if t < ostack \<and> t > ostack - sz then t + (nstack - ostack) else t"
  have eq: "relocate_stack nstack ostack sz m = relocate_loop relocate_fuel ?g (nstack - sz) nstack m"
    by (cases "nstack > ostack") (simp_all add: relocate_stack_def Let_def add_diff_eq diff_diff_eq2 cong: if_cong)
  have "n \<le> relocate_fuel" using assms(1) u32_bound [of sz] by (simp add: relocate_fuel_def)
  then have "\<exists>m'. relocate_loop relocate_fuel ?g (nstack - sz) nstack m = Inr m'
    \<and> (\<forall>a j. 1 \<le> j \<longrightarrow> j \<le> n \<longrightarrow> unat a = unat (nstack - sz) + 4 * j \<longrightarrow> ld32 m' a = ?g (ld32 m a))
    \<and> (\<forall>a. unat a < unat (nstack - sz) + 4 \<or> unat nstack + 4 \<le> unat a \<longrightarrow> m' a = m a)"
    using assms by (intro relocate_loop_ok) auto
  then show ?thesis unfolding eq by (elim exE conjE) (intro exI conjI; assumption)
qed

section \<open>Moving the boot stack\<close>

lemma less_plus_one:
  assumes "unat (e :: u32) + 1 < 2 ^ 32"
  shows "i < e + 1 \<longleftrightarrow> i \<le> e"
proof -
  have "unat (e + 1) = unat e + 1" using unat_plus_small [of e 1] assms by simp
  then show ?thesis by (simp add: word_less_nat_alt word_le_nat_alt less_Suc_eq_le)
qed

lemma unat_page_offset:
  fixes v :: u32
  assumes "unat v + 4096 * i < 2 ^ 32"
  shows "unat (v + of_nat i * 0x1000) = unat v + 4096 * i"
  using unat_plus_small [of v "4096 * i"] assms by (simp add: mult.commute)

text \<open>The loop that maps the pages of the new stack.\<close>

lemma map_stack_ok:
  assumes "unat tp = unat v + 4096 * n" "unat tp + 0x1000 < 2 ^ 32" "whole_tables st" "frames_ok (kframes (mheap st))"
    and "n < card (free_set (kframes (mheap st)))" "\<forall>i\<le>n. has_table st dir (v + of_nat i * 0x1000)"
  shows "\<exists>st'. page_loop page_fuel (\<lambda>i _. i < tp + 0x1000) (map_user dir) v st = Inr st'
    \<and> (\<forall>i\<le>n. mapped_at st' dir (v + of_nat i * 0x1000))"
proof -
  let ?e = "tp + 0xfff"
  have "unat tp + 0xfff < 2 ^ 32" using assms(2) by linarith
  from unat_plus_small [OF this] have e: "unat ?e = unat tp + 0xfff" by simp
  have c: "(\<lambda>i (_ :: mmu). i < tp + 0x1000) = (\<lambda>i _. i \<le> ?e)"
    using less_plus_one [of ?e] e assms(2) by (simp add: fun_eq_iff add.assoc)
  have off: "unat (v + of_nat i * 0x1000) = unat v + 4096 * i" if "i \<le> Suc n" for i
  proof (rule unat_page_offset)
    have "4096 * i \<le> 4096 * n + 4096" using that by simp
    then show "unat v + 4096 * i < 2 ^ 32" using assms(1,2) by linarith
  qed
  have in': "\<forall>i<Suc n. has_table st dir (v + of_nat i * 0x1000) \<and> v + of_nat i * 0x1000 \<le> ?e"
    using assms(1,6) off e by (auto simp: word_le_nat_alt less_Suc_eq_le)
  have out: "\<not> v + of_nat (Suc n) * 0x1000 \<le> ?e"
    using off [of "Suc n"] assms(1) e by (simp add: word_le_nat_alt)
  have "Suc n < page_fuel" "Suc n \<le> card (free_set (kframes (mheap st)))" using assms(1,2,5) by (simp_all add: page_fuel_def)
  from map_loop_ok [OF assms(3,4) this(2,1) in' out] show ?thesis
    unfolding c by (elim exE conjE) (auto simp: less_Suc_eq_le)
qed



end
