(* ===== verification/UserHeap.thy ===== *)
theory UserHeap
  imports Mmap CString
begin

text \<open>
  The heap of a user program (\<^verbatim>\<open>src/libc/malloc.c\<close>) over the break of its process: \<^verbatim>\<open>sbrk\<close> and the system-call stub of \<^verbatim>\<open>src/libc/syscall.c\<close>,
  first-fit search, \<^verbatim>\<open>malloc\<close>, \<^verbatim>\<open>free\<close>, \<^verbatim>\<open>realloc\<close> and \<^verbatim>\<open>calloc\<close>.  The kernel is behind the
  interface \<open>program_break\<close>, which the model of \<^verbatim>\<open>sys_brk\<close> implements.  Block headers are a typed heap; the bytes of the
  program are a function of the address.
\<close>

section \<open>Operations\<close>

record block_meta =
  bm_size :: u32
  bm_free :: bool
  bm_magic :: u32
  bm_next :: u32

record 'k uheap =
  u_base :: u32
  metas :: "u32 \<rightharpoonup> block_meta"
  ubytes :: "u32 \<Rightarrow> u8"
  u_errno :: int
  kern :: 'k

definition META_SIZE :: u32 where "META_SIZE = 16"
definition MAGIC :: u32 where "MAGIC = 0x34127856"

text \<open>The stub of a system call: a negative result becomes \<open>- 1\<close> and sets \<^verbatim>\<open>errno\<close>.\<close>

definition syscall_brk :: "(u32 \<Rightarrow> 'k \<Rightarrow> (u32 \<times> 'k) res) \<Rightarrow> u32 \<Rightarrow> 'k uheap \<Rightarrow> (u32 \<times> 'k uheap) res" where
  "syscall_brk brk addr h =
     rbind (brk addr (kern h)) (\<lambda>(a, k).
     if sint a \<ge> 0 then Inr (a, h\<lparr>kern := k\<rparr>)
     else rmap (\<lambda>e. (- 1, h\<lparr>kern := k, u_errno := e\<rparr>)) (c_int (- sint a)))"

definition sbrk :: "(u32 \<Rightarrow> 'k \<Rightarrow> (u32 \<times> 'k) res) \<Rightarrow> u32 \<Rightarrow> 'k uheap \<Rightarrow> (u32 \<times> 'k uheap) res" where
  "sbrk brk increment h =
     rbind (syscall_brk brk 0 h) (\<lambda>(p, h).
     rmap (\<lambda>(_, h). (p, h)) (syscall_brk brk (p + increment) h))"

definition meta_at :: "'k uheap \<Rightarrow> u32 \<Rightarrow> block_meta res" where
  "meta_at h a = (case metas h a of None \<Rightarrow> Inl Null_deref | Some b \<Rightarrow> Inr b)"

definition set_meta :: "u32 \<Rightarrow> (block_meta \<Rightarrow> block_meta) \<Rightarrow> 'k uheap \<Rightarrow> 'k uheap res" where
  "set_meta a f h = rmap (\<lambda>b. h\<lparr>metas := (metas h)(a \<mapsto> f b)\<rparr>) (meta_at h a)"

text \<open>The search of \<^verbatim>\<open>find_free_block\<close>: the block found, 0 when there is none, and the last block passed.\<close>

fun find_loop :: "nat \<Rightarrow> u32 \<Rightarrow> u32 \<Rightarrow> u32 \<Rightarrow> 'k uheap \<Rightarrow> (u32 \<times> u32) res" where
  "find_loop fuel sz current lst h =
     (if current = 0 then Inr (0, lst)
      else rbind (meta_at h current) (\<lambda>b.
           if bm_free b \<and> bm_size b \<ge> sz then Inr (current, lst)
           else case fuel of 0 \<Rightarrow> Inl Diverges | Suc f \<Rightarrow> find_loop f sz (bm_next b) current h))"

declare find_loop.simps [simp del]

definition block_fuel :: nat where "block_fuel = 2 ^ 28"

definition find_free_block :: "u32 \<Rightarrow> u32 \<Rightarrow> 'k uheap \<Rightarrow> (u32 \<times> u32) res" where
  "find_free_block lst sz h = find_loop block_fuel sz (u_base h) lst h"

definition request_space :: "(u32 \<Rightarrow> 'k \<Rightarrow> (u32 \<times> 'k) res) \<Rightarrow> u32 \<Rightarrow> u32 \<Rightarrow> 'k uheap \<Rightarrow> (u32 \<times> 'k uheap) res" where
  "request_space brk lst sz h =
     rbind (sbrk brk 0 h) (\<lambda>(block, h).
     rbind (sbrk brk (sz + META_SIZE) h) (\<lambda>(request, h).
     if request = - 1 then Inr (0, h)
     else rbind (if lst \<noteq> 0 then set_meta lst (\<lambda>b. b\<lparr>bm_next := block\<rparr>) h else Inr h) (\<lambda>h.
     if block = 0 then Inl Null_deref
     else Inr (block, h\<lparr>metas := (metas h)(block \<mapsto> \<lparr>bm_size = sz, bm_free = False, bm_magic = MAGIC, bm_next = 0\<rparr>)\<rparr>))))"

definition malloc :: "(u32 \<Rightarrow> 'k \<Rightarrow> (u32 \<times> 'k) res) \<Rightarrow> u32 \<Rightarrow> 'k uheap \<Rightarrow> (u32 \<times> 'k uheap) res" where
  "malloc brk sz h =
     (if sz = 0 then Inr (0, h)
      else if u_base h = 0
      then rmap (\<lambda>(block, h). if block = 0 then (0, h) else (block + META_SIZE, h\<lparr>u_base := block\<rparr>)) (request_space brk 0 sz h)
      else rbind (find_free_block (u_base h) sz h) (\<lambda>(block, lst).
           if block = 0
           then rmap (\<lambda>(block, h). if block = 0 then (0, h) else (block + META_SIZE, h)) (request_space brk lst sz h)
           else rmap (\<lambda>h. (block + META_SIZE, h)) (set_meta block (\<lambda>b. b\<lparr>bm_free := False, bm_magic := 0x77777777\<rparr>) h)))"

definition get_block_ptr :: "u32 \<Rightarrow> u32" where
  "get_block_ptr ptr = ptr - META_SIZE"

definition free :: "u32 \<Rightarrow> 'k uheap \<Rightarrow> 'k uheap res" where
  "free ptr h =
     (if ptr = 0 then Inr h
      else set_meta (get_block_ptr ptr) (\<lambda>b. b\<lparr>bm_free := True, bm_magic := 0x55555555\<rparr>) h)"

fun copy_bytes :: "nat \<Rightarrow> u32 \<Rightarrow> u32 \<Rightarrow> (u32 \<Rightarrow> u8) \<Rightarrow> u32 \<Rightarrow> u8" where
  "copy_bytes 0 dst src m = m"
| "copy_bytes (Suc n) dst src m = copy_bytes n (dst + 1) (src + 1) (m(dst := m src))"

definition realloc :: "(u32 \<Rightarrow> 'k \<Rightarrow> (u32 \<times> 'k) res) \<Rightarrow> u32 \<Rightarrow> u32 \<Rightarrow> 'k uheap \<Rightarrow> (u32 \<times> 'k uheap) res" where
  "realloc brk ptr sz h =
     (if ptr = 0 then malloc brk sz h
      else rbind (meta_at h (get_block_ptr ptr)) (\<lambda>b.
      if bm_size b \<ge> sz then Inr (ptr, h)
      else rbind (malloc brk sz h) (\<lambda>(new_ptr, h).
      if new_ptr = 0 then Inr (0, h)
      else rbind (meta_at h (get_block_ptr ptr)) (\<lambda>b.
      rmap (\<lambda>h. (new_ptr, h)) (free ptr (h\<lparr>ubytes := copy_bytes (unat (bm_size b)) new_ptr ptr (ubytes h)\<rparr>))))))"

fun fill_zero :: "nat \<Rightarrow> u32 \<Rightarrow> (u32 \<Rightarrow> u8) \<Rightarrow> u32 \<Rightarrow> u8" where
  "fill_zero 0 p m = m"
| "fill_zero (Suc n) p m = fill_zero n p (m(p + of_nat n := 0))"

definition calloc :: "(u32 \<Rightarrow> 'k \<Rightarrow> (u32 \<times> 'k) res) \<Rightarrow> u32 \<Rightarrow> u32 \<Rightarrow> 'k uheap \<Rightarrow> (u32 \<times> 'k uheap) res" where
  "calloc brk nelem elsize h =
     (let sz = nelem * elsize in
      rbind (malloc brk sz h) (\<lambda>(ptr, h).
      if ptr = 0 \<and> sz \<noteq> 0 then Inl Null_deref
      else Inr (ptr, h\<lparr>ubytes := fill_zero (unat sz) ptr (ubytes h)\<rparr>)))"

section \<open>The chain of blocks\<close>

text \<open>A block is named by the address of its header; its payload follows the header.\<close>

fun chain :: "(u32 \<rightharpoonup> block_meta) \<Rightarrow> u32 \<Rightarrow> u32 list \<Rightarrow> bool" where
  "chain m a [] \<longleftrightarrow> a = 0"
| "chain m a (b # bs) \<longleftrightarrow> a = b \<and> a \<noteq> 0 \<and> (case m a of None \<Rightarrow> False | Some x \<Rightarrow> chain m (bm_next x) bs)"

definition sz_of :: "'k uheap \<Rightarrow> u32 \<Rightarrow> nat" where
  "sz_of h a = unat (bm_size (the (metas h a)))"

definition is_free :: "'k uheap \<Rightarrow> u32 \<Rightarrow> bool" where
  "is_free h a = bm_free (the (metas h a))"

definition payload :: "'k uheap \<Rightarrow> u32 \<Rightarrow> nat set" where
  "payload h a = {unat a + 16..<unat a + 16 + sz_of h a}"

definition used :: "'k uheap \<Rightarrow> u32 list \<Rightarrow> u32 set" where
  "used h bs = {a \<in> set bs. \<not> is_free h a}"

definition heap_inv :: "nat \<Rightarrow> 'k uheap \<Rightarrow> u32 list \<Rightarrow> bool" where
  "heap_inv fin h bs \<longleftrightarrow> chain (metas h) (u_base h) bs \<and> sorted_wrt (\<lambda>a b. unat a + 16 + sz_of h a \<le> unat b) bs
     \<and> (\<forall>a\<in>set bs. unat a + 16 + sz_of h a \<le> fin)"

lemma chain_dom: "chain m a bs \<Longrightarrow> b \<in> set bs \<Longrightarrow> m b \<noteq> None \<and> b \<noteq> 0"
  by (induction m a bs rule: chain.induct) (auto split: option.splits)

text \<open>Links alone make the chain: any other change of a header keeps it.\<close>

lemma chain_cong: "chain m a bs \<Longrightarrow> (\<forall>b\<in>set bs. map_option bm_next (m' b) = map_option bm_next (m b)) \<Longrightarrow> chain m' a bs"
  by (induction m a bs rule: chain.induct) (auto split: option.splits)

lemma chain_snoc:
  assumes "chain m a bs" "bs \<noteq> []" "distinct bs" "b \<notin> set bs" "b \<noteq> 0" "bm_next y = 0"
  shows "chain (m(last bs \<mapsto> (the (m (last bs)))\<lparr>bm_next := b\<rparr>, b \<mapsto> y)) a (bs @ [b])"
  using assms
proof (induction m a bs rule: chain.induct)
  case (2 m a c bs)
  obtain x where x: "m a = Some x" "a = c" "a \<noteq> 0" "chain m (bm_next x) bs" using 2(2) by (auto split: option.splits)
  show ?case
  proof (cases "bs = []")
    case True
    then show ?thesis using 2 x by auto
  next
    case False
    then have "last bs \<in> set bs" by simp
    then have "a \<noteq> last bs" "a \<noteq> b" using 2(4,5) x(2) by auto
    then show ?thesis using 2(1) [OF x(1) x(4) False] 2(4-7) x False by simp
  qed
qed simp

definition fits :: "'k uheap \<Rightarrow> u32 \<Rightarrow> u32 \<Rightarrow> bool" where
  "fits h sz a \<longleftrightarrow> is_free h a \<and> unat sz \<le> sz_of h a"

text \<open>The search is first fit, and ends within as many steps as there are blocks.\<close>

lemma find_loop_first_fit:
  assumes "chain (metas h) cur bs" "length bs \<le> fuel"
  shows "find_loop fuel sz cur lst h = Inr (case dropWhile (\<lambda>a. \<not> fits h sz a) bs of [] \<Rightarrow> 0 | a # _ \<Rightarrow> a,
           last (lst # takeWhile (\<lambda>a. \<not> fits h sz a) bs))"
  using assms
proof (induction bs arbitrary: cur fuel lst)
  case (Cons b bs)
  obtain x where x: "metas h cur = Some x" "cur = b" "cur \<noteq> 0" "chain (metas h) (bm_next x) bs"
    using Cons.prems(1) by (auto split: option.splits)
  obtain f where f: "fuel = Suc f" "length bs \<le> f" using Cons.prems(2) by (cases fuel) auto
  have ft: "fits h sz b \<longleftrightarrow> bm_free x \<and> sz \<le> bm_size x"
    using x(1,2) by (simp add: fits_def is_free_def sz_of_def word_le_nat_alt)
  show ?case using x f Cons.IH [OF x(4) f(2), of b] ft by (subst find_loop.simps) (auto simp: meta_at_def)
qed (subst find_loop.simps, simp)

lemma heap_inv_length: "heap_inv fin h bs \<Longrightarrow> 16 * length bs \<le> fin"
proof -
  have "sorted_wrt (\<lambda>a b. unat a + 16 + sz_of h a \<le> unat b) bs \<Longrightarrow> \<forall>a\<in>set bs. unat a + 16 + sz_of h a \<le> fin
     \<Longrightarrow> \<forall>a\<in>set bs. lo \<le> unat a \<Longrightarrow> lo \<le> fin \<Longrightarrow> lo + 16 * length bs \<le> fin" for lo
    by (induction bs arbitrary: lo) force+
  from this [of 0] show "heap_inv fin h bs \<Longrightarrow> 16 * length bs \<le> fin" by (simp add: heap_inv_def)
qed

lemma heap_inv_distinct: "heap_inv fin h bs \<Longrightarrow> distinct bs"
proof -
  have "sorted_wrt (\<lambda>a b. unat a + 16 + sz_of h a \<le> unat b) bs \<Longrightarrow> distinct bs" by (induction bs) force+
  then show "heap_inv fin h bs \<Longrightarrow> distinct bs" by (simp add: heap_inv_def)
qed

lemma heap_inv_apart:
  assumes "heap_inv fin h bs" "a \<in> set bs" "b \<in> set bs" "a \<noteq> b"
  shows "unat a + 16 + sz_of h a \<le> unat b \<or> unat b + 16 + sz_of h b \<le> unat a"
proof -
  have "sorted_wrt (\<lambda>a b. unat a + 16 + sz_of h a \<le> unat b) bs" using assms(1) by (simp add: heap_inv_def)
  then show ?thesis using assms(2-4) by (induction bs) auto
qed

lemma payload_apart: "heap_inv fin h bs \<Longrightarrow> a \<in> set bs \<Longrightarrow> b \<in> set bs \<Longrightarrow> a \<noteq> b \<Longrightarrow> payload h a \<inter> payload h b = {}"
  using heap_inv_apart [of fin h bs a b] by (auto simp: payload_def)

text \<open>Headers may change in everything but size and link.\<close>

lemma heap_inv_cong:
  assumes "heap_inv fin h bs" "u_base h' = u_base h" "fin \<le> fin'"
    and "\<forall>b\<in>set bs. map_option bm_next (metas h' b) = map_option bm_next (metas h b) \<and> sz_of h' b = sz_of h b"
  shows "heap_inv fin' h' bs"
proof -
  have "sorted_wrt (\<lambda>a b. unat a + 16 + sz_of h' a \<le> unat b) bs"
    using assms(1,4) by (auto simp: heap_inv_def intro: sorted_wrt_mono_rel [rotated])
  then show ?thesis using assms chain_cong [of "metas h" "u_base h" bs "metas h'"] by (force simp: heap_inv_def)
qed

lemma heap_inv_snoc:
  assumes "heap_inv fin h bs" "\<forall>b\<in>set bs. sz_of h' b = sz_of h b" "chain (metas h') (u_base h') (bs @ [a])"
    and "fin \<le> unat a" "unat a + 16 + sz_of h' a \<le> fin'"
  shows "heap_inv fin' h' (bs @ [a])"
proof -
  have "sorted_wrt (\<lambda>a b. unat a + 16 + sz_of h' a \<le> unat b) bs"
    using assms(1,2) by (auto simp: heap_inv_def intro: sorted_wrt_mono_rel [rotated])
  then show ?thesis using assms by (force simp: heap_inv_def sorted_wrt_append)
qed

text \<open>What an allocation of \<open>sz\<close> bytes gives: block \<open>a\<close> is in use and was not, and the blocks in use before still are.\<close>

definition allocated :: "u32 \<Rightarrow> 'k uheap \<Rightarrow> u32 list \<Rightarrow> u32 \<Rightarrow> 'k uheap \<Rightarrow> u32 list \<Rightarrow> bool" where
  "allocated sz h bs a h' bs' \<longleftrightarrow> a \<notin> used h bs \<and> used h' bs' = insert a (used h bs) \<and> unat sz \<le> sz_of h' a
     \<and> (\<forall>b\<in>used h bs. sz_of h' b = sz_of h b \<and> metas h' b \<noteq> None) \<and> ubytes h' = ubytes h"

lemma append_block:
  assumes inv: "heap_inv fin h bs" and b: "fin = unat b" "b \<noteq> 0" "fin' = unat b + 16 + unat sz"
    and x: "bs \<noteq> [] \<Longrightarrow> metas h (last bs) = Some x"
    and m: "metas h' = (if bs = [] then metas h else (metas h)(last bs \<mapsto> x\<lparr>bm_next := b\<rparr>))
          (b \<mapsto> \<lparr>bm_size = sz, bm_free = False, bm_magic = MAGIC, bm_next = 0\<rparr>)"
    and ub: "u_base h' = (if bs = [] then b else u_base h)" "ubytes h' = ubytes h"
  shows "heap_inv fin' h' (bs @ [b]) \<and> allocated sz h bs b h' (bs @ [b])"
proof -
  have nb: "b \<notin> set bs" using inv b(1) by (force simp: heap_inv_def)
  have same: "sz_of h' a = sz_of h a" "is_free h' a = is_free h a" "metas h' a \<noteq> None" if "a \<in> set bs" for a
  proof -
    have "a \<noteq> b" "bs \<noteq> []" "metas h a \<noteq> None" using that nb inv chain_dom [of "metas h" "u_base h" bs a] by (auto simp: heap_inv_def)
    then show "sz_of h' a = sz_of h a" "is_free h' a = is_free h a" "metas h' a \<noteq> None"
      using m x by (auto simp: sz_of_def is_free_def)
  qed
  have new: "sz_of h' b = unat sz" "\<not> is_free h' b" using m by (simp_all add: sz_of_def is_free_def)
  have "chain (metas h') (u_base h') (bs @ [b])"
  proof (cases "bs = []")
    case True
    then show ?thesis using m ub b by simp
  next
    case False
    have "chain (metas h) (u_base h) bs" using inv by (simp add: heap_inv_def)
    from chain_snoc [OF this False heap_inv_distinct [OF inv] nb b(2)] show ?thesis using False m x ub by simp
  qed
  then have "heap_inv fin' h' (bs @ [b])" using same(1) new(1) b by (intro heap_inv_snoc [OF inv]) simp_all
  moreover have "used h' (bs @ [b]) = insert b (used h bs)" using same new by (auto simp: used_def)
  moreover have "b \<notin> used h bs" using nb by (simp add: used_def)
  ultimately show ?thesis using new same ub(2) by (simp add: allocated_def used_def)
qed

lemma reuse_block:
  assumes inv: "heap_inv fin h bs" and a: "a \<in> set bs" "fits h sz a" "metas h a = Some x"
    and h': "h' = h\<lparr>metas := (metas h)(a \<mapsto> x\<lparr>bm_free := False, bm_magic := g\<rparr>)\<rparr>"
  shows "heap_inv fin h' bs \<and> allocated sz h bs a h' bs"
proof -
  have "sz_of h' b = sz_of h b" "map_option bm_next (metas h' b) = map_option bm_next (metas h b)"
    "is_free h' b = (b \<noteq> a \<and> is_free h b)" "metas h' b \<noteq> None \<longleftrightarrow> metas h b \<noteq> None" for b
    using h' a(3) by (simp_all add: sz_of_def is_free_def)
  moreover have "metas h b \<noteq> None" if "b \<in> set bs" for b using that inv chain_dom by (auto simp: heap_inv_def)
  moreover have "u_base h' = u_base h" "ubytes h' = ubytes h" using h' by simp_all
  ultimately show ?thesis using heap_inv_cong [OF inv, of h' fin] a by (auto simp: allocated_def used_def fits_def)
qed

lemma block_addr: "(a + 16 = 0) = (a = (- 16 :: u32))" "get_block_ptr (a + 16) = a"
  by (auto simp: get_block_ptr_def META_SIZE_def eq_neg_iff_add_eq_0)

lemma block_nonzero: "heap_inv fin h bs \<Longrightarrow> fin < 2 ^ 31 \<Longrightarrow> a \<in> set bs \<Longrightarrow> a + 16 \<noteq> 0"
proof -
  have "unat (- 16 :: u32) = 2 ^ 32 - 16" by (simp add: unat_minus32)
  then show "heap_inv fin h bs \<Longrightarrow> fin < 2 ^ 31 \<Longrightarrow> a \<in> set bs \<Longrightarrow> a + 16 \<noteq> 0" unfolding block_addr by (auto simp: heap_inv_def)
qed

lemma free_ok:
  assumes inv: "heap_inv fin h bs" and a: "a \<in> set bs" and fin: "fin < 2 ^ 31"
  shows "\<exists>h'. free (a + 16) h = Inr h' \<and> heap_inv fin h' bs \<and> used h' bs = used h bs - {a} \<and> (\<forall>b. sz_of h' b = sz_of h b)
    \<and> ubytes h' = ubytes h \<and> kern h' = kern h"
proof -
  obtain x where x: "metas h a = Some x" using a inv chain_dom [of "metas h" "u_base h" bs a] by (auto simp: heap_inv_def)
  note nz = block_nonzero [OF inv fin a]
  let ?h = "h\<lparr>metas := (metas h)(a \<mapsto> x\<lparr>bm_free := True, bm_magic := 0x55555555\<rparr>)\<rparr>"
  have "sz_of ?h b = sz_of h b" "map_option bm_next (metas ?h b) = map_option bm_next (metas h b)"
    "is_free ?h b = (b = a \<or> is_free h b)" for b using x by (simp_all add: sz_of_def is_free_def)
  moreover have "free (a + 16) h = Inr ?h" using nz x unfolding free_def block_addr(2) by (simp add: set_meta_def meta_at_def)
  ultimately show ?thesis using heap_inv_cong [OF inv, of ?h fin] by (auto simp: used_def intro!: exI [of _ ?h])
qed

text \<open>Copying between ranges that do not wrap and do not meet.\<close>

lemma copy_bytes_ok:
  assumes "unat dst + n \<le> 2 ^ 32" "unat src + n \<le> 2 ^ 32" "unat dst + n \<le> unat src \<or> unat src + n \<le> unat dst"
  shows "copy_bytes n dst src m x = (if unat dst \<le> unat x \<and> unat x < unat dst + n then m (src + (x - dst)) else m x)"
  using assms
proof (induction n arbitrary: dst src m)
  case (Suc n)
  show ?case
  proof (cases "n = 0")
    case True
    then show ?thesis using word_unat_eq_iff [of x dst] by auto
  next
    case False
    then have u: "unat (dst + 1) = unat dst + 1" "unat (src + 1) = unat src + 1"
      using Suc.prems by (subst unat_add_lem [THEN iffD1]; simp)+
    have IH: "copy_bytes (Suc n) dst src m x = (if unat dst + 1 \<le> unat x \<and> unat x < unat dst + 1 + n
        then (m(dst := m src)) (src + 1 + (x - (dst + 1))) else (m(dst := m src)) x)"
      unfolding copy_bytes.simps u [symmetric] by (rule Suc.IH) (use Suc.prems u in auto)
    have e: "src + 1 + (x - (dst + 1)) = src + (x - dst)" by simp
    have "src + (x - dst) \<noteq> dst" if "unat dst + 1 \<le> unat x" "unat x < unat dst + 1 + n"
    proof -
      have "unat (x - dst) = unat x - unat dst" using that by (intro unat_sub) (simp add: word_le_nat_alt)
      moreover from this have "unat (src + (x - dst)) = unat src + (unat x - unat dst)"
        using that Suc.prems by (subst unat_add_lem [THEN iffD1]) simp_all
      ultimately have "unat (src + (x - dst)) \<noteq> unat dst" using that Suc.prems by linarith
      then show ?thesis by (rule contrapos_nn) (rule arg_cong)
    qed
    moreover have "x = dst \<longleftrightarrow> unat x = unat dst" by (rule word_unat_eq_iff)
    ultimately show ?thesis unfolding IH e by auto
  qed
qed auto

text \<open>Moving a block to a larger one: the bytes of the old payload at the start of the new one, every other byte as before.\<close>

lemma move_block:
  assumes inv: "heap_inv fin h bs" "fin < 2 ^ 31" and ab: "a \<in> set bs" "b \<in> set bs" "a \<noteq> b" "sz_of h b \<le> sz_of h a"
    and m: "m = copy_bytes (sz_of h b) (a + 16) (b + 16) (ubytes h)"
  shows "i < sz_of h b \<Longrightarrow> m (a + 16 + of_nat i) = ubytes h (b + 16 + of_nat i)" "unat x \<notin> payload h a \<Longrightarrow> m x = ubytes h x"
proof -
  have le: "unat c + 16 + sz_of h c < 2 ^ 31" if "c \<in> set bs" for c using inv that by (force simp: heap_inv_def)
  have u: "unat (c + 16) = unat c + 16" if "c \<in> set bs" for c using le [OF that] by (subst unat_add_lem [THEN iffD1]) simp_all
  have "unat (a + 16) + sz_of h b \<le> 2 ^ 32" "unat (b + 16) + sz_of h b \<le> 2 ^ 32"
    using le [OF ab(1)] le [OF ab(2)] ab(4) unfolding u [OF ab(1)] u [OF ab(2)] by simp_all
  moreover have "unat (a + 16) + sz_of h b \<le> unat (b + 16) \<or> unat (b + 16) + sz_of h b \<le> unat (a + 16)"
    using heap_inv_apart [OF inv(1) ab(1-3)] ab(4) unfolding u [OF ab(1)] u [OF ab(2)] by auto
  ultimately have c: "m x = (if unat (a + 16) \<le> unat x \<and> unat x < unat (a + 16) + sz_of h b then ubytes h (b + 16 + (x - (a + 16))) else ubytes h x)"
    for x unfolding m by (rule copy_bytes_ok)
  show "m x = ubytes h x" if "unat x \<notin> payload h a" using that ab(4) unfolding c u [OF ab(1)] by (auto simp: payload_def)
  show "m (a + 16 + of_nat i) = ubytes h (b + 16 + of_nat i)" if i: "i < sz_of h b"
  proof -
    have "unat (a + 16 + of_nat i) = unat (a + 16) + i"
      using le [OF ab(1)] i ab(4) unat_of_nat32 [of i] u [OF ab(1)] by (subst unat_add_lem [THEN iffD1]) simp_all
    then show ?thesis using i unfolding c by simp
  qed
qed

lemma fill_zero_ok:
  assumes "unat p + n \<le> 2 ^ 32"
  shows "fill_zero n p m x = (if unat p \<le> unat x \<and> unat x < unat p + n then 0 else m x)"
  using assms
proof (induction n arbitrary: m)
  case (Suc n)
  have "unat (p + of_nat n) = unat p + n"
    using Suc.prems unat_of_nat32 [of n] by (subst unat_add_lem [THEN iffD1]) simp_all
  then have "x = p + of_nat n \<longleftrightarrow> unat x = unat p + n" by (simp add: word_unat_eq_iff)
  then show ?case using Suc by (auto simp: less_Suc_eq)
qed auto

section \<open>The program break as an interface\<close>

text \<open>\<open>room c n k\<close>: from the kernel state \<open>k\<close> the break can grow \<open>c\<close> times, by \<open>n\<close> bytes in all.\<close>

locale program_break =
  fixes brk :: "u32 \<Rightarrow> 'k \<Rightarrow> (u32 \<times> 'k) res" and brk_of :: "'k \<Rightarrow> u32" and room :: "nat \<Rightarrow> nat \<Rightarrow> 'k \<Rightarrow> bool"
  assumes query: "room c n k \<Longrightarrow> brk 0 k = Inr (brk_of k, k)"
    and same: "room c n k \<Longrightarrow> brk (brk_of k) k = Inr (brk_of k, k)"
    and grow: "room (Suc c) (n + m) k \<Longrightarrow> 0 < n \<Longrightarrow>
      \<exists>k'. brk (brk_of k + of_nat n) k = Inr (brk_of k + of_nat n, k') \<and> brk_of k' = brk_of k + of_nat n \<and> room c m k'"
    and bounded: "room c n k \<Longrightarrow> 0 < unat (brk_of k) \<and> unat (brk_of k) + n < 2 ^ 31"
    and less_room: "room (Suc c) (n + m) k \<Longrightarrow> room c m k"
begin

lemma sint_low: "unat (a :: u32) < 2 ^ 31 \<Longrightarrow> 0 \<le> sint a"
  by (simp add: sint32)

lemma sbrk_query: "room c n (kern h) \<Longrightarrow> sbrk brk 0 h = Inr (brk_of (kern h), h)"
  using query [of c n "kern h"] same [of c n "kern h"] bounded [of c n "kern h"]
  by (simp add: sbrk_def syscall_brk_def sint_low)

lemma sbrk_grow:
  assumes "room (Suc c) (n + m) (kern h)" "0 < n"
  shows "\<exists>k'. sbrk brk (of_nat n) h = Inr (brk_of (kern h), h\<lparr>kern := k'\<rparr>) \<and> unat (brk_of k') = unat (brk_of (kern h)) + n \<and> room c m k'"
proof -
  obtain k' where k: "brk (brk_of (kern h) + of_nat n) (kern h) = Inr (brk_of (kern h) + of_nat n, k')"
    "brk_of k' = brk_of (kern h) + of_nat n" "room c m k'" using grow [OF assms] by blast
  have b: "unat (brk_of (kern h)) + (n + m) < 2 ^ 31" using bounded [OF assms(1)] by simp
  then have "unat (of_nat n :: u32) = n" by (intro unat_of_nat32) simp
  then have "unat (brk_of k') = unat (brk_of (kern h)) + n"
    using b unfolding k(2) by (subst unat_add_lem [THEN iffD1]) simp_all
  moreover from this have "sbrk brk (of_nat n) h = Inr (brk_of (kern h), h\<lparr>kern := k'\<rparr>)"
    using k(1,2) query [OF assms(1)] b by (simp add: sbrk_def syscall_brk_def sint_low)
  ultimately show ?thesis using k(3) by blast
qed

text \<open>What a request for more space does: a block at the old break, linked behind \<open>lst\<close>.\<close>

lemma request_space_ok:
  assumes "room (Suc c) (unat sz + 16 + m) (kern h)" "lst = 0 \<or> metas h lst = Some x"
  shows "\<exists>k'. request_space brk lst sz h = Inr (brk_of (kern h), h\<lparr>kern := k',
      metas := (if lst = 0 then metas h else (metas h)(lst \<mapsto> x\<lparr>bm_next := brk_of (kern h)\<rparr>))
        (brk_of (kern h) \<mapsto> \<lparr>bm_size = sz, bm_free = False, bm_magic = MAGIC, bm_next = 0\<rparr>)\<rparr>)
    \<and> unat (brk_of k') = unat (brk_of (kern h)) + unat sz + 16 \<and> room c m k'"
proof -
  have b: "0 < unat (brk_of (kern h))" "unat (brk_of (kern h)) < 2 ^ 31" using bounded [OF assms(1)] by simp_all
  have "unat (- 1 :: u32) = 2 ^ 32 - 1" by (simp add: unsigned_minus_1_eq_mask mask_eq_exp_minus_1)
  then have nz: "brk_of (kern h) \<noteq> 0" "brk_of (kern h) \<noteq> - 1" using b by auto
  have "sz + META_SIZE = of_nat (unat sz + 16)" by (simp add: META_SIZE_def)
  then show ?thesis using sbrk_grow [OF assms(1)] sbrk_query [OF assms(1)] nz assms(2)
    by (auto simp: request_space_def set_meta_def meta_at_def)
qed

lemma malloc_ok:
  assumes inv: "heap_inv (unat (brk_of (kern h))) h bs" and rm: "room (Suc c) (unat sz + 16 + m) (kern h)" and sz: "sz \<noteq> 0"
  shows "\<exists>a h' bs'. malloc brk sz h = Inr (a + 16, h') \<and> heap_inv (unat (brk_of (kern h'))) h' bs' \<and> allocated sz h bs a h' bs'
    \<and> room c m (kern h')"
proof -
  let ?b = "brk_of (kern h)" and ?f = "\<lambda>a. \<not> fits h sz a"
  have b0: "?b \<noteq> 0" using bounded [OF rm] by auto
  have ch: "chain (metas h) (u_base h) bs" using inv by (simp add: heap_inv_def)
  have "16 * length bs < 2 ^ 31" using heap_inv_length [OF inv] bounded [OF rm] by linarith
  then have fl: "length bs \<le> block_fuel" by (simp add: block_fuel_def)
  have fd: "find_free_block (u_base h) sz h = Inr (case dropWhile ?f bs of [] \<Rightarrow> 0 | a # _ \<Rightarrow> a, last (u_base h # takeWhile ?f bs))"
    unfolding find_free_block_def by (rule find_loop_first_fit [OF ch fl])
  have mb: "(u_base h = 0) = (bs = [])" using ch by (cases bs) auto
  show ?thesis
  proof (cases "\<exists>a\<in>set bs. fits h sz a")
    case True
    then obtain a r where dw: "dropWhile ?f bs = a # r" by (cases "dropWhile ?f bs") (auto simp: dropWhile_eq_Nil_conv)
    have a: "a \<in> set bs" "fits h sz a" using dw hd_dropWhile [of ?f bs] set_dropWhileD [of a ?f bs] by auto
    obtain x where x: "metas h a = Some x" "a \<noteq> 0" using chain_dom [OF ch a(1)] by auto
    have "malloc brk sz h = Inr (a + 16, h\<lparr>metas := (metas h)(a \<mapsto> x\<lparr>bm_free := False, bm_magic := 0x77777777\<rparr>)\<rparr>)"
      using sz fd dw x mb a(1) by (auto simp: malloc_def set_meta_def meta_at_def META_SIZE_def)
    then show ?thesis using reuse_block [OF inv a x(1) refl] less_room [OF rm] inv by fastforce
  next
    case False
    let ?l = "if bs = [] then 0 else last bs"
    have l: "\<exists>x. bs \<noteq> [] \<longrightarrow> metas h (last bs) = Some x \<and> last bs \<noteq> 0" using chain_dom [OF ch, of "last bs"] by auto
    then obtain x where x: "bs \<noteq> [] \<Longrightarrow> metas h (last bs) = Some x" "bs \<noteq> [] \<Longrightarrow> last bs \<noteq> 0" by blast
    have l0: "?l = 0 \<or> metas h ?l = Some x" using x(1) by simp
    obtain k' where k: "request_space brk ?l sz h = Inr (?b, h\<lparr>kern := k',
      metas := (if ?l = 0 then metas h else (metas h)(?l \<mapsto> x\<lparr>bm_next := ?b\<rparr>))
        (?b \<mapsto> \<lparr>bm_size = sz, bm_free = False, bm_magic = MAGIC, bm_next = 0\<rparr>)\<rparr>)"
      "unat (brk_of k') = unat ?b + unat sz + 16" "room c m k'" 
      using request_space_ok [OF rm l0] by blast
    have dw: "dropWhile ?f bs = []" "takeWhile ?f bs = bs" using False by auto
    let ?h = "h\<lparr>kern := k', metas := (if bs = [] then metas h else (metas h)(last bs \<mapsto> x\<lparr>bm_next := ?b\<rparr>))
        (?b \<mapsto> \<lparr>bm_size = sz, bm_free = False, bm_magic = MAGIC, bm_next = 0\<rparr>), u_base := if bs = [] then ?b else u_base h\<rparr>"
    have "malloc brk sz h = Inr (?b + 16, ?h)"
      using sz fd k(1) mb dw b0 x(2) by (cases "bs = []") (auto simp: malloc_def META_SIZE_def)
    moreover have "heap_inv (unat (brk_of (kern ?h))) ?h (bs @ [?b]) \<and> allocated sz h bs ?b ?h (bs @ [?b])"
      by (rule append_block [OF inv refl b0 _ x(1)]) (simp_all add: k(2))
    moreover have "room c m (kern ?h)" using k(3) by simp
    ultimately show ?thesis by blast
  qed
qed

text \<open>\<^verbatim>\<open>calloc\<close> clears the whole block when the product of its arguments does not wrap.\<close>

lemma calloc_ok:
  assumes inv: "heap_inv (unat (brk_of (kern h))) h bs" and rm: "room (Suc c) (unat nelem * unat elsize + 16 + m) (kern h)"
    and nz: "nelem \<noteq> 0" "elsize \<noteq> 0"
  shows "\<exists>a h' bs'. calloc brk nelem elsize h = Inr (a + 16, h') \<and> heap_inv (unat (brk_of (kern h'))) h' bs'
    \<and> used h' bs' = insert a (used h bs) \<and> unat nelem * unat elsize \<le> sz_of h' a
    \<and> (\<forall>i<unat nelem * unat elsize. ubytes h' (a + 16 + of_nat i) = 0)"
proof -
  let ?sz = "nelem * elsize"
  have "unat nelem * unat elsize < 2 ^ 32" using bounded [OF rm] by simp
  then have u: "unat ?sz = unat nelem * unat elsize" using unat_mult_lem [of nelem elsize] by simp
  have "unat ?sz \<noteq> 0" using nz unfolding u by (simp add: unat_eq_0)
  then have s0: "?sz \<noteq> 0" by auto
  obtain a h1 bs1 where m: "malloc brk ?sz h = Inr (a + 16, h1)" "heap_inv (unat (brk_of (kern h1))) h1 bs1"
    "allocated ?sz h bs a h1 bs1" "room c m (kern h1)" using malloc_ok [OF inv _ s0] rm u by metis
  have fin: "unat (brk_of (kern h1)) < 2 ^ 31" using bounded [OF m(4)] by simp
  have al: "used h1 bs1 = insert a (used h bs)" "unat ?sz \<le> sz_of h1 a" using m(3) by (simp_all add: allocated_def)
  have as: "a \<in> set bs1" using al(1) by (auto simp: used_def)
  then have le: "unat a + 16 + unat ?sz < 2 ^ 31" using m(2) fin al(2) by (force simp: heap_inv_def)
  then have ua: "unat (a + 16) = unat a + 16" by (subst unat_add_lem [THEN iffD1]) simp_all
  let ?h = "h1\<lparr>ubytes := fill_zero (unat ?sz) (a + 16) (ubytes h1)\<rparr>"
  have "calloc brk nelem elsize h = Inr (a + 16, ?h)" using m(1) block_nonzero [OF m(2) fin as] by (simp add: calloc_def Let_def)
  moreover have "ubytes ?h (a + 16 + of_nat i) = 0" if "i < unat ?sz" for i
  proof -
    have "unat (a + 16 + of_nat i) = unat (a + 16) + i"
      using le that ua unat_of_nat32 [of i] by (subst unat_add_lem [THEN iffD1]) simp_all
    then show ?thesis using le that ua by (simp add: fill_zero_ok)
  qed
  moreover have "heap_inv (unat (brk_of (kern ?h))) ?h bs1" using heap_inv_cong [OF m(2), of ?h] by (simp add: sz_of_def)
  moreover have "used ?h bs1 = insert a (used h bs)" "unat ?sz \<le> sz_of ?h a" using al by (simp_all add: used_def is_free_def sz_of_def)
  ultimately show ?thesis unfolding u by blast
qed

lemma realloc_ok:
  assumes inv: "heap_inv (unat (brk_of (kern h))) h bs" and rm: "room (Suc c) (unat sz + 16 + m) (kern h)" and b: "b \<in> used h bs"
  shows "\<exists>a h' bs'. realloc brk (b + 16) sz h = Inr (a + 16, h') \<and> heap_inv (unat (brk_of (kern h'))) h' bs'
    \<and> used h' bs' = insert a (used h bs - {b}) \<and> unat sz \<le> sz_of h' a \<and> room c m (kern h')
    \<and> (\<forall>i<min (unat sz) (sz_of h b). ubytes h' (a + 16 + of_nat i) = ubytes h (b + 16 + of_nat i))
    \<and> (\<forall>d\<in>used h bs - {b}. \<forall>x. unat x \<in> payload h d \<longrightarrow> ubytes h' x = ubytes h x)"
proof -
  have bs: "b \<in> set bs" using b by (simp add: used_def)
  have ch: "chain (metas h) (u_base h) bs" using inv by (simp add: heap_inv_def)
  obtain x where x: "metas h b = Some x" using chain_dom [OF ch bs] by auto
  have nz: "b + 16 \<noteq> 0" using block_nonzero [OF inv _ bs] bounded [OF rm] by simp
  have szb: "sz_of h b = unat (bm_size x)" using x by (simp add: sz_of_def)
  show ?thesis
  proof (cases "sz \<le> bm_size x")
    case True
    have "realloc brk (b + 16) sz h = Inr (b + 16, h)"
      using True nz x unfolding realloc_def block_addr(2) by (simp add: meta_at_def)
    then show ?thesis using True inv b less_room [OF rm] szb
      by (intro exI [of _ b] exI [of _ h] exI [of _ bs]) (auto simp: word_le_nat_alt)
  next
    case False
    then have "sz \<noteq> 0" by auto
    from malloc_ok [OF inv rm this] obtain a h1 bs1 where m: "malloc brk sz h = Inr (a + 16, h1)"
      "heap_inv (unat (brk_of (kern h1))) h1 bs1" "allocated sz h bs a h1 bs1" "room c m (kern h1)" by blast
    have al: "a \<notin> used h bs" "used h1 bs1 = insert a (used h bs)" "unat sz \<le> sz_of h1 a" "ubytes h1 = ubytes h"
      "\<forall>d\<in>used h bs. sz_of h1 d = sz_of h d" using m(3) by (simp_all add: allocated_def)
    have us: "a \<in> set bs1" "b \<in> set bs1" "a \<noteq> b" "\<forall>d\<in>used h bs. d \<in> set bs1" using al(1,2) b by (auto simp: used_def)
    have fin: "unat (brk_of (kern h1)) < 2 ^ 31" using bounded [OF m(4)] by simp
    have le: "sz_of h1 b \<le> sz_of h1 a" using al(3,5) b szb False by (auto simp: word_le_nat_alt)
    let ?h2 = "h1\<lparr>ubytes := copy_bytes (sz_of h1 b) (a + 16) (b + 16) (ubytes h1)\<rparr>"
    note cp = move_block [OF m(2) fin us(1-3) le refl]
    have i2: "heap_inv (unat (brk_of (kern h1))) ?h2 bs1" using heap_inv_cong [OF m(2), of ?h2] by (simp add: sz_of_def)
    from free_ok [OF i2 us(2) fin] obtain h' where f: "free (b + 16) ?h2 = Inr h'" "heap_inv (unat (brk_of (kern h1))) h' bs1"
      "used h' bs1 = used ?h2 bs1 - {b}" "\<forall>d. sz_of h' d = sz_of ?h2 d" "ubytes h' = ubytes ?h2" "kern h' = kern h1" by auto
    note an = block_nonzero [OF m(2) fin us(1)]
    obtain y where y: "metas h1 b = Some y" using chain_dom [of "metas h1" "u_base h1" bs1 b] us(2) m(2) by (auto simp: heap_inv_def)
    have "realloc brk (b + 16) sz h = Inr (a + 16, h')"
      using False nz an x y m(1) f(1) unfolding realloc_def block_addr(2) by (simp add: meta_at_def sz_of_def)
    moreover have "used h' bs1 = insert a (used h bs - {b})" using f(3) al(2) us(3) by (auto simp: used_def is_free_def)
    moreover have "unat sz \<le> sz_of h' a" using f(4) al(3) by (simp add: sz_of_def)
    moreover have "\<forall>i<min (unat sz) (sz_of h b). ubytes h' (a + 16 + of_nat i) = ubytes h (b + 16 + of_nat i)"
      using cp(1) f(5) al(4,5) b by simp
    moreover have "\<forall>d\<in>used h bs - {b}. \<forall>x. unat x \<in> payload h d \<longrightarrow> ubytes h' x = ubytes h x"
      using cp(2) f(5) al(1,4,5) us payload_apart [OF m(2) us(1)] by (fastforce simp: payload_def)
    ultimately show ?thesis using f(2,6) m(4) by (intro exI [of _ a] exI [of _ h'] exI [of _ bs1]) simp
  qed
qed

end

section \<open>The kernel's break\<close>

definition proc_brk :: "u32 \<Rightarrow> mm \<times> mmu \<Rightarrow> (u32 \<times> mm \<times> mmu) res" where
  "proc_brk a k = sys_brk a (fst k) (snd k)"

definition proc_end :: "mm \<times> mmu \<Rightarrow> u32" where
  "proc_end k = mm_brk (fst k)"

text \<open>The memory a process may still ask for: no area of the process above its break meets the range, the tables of the range
  exist, and the frames and the kernel heap suffice.  A growth takes a frame for each page it adds, and up to two more.\<close>

definition proc_room :: "nat \<Rightarrow> nat \<Rightarrow> mm \<times> mmu \<Rightarrow> bool" where
  "proc_room c n k \<longleftrightarrow> (let p = fst k; st = snd k; fr = kframes (mheap st); b = unat (mm_brk p) in
     0 < b \<and> b + n < 2 ^ 31
   \<and> (\<forall>i\<in>set (mm_mmap p). vm_end i \<le> PAGE_ALIGN (mm_brk p) \<or> b + n + 4096 \<le> unat (vm_start i))
   \<and> whole_tables st \<and> frames_ok fr \<and> 2 * c + n div 4096 < card (free_set fr)
   \<and> (\<forall>v. b \<le> unat v \<and> unat v < b + n + 8192 \<longrightarrow> has_table st (mm_pd p) v)
   \<and> 32 * length (frame_map fr) \<le> unat (max_frames fr) \<and> unat (max_frames fr) < 2 ^ 31
   \<and> (\<exists>L. kheap_rep (mheap st) L) \<and> kheap_room c (mheap st))"

lemma free_pages_nonneg:
  assumes "frames_ok fr" "32 * length (frame_map fr) \<le> unat (max_frames fr)" "unat (max_frames fr) < 2 ^ 31"
  shows "0 \<le> sint (free_pages fr)"
proof -
  have "card (used_set fr) \<le> card {..<32 * length (frame_map fr)}"
    by (rule card_mono) (auto simp: used_set_def frame_used_def)
  then have le: "card (used_set fr) \<le> unat (max_frames fr)" using assms(2) by simp
  then have u: "unat (used_frames fr) = card (used_set fr)"
    using assms(1,3) unat_of_nat32 [of "card (used_set fr)"] by (simp add: frames_ok_def frame_inv_def)
  have "unat (free_pages fr) = unat (max_frames fr) - unat (used_frames fr)"
    unfolding free_pages_def using le u by (intro unat_sub) (simp add: word_le_nat_alt)
  then have "unat (free_pages fr) < 2 ^ 31" using assms(3) by linarith
  then show ?thesis by (simp add: sint32)
qed

lemma proc_brk_page:
  assumes r: "proc_room (Suc c) (n + m) (p, st)" and u: "unat brk = unat (mm_brk p) + n"
    and ne: "PAGE_ALIGN (mm_brk p) \<noteq> PAGE_ALIGN brk"
  shows "\<exists>p' st'. sys_brk brk p st = Inr (brk, p', st') \<and> mm_brk p' = brk \<and> proc_room c m (p', st')"
proof -
  let ?old = "PAGE_ALIGN (mm_brk p)" and ?new = "PAGE_ALIGN brk" and ?p = "p\<lparr>mm_brk := brk\<rparr>" and ?fr = "kframes (mheap st)"
  have R: "unat (mm_brk p) + (n + m) < 2 ^ 31" "whole_tables st" "frames_ok ?fr" "2 * Suc c + (n + m) div 4096 < card (free_set ?fr)"
    "kheap_room (Suc c) (mheap st)" "0 \<le> sint (free_pages ?fr)"
    "\<forall>i\<in>set (mm_mmap p). vm_end i \<le> ?old \<or> unat (mm_brk p) + (n + m) + 4096 \<le> unat (vm_start i)"
    "\<And>v. unat (mm_brk p) \<le> unat v \<Longrightarrow> unat v < unat (mm_brk p) + (n + m) + 8192 \<Longrightarrow> has_table st (mm_pd p) v"
    using r free_pages_nonneg by (simp_all add: proc_room_def Let_def)
  obtain L where L: "kheap_rep (mheap st) L" using r by (auto simp: proc_room_def Let_def)
  have b: "unat brk + 4096 \<le> 2 ^ 32" "unat (mm_brk p) + 4096 \<le> 2 ^ 32" using R(1) u by simp_all
  note O = PAGE_ALIGN_ok [OF b(2)] and N = PAGE_ALIGN_ok [OF b(1)]
  define a q where "a = (unat (mm_brk p) + 4095) div 4096" and "q = (unat brk + 4095) div 4096 - a"
  have "a \<le> (unat brk + 4095) div 4096" unfolding a_def u by (intro div_le_mono) simp
  then have ao: "unat ?old = 4096 * a" and an: "unat ?new = 4096 * (a + q)" using O(1) N(1) by (simp_all add: a_def q_def)
  have q0: "0 < q" using ne ao an by (cases q) (simp_all add: word_unat_eq_iff)
  have lo: "unat (mm_brk p) \<le> 4096 * a" "4096 * (a + q) < unat (mm_brk p) + n + 4096" using O(3) N(4) ao an u by (simp_all add: word_le_nat_alt)
  have "4096 * q div 4096 \<le> (n + 4096) div 4096" using lo by (intro div_le_mono) simp
  then have qn: "q \<le> n div 4096 + 1" by simp
  obtain x y z where xyz: "x = n div 4096" "y = m div 4096" "z = (n + m) div 4096" by blast
  have nm: "n div 4096 + m div 4096 \<le> (n + m) div 4096" unfolding div_add1_eq [of n m] by simp
  have len: "unat (?new - ?old) = 4096 * q" using ao an by (subst unat_sub) (simp_all add: word_le_nat_alt)
  have sum: "?old + (?new - ?old) = ?new" by simp
  have room: "4096 * (a + q + 2) \<le> 2 ^ 32" using lo R(1) by simp
  have ap: "\<forall>i\<in>set (mm_mmap ?p). apart ?old (?old + (?new - ?old)) i"
    using R(7) lo an unfolding sum apart_def word_le_nat_alt by fastforce
  have tb: "\<forall>i\<le>q. has_table st (mm_pd ?p) (?old + of_nat i * 0x1000)"
  proof (intro allI impI)
    fix i assume i: "i \<le> q"
    then have w: "4096 * i \<le> 4096 * q" "4096 * i < 2 ^ 32" using room by simp_all
    have "of_nat i * 0x1000 = (of_nat (4096 * i) :: u32)" by simp
    then have "unat (of_nat i * 0x1000 :: u32) = 4096 * i" using unat_of_nat32 [OF w(2)] by (simp only:)
    then have "unat (?old + of_nat i * 0x1000) = 4096 * a + 4096 * i" using ao w room by (subst unat_add_lem [THEN iffD1]) simp_all
    then show "has_table st (mm_pd ?p) (?old + of_nat i * 0x1000)" using R(8) lo w by simp
  qed
  have fr: "q < card (free_set ?fr)" using R(4) qn nm unfolding xyz [symmetric] by simp
  from do_mmap_ok [OF ao len q0 room ap R(2,3) fr tb L R(5)] obtain p' st' area L' where
    d: "do_mmap ?old (?new - ?old) ?p st = Inr (0, p', st')"
    "p' = ?p\<lparr>mm_mmap := insert_vm (mm_mmap ?p) \<lparr>va_at = area, vm_start = ?old, vm_end = ?old + (?new - ?old)\<rparr>\<rparr>"
    "\<forall>v. has_table st (mm_pd ?p) v \<longrightarrow> has_table st' (mm_pd ?p) v" "whole_tables st'" "frames_ok (kframes (mheap st'))"
    "card (free_set ?fr) \<le> Suc q + card (free_set (kframes (mheap st')))" "frame_dims (kframes (mheap st')) = frame_dims ?fr"
    "kheap_rep (mheap st') L'" "kheap_room c (mheap st')" by (elim exE conjE) (rule that; assumption)
  have "\<not> brk < mm_brk p" "\<not> brk \<le> mm_brk p" using lo q0 u an ao by (auto simp: word_less_nat_alt word_le_nat_alt)
  then have "sys_brk brk p st = Inr (brk, p', st')" using ne R(6) d(1) by (simp add: sys_brk_def Let_def)
  moreover have "mm_brk p' = brk" "mm_pd p' = mm_pd p" using d(2) by simp_all
  moreover have "\<forall>i\<in>set (mm_mmap p'). vm_end i \<le> ?new \<or> unat brk + m + 4096 \<le> unat (vm_start i)"
    using R(7) ao an u d(2) unfolding sum by (fastforce simp: insert_vm_set word_le_nat_alt)
  moreover have "2 * c + m div 4096 < card (free_set (kframes (mheap st')))" using R(4) qn nm d(6) unfolding xyz [symmetric] by simp
  moreover have "has_table st' (mm_pd p) v" if "unat brk \<le> unat v" "unat v < unat brk + m + 8192" for v
    using R(8) [of v] that u d(3) by simp
  ultimately show ?thesis using r u d(4,5,7-9) by (auto simp: proc_room_def Let_def frame_dims_def)
qed

lemma proc_room_shift:
  assumes r: "proc_room c' n (p, st)" and le: "c \<le> c'" "unat (mm_brk p) \<le> unat b" "unat b + m \<le> unat (mm_brk p) + n"
    and al: "PAGE_ALIGN b = PAGE_ALIGN (mm_brk p)"
  shows "proc_room c m (p\<lparr>mm_brk := b\<rparr>, st)"
proof -
  obtain x y where xy: "x = m div 4096" "y = n div 4096" by blast
  have "m div 4096 \<le> n div 4096" using le by (intro div_le_mono) simp
  then have "2 * c + m div 4096 < card (free_set (kframes (mheap st)))"
    using r le unfolding proc_room_def Let_def xy [symmetric] by simp
  moreover have "kheap_room c (mheap st)" using r le by (auto simp: proc_room_def Let_def kheap_room_def heap_room_def)
  moreover have "has_table st (mm_pd p) v" if "unat b \<le> unat v" "unat v < unat b + m + 8192" for v
    using r le that by (simp add: proc_room_def Let_def)
  moreover have "vm_end i \<le> PAGE_ALIGN b \<or> unat b + m + 4096 \<le> unat (vm_start i)" if "i \<in> set (mm_mmap p)" for i
    using r le that unfolding al by (fastforce simp: proc_room_def Let_def)
  ultimately show ?thesis using r le by (simp add: proc_room_def Let_def)
qed

lemma proc_brk_grow:
  assumes r: "proc_room (Suc c) (n + m) k"
  shows "\<exists>k'. proc_brk (proc_end k + of_nat n) k = Inr (proc_end k + of_nat n, k') \<and> proc_end k' = proc_end k + of_nat n \<and> proc_room c m k'"
proof -
  obtain p st where k: "k = (p, st)" by (cases k)
  let ?b = "mm_brk p + of_nat n"
  have lt: "unat (mm_brk p) + (n + m) < 2 ^ 31" using r k by (simp add: proc_room_def Let_def)
  then have u: "unat ?b = unat (mm_brk p) + n" using unat_of_nat32 [of n] by (subst unat_add_lem [THEN iffD1]) simp_all
  show ?thesis
  proof (cases "PAGE_ALIGN (mm_brk p) = PAGE_ALIGN ?b")
    case True
    have "\<not> ?b < mm_brk p" using u by (simp add: word_less_nat_alt)
    then have "sys_brk ?b p st = Inr (?b, p\<lparr>mm_brk := ?b\<rparr>, st)" using True by (simp add: sys_brk_def Let_def)
    moreover have "proc_room c m (p\<lparr>mm_brk := ?b\<rparr>, st)"
      using proc_room_shift [OF r [unfolded k], of c ?b m] u True by simp
    ultimately show ?thesis using k by (simp add: proc_brk_def proc_end_def)
  next
    case False
    then show ?thesis using proc_brk_page [OF r [unfolded k] u] k by (auto simp: proc_brk_def proc_end_def)
  qed
qed

interpretation kbrk: program_break proc_brk proc_end proc_room
proof
  show "proc_brk 0 k = Inr (proc_end k, k)" if "proc_room c n k" for c n k
    using that by (cases k) (auto simp: proc_brk_def proc_end_def proc_room_def Let_def sys_brk_def word_less_nat_alt)
  show "proc_brk (proc_end k) k = Inr (proc_end k, k)" if "proc_room c n k" for c n k
    by (cases k) (simp add: proc_brk_def proc_end_def sys_brk_def Let_def)
  show "\<exists>k'. proc_brk (proc_end k + of_nat n) k = Inr (proc_end k + of_nat n, k') \<and> proc_end k' = proc_end k + of_nat n \<and> proc_room c m k'"
    if "proc_room (Suc c) (n + m) k" for c n m k using that by (rule proc_brk_grow)
  show "0 < unat (proc_end k) \<and> unat (proc_end k) + n < 2 ^ 31" if "proc_room c n k" for c n k
    using that by (simp add: proc_room_def proc_end_def Let_def)
  show "proc_room c m k" if "proc_room (Suc c) (n + m) k" for c n m k
    using that proc_room_shift [of "Suc c" "n + m" "fst k" "snd k" c "mm_brk (fst k)" m] by simp
qed

section \<open>Allocation and reallocation\<close>

text \<open>C33: user-space \<^verbatim>\<open>malloc\<close> over the kernel's break: as long as the kernel has room, it returns a non-null pointer to a block of at
  least the requested size that no block in use overlaps; the blocks in use before are in use at the same addresses with the
  same sizes and bytes, the chain of blocks stays well formed below the break, and the kernel keeps the remaining room.\<close>

theorem malloc_fresh:
  assumes "heap_inv (unat (proc_end (kern h))) h bs" "proc_room (Suc c) (unat sz + 16 + m) (kern h)" "sz \<noteq> 0"
  shows "\<exists>a h' bs'. malloc proc_brk sz h = Inr (a + 16, h') \<and> a + 16 \<noteq> 0 \<and> heap_inv (unat (proc_end (kern h'))) h' bs'
    \<and> a \<notin> used h bs \<and> used h' bs' = insert a (used h bs) \<and> unat sz \<le> card (payload h' a)
    \<and> (\<forall>b\<in>used h bs. payload h' b = payload h b \<and> payload h b \<inter> payload h' a = {}) \<and> ubytes h' = ubytes h
    \<and> proc_room c m (kern h')"
proof -
  obtain a h' bs' where m: "malloc proc_brk sz h = Inr (a + 16, h')" "heap_inv (unat (proc_end (kern h'))) h' bs'"
    "allocated sz h bs a h' bs'" "proc_room c m (kern h')" using kbrk.malloc_ok [OF assms] by blast
  have al: "a \<notin> used h bs" "used h' bs' = insert a (used h bs)" "unat sz \<le> sz_of h' a" "ubytes h' = ubytes h"
    "\<forall>b\<in>used h bs. sz_of h' b = sz_of h b" using m(3) by (simp_all add: allocated_def)
  have us: "a \<in> set bs'" "\<forall>b\<in>used h bs. b \<in> set bs' \<and> b \<noteq> a" using al(1,2) by (auto simp: used_def)
  have pl: "payload h' b = payload h b" if "b \<in> used h bs" for b using that al(5) by (simp add: payload_def)
  have "payload h b \<inter> payload h' a = {}" if "b \<in> used h bs" for b
    using payload_apart [OF m(2) _ us(1), of b] us(2) that unfolding pl [OF that] by blast
  moreover have "a + 16 \<noteq> 0" using block_nonzero [OF m(2) _ us(1)] kbrk.bounded [OF m(4)] by simp
  moreover have "unat sz \<le> card (payload h' a)" using al(3) by (simp add: payload_def)
  ultimately show ?thesis using m(1,2,4) al(1,2,4) pl by blast
qed

definition uheap_demo :: "u32 \<Rightarrow> (mm \<times> mmu) uheap" where
  "uheap_demo b = \<lparr>u_base = 0, metas = Map.empty, ubytes = (\<lambda>_. 0), u_errno = 0,
     kern = (\<lparr>mm_brk = b, mm_mmap = [], mm_pd = 0x20000\<rparr>, brk_demo)\<rparr>"

lemma uheap_demo_room:
  assumes "0 < unat b" "unat b \<le> 0x2000"
  shows "proc_room 1 256 (kern (uheap_demo b))"
proof -
  have "{1, 2, 3} \<subseteq> free_set clone_demo_frames"
    unfolding free_set_def clone_demo_frames_ok(1) by (simp add: clone_demo_frames_def)
  then have "card {1, 2, 3 :: nat} \<le> card (free_set clone_demo_frames)" by (intro card_mono) (simp add: free_set_def)
  then have "2 < card (free_set clone_demo_frames)" by simp
  moreover have "has_table brk_demo 0x20000 v" if "unat v < 0x8000" for v
    using that index_digits [of v] by (intro brk_demo_ok(2)) simp
  moreover have "kheap_rep (mheap brk_demo) {}" "kheap_room 1 (mheap brk_demo)"
    using empty_heap_rep [of "0xc0000000"]
    by (simp_all add: brk_demo_def kheap_rep_def kheap_room_def heap_room_def empty_heap_def)
  ultimately show ?thesis using assms brk_demo_ok(1,3) clone_demo_frames_ok(2)
    by (auto simp: proc_room_def uheap_demo_def Let_def clone_demo_frames_def)
qed

theorem malloc_fresh_witness:
  "\<exists>a h'. malloc proc_brk 40 (uheap_demo 0x1000) = Inr (a + 16, h') \<and> a + 16 \<noteq> 0 \<and> 40 \<le> card (payload h' a)"
  using malloc_fresh [of "uheap_demo 0x1000" "[]" 0 40 200] uheap_demo_room [of "0x1000"]
  by (auto simp: heap_inv_def uheap_demo_def)

text \<open>C34: \<^verbatim>\<open>realloc\<close> of a block in use returns a block of at least the new size that holds the old bytes, up to the smaller
  of the two sizes; of the blocks in use only the old one is given up, and the bytes of the others are untouched.\<close>

theorem realloc_keeps_bytes:
  assumes "heap_inv (unat (proc_end (kern h))) h bs" "proc_room (Suc c) (unat sz + 16 + m) (kern h)" "b \<in> used h bs"
  shows "\<exists>a h' bs'. realloc proc_brk (b + 16) sz h = Inr (a + 16, h') \<and> heap_inv (unat (proc_end (kern h'))) h' bs'
    \<and> used h' bs' = insert a (used h bs - {b}) \<and> unat sz \<le> sz_of h' a \<and> proc_room c m (kern h')
    \<and> (\<forall>i<min (unat sz) (sz_of h b). ubytes h' (a + 16 + of_nat i) = ubytes h (b + 16 + of_nat i))
    \<and> (\<forall>d\<in>used h bs - {b}. \<forall>x. unat x \<in> payload h d \<longrightarrow> ubytes h' x = ubytes h x)"
  using assms by (rule kbrk.realloc_ok)

definition realloc_demo :: "(mm \<times> mmu) uheap" where
  "realloc_demo = (uheap_demo 0x1018)\<lparr>u_base := 0x1000,
     metas := [0x1000 \<mapsto> \<lparr>bm_size = 8, bm_free = False, bm_magic = MAGIC, bm_next = 0\<rparr>], ubytes := (\<lambda>x. ucast x)\<rparr>"

theorem realloc_keeps_bytes_witness:
  "\<exists>a h'. realloc proc_brk 0x1010 100 realloc_demo = Inr (a + 16, h') \<and> ubytes h' (a + 16 + 3) = 0x13"
proof -
  have u: "used realloc_demo [0x1000] = {0x1000}" "sz_of realloc_demo 0x1000 = 8" "kern realloc_demo = kern (uheap_demo 0x1018)"
    by (auto simp: used_def is_free_def realloc_demo_def sz_of_def)
  have "heap_inv (unat (proc_end (kern realloc_demo))) realloc_demo [0x1000]"
    unfolding heap_inv_def u(3) by (simp add: u(2)) (simp add: realloc_demo_def uheap_demo_def proc_end_def)
  from realloc_keeps_bytes [OF this, of 0 100 140 "0x1000"] uheap_demo_room [of "0x1018"] u obtain a h' where
    "realloc proc_brk (0x1000 + 16) 100 realloc_demo = Inr (a + 16, h')"
    "\<forall>i<8. ubytes h' (a + 16 + of_nat i) = ubytes realloc_demo (0x1000 + 16 + of_nat i)" by auto
  moreover from this(2) have "ubytes h' (a + 16 + of_nat 3) = ubytes realloc_demo (0x1000 + 16 + of_nat 3)"
    by (rule allE [of _ 3]) simp
  ultimately show ?thesis by (simp add: realloc_demo_def)
qed

text \<open>A break that the kernel refuses to move goes unnoticed: \<^verbatim>\<open>sbrk\<close> drops the result of its second call, and \<^verbatim>\<open>malloc\<close>
  hands out a block beyond the break.\<close>

lemma malloc_misses_refusal:
  assumes "\<forall>a. brk a k = Inr (b, k)" "0 < unat b" "unat b < 2 ^ 31" "sz \<noteq> 0" "kern h = k" "u_base h = 0"
  shows "\<exists>h'. malloc brk sz h = Inr (b + 16, h') \<and> kern h' = k"
proof -
  have "unat (- 1 :: u32) = 2 ^ 32 - 1" by (simp add: unsigned_minus_1_eq_mask mask_eq_exp_minus_1)
  then have "b \<noteq> 0" "b \<noteq> - 1" "0 \<le> sint b" using assms(2,3) by (auto simp: sint32)
  then show ?thesis using assms
    by (simp add: malloc_def request_space_def sbrk_def syscall_brk_def META_SIZE_def)
qed

end
