(* ===== verification/Spec2Isabelle.thy ===== *)
theory Spec2Isabelle
  imports CString Sched HashMap OrderedArray Vsprintf Strftime Cmos Kbd Mmap Fork StackMove UserHeap
begin

text \<open>
  Verification of the bingos kernel, a small 32-bit x86 kernel.  (Plan.)
\<close>

end
